(* ===== verification/Otel_Prelude.thy ===== *)
theory Otel_Prelude
  imports Main "HOL-Library.FSet"
begin

text \<open>
  Shared vocabulary of the development: the machine integers of the Rust
  sources, the clock types, and generic lemmas on lists, options and finite sets.

  \<^item> \<open>u64\<close> and \<open>usize\<close> values are natural numbers; the bound \<open>U64_MAX\<close> is written out
    wherever an operation saturates or wraps (the workspace builds the release
    profile without overflow checks, so plain \<open>+\<close> wraps).  The targets are 64-bit, so
    \<open>usize\<close> has the same bound.
  \<^item> \<open>a.saturating_sub(b)\<close> on unsigned values is subtraction on \<^typ>\<open>nat\<close>.
  \<^item> \<open>Instant\<close> and \<open>Duration\<close> are counts of nanoseconds; an \<open>Instant\<close> has a largest
    representable value.
  \<^item> Text is a list of bytes (\<^typ>\<open>string\<close>): the length of a Rust \<open>String\<close> is its byte length.
\<close>

section \<open>Collections\<close>

named_theorems inv_intros \<open>introduction rules that re-establish component invariants\<close>
named_theorems step_simps \<open>rewriting rules that run one operation of a component\<close>

section \<open>Machine integers\<close>

type_synonym u64 = nat
type_synonym usize = nat
type_synonym u32 = nat
type_synonym i64 = int

abbreviation U64_MAX :: nat where
  "U64_MAX \<equiv> 18446744073709551615"

abbreviation USIZE_MAX :: nat where
  "USIZE_MAX \<equiv> 18446744073709551615"

abbreviation I64_MAX :: int where
  "I64_MAX \<equiv> 9223372036854775807"

abbreviation I64_MIN :: int where
  "I64_MIN \<equiv> - 9223372036854775808"

definition saturating_add :: "u64 \<Rightarrow> u64 \<Rightarrow> u64" where
  "saturating_add a b = min (a + b) U64_MAX"

definition saturating_mul :: "u64 \<Rightarrow> u64 \<Rightarrow> u64" where
  "saturating_mul a b = min (a * b) U64_MAX"

definition wrapping_add :: "u64 \<Rightarrow> u64 \<Rightarrow> u64" where
  "wrapping_add a b = (a + b) mod (U64_MAX + 1)"

lemma saturating_add_bound [simp]: "saturating_add a b \<le> U64_MAX"
  by (simp add: saturating_add_def)

lemma saturating_add_exact: "a + b \<le> U64_MAX \<Longrightarrow> saturating_add a b = a + b"
  by (simp add: saturating_add_def)

lemma saturating_add_ge: "a \<le> U64_MAX \<Longrightarrow> a \<le> saturating_add a b"
  by (simp add: saturating_add_def)

lemma saturating_add_eq_0 [simp]: "saturating_add a b = 0 \<longleftrightarrow> a = 0 \<and> b = 0"
  by (auto simp: saturating_add_def min_def)

lemma saturating_add_0_right [simp]: "a \<le> U64_MAX \<Longrightarrow> saturating_add a 0 = a"
  by (simp add: saturating_add_def)

lemma saturating_add_0_left [simp]: "a \<le> U64_MAX \<Longrightarrow> saturating_add 0 a = a"
  by (simp add: saturating_add_def)

lemma saturating_add_mono: "a \<le> a' \<Longrightarrow> b \<le> b' \<Longrightarrow> saturating_add a b \<le> saturating_add a' b'"
  by (simp add: saturating_add_def min_def)

lemma saturating_add_assoc:
  "saturating_add (saturating_add a b) c = saturating_add a (saturating_add b c)"
  by (simp add: saturating_add_def min_def)

lemma saturating_mul_bound [simp]: "saturating_mul a b \<le> U64_MAX"
  by (simp add: saturating_mul_def)

lemma wrapping_add_exact: "a + b \<le> U64_MAX \<Longrightarrow> wrapping_add a b = a + b"
  by (simp add: wrapping_add_def)

lemma wrapping_add_overflow [simp]: "wrapping_add U64_MAX 1 = 0"
  by (simp add: wrapping_add_def)

section \<open>Clocks\<close>

type_synonym instant = nat
type_synonym duration = nat

text \<open>
  The standard library keeps an \<open>Instant\<close> as signed 64-bit seconds plus nanoseconds;
  \<open>Instant::checked_add\<close> is \<open>None\<close> past the last representable nanosecond.  A \<open>Duration\<close> is
  unsigned 64-bit seconds plus nanoseconds, and dividing it by two rounds its
  nanosecond count down.
\<close>

abbreviation INSTANT_MAX :: nat where
  "INSTANT_MAX \<equiv> 9223372036854775807999999999"

abbreviation DURATION_MAX :: nat where
  "DURATION_MAX \<equiv> 18446744073709551615999999999"

abbreviation from_millis :: "nat \<Rightarrow> duration" where
  "from_millis ms \<equiv> ms * 1000000"

abbreviation from_secs :: "nat \<Rightarrow> duration" where
  "from_secs s \<equiv> s * 1000000000"

definition as_millis :: "duration \<Rightarrow> nat" where
  "as_millis d = d div 1000000"

definition checked_add :: "instant \<Rightarrow> duration \<Rightarrow> instant option" where
  "checked_add now after = (if now + after \<le> INSTANT_MAX then Some (now + after) else None)"

section \<open>Lists\<close>

lemma take_drop_min_append: "take n xs @ take m (drop n xs) = take (n + m) xs"
  by (simp add: take_add)

lemma length_concat_replicate_const:
  "(\<And>x. x \<in> set xs \<Longrightarrow> length x = k) \<Longrightarrow> length (concat xs) = k * length xs"
  by (induction xs) auto

lemma sum_list_map_filter_le:
  "sum_list (map f (filter P xs)) \<le> (sum_list (map f xs) :: nat)"
  by (induction xs) auto

lemma zip_concat_map:
  "(\<And>x. x \<in> set xs \<Longrightarrow> length (f x) = length (g x)) \<Longrightarrow>
   zip (concat (map f xs)) (concat (map g xs)) = concat (map (\<lambda>x. zip (f x) (g x)) xs)"
  by (induction xs) auto

lemma zip_replicate_left: "zip (replicate (length ys) x) ys = map (Pair x) ys"
  by (induction ys) auto

lemma zip_append_eq:
  "length as = length xs \<Longrightarrow> zip as xs @ zip bs ys = zip (as @ bs) (xs @ ys)"
  by simp

section \<open>Results\<close>

text \<open>\<open>Result<T, E>\<close> is the sum type \<open>'e + 'a\<close>; \<open>try_bind\<close> is the \<open>?\<close> operator.\<close>

definition try_bind :: "'e + 'a \<Rightarrow> ('a \<Rightarrow> 'e + 'b) \<Rightarrow> 'e + 'b" where
  "try_bind r f = (case r of Inl e \<Rightarrow> Inl e | Inr a \<Rightarrow> f a)"

lemma try_bind_simps [simp]:
  "try_bind (Inl e) f = Inl e"
  "try_bind (Inr a) f = f a"
  by (simp_all add: try_bind_def)

lemma try_bind_Inr_iff [simp]: "try_bind r f = Inr b \<longleftrightarrow> (\<exists>a. r = Inr a \<and> f a = Inr b)"
  by (cases r) auto

lemma try_bind_Inl_iff: "try_bind r f = Inl e \<longleftrightarrow> r = Inl e \<or> (\<exists>a. r = Inr a \<and> f a = Inl e)"
  by (cases r) auto

lemma try_bind_cong [fundef_cong]:
  "r = r' \<Longrightarrow> (\<And>a. r' = Inr a \<Longrightarrow> f a = g a) \<Longrightarrow> try_bind r f = try_bind r' g"
  by (cases r') auto

end
