(* ===== verification/Core_Model.thy ===== *)
theory Core_Model
  imports Rust_Text "HOL-Library.Word"
begin

unbundle bit_operations_syntax

text \<open>
  The telemetry data model (\<open>otel-sqlite-core/src/model/\<close>): severities, attribute values and
  their canonical JSON, resources, scopes and log records.

  The \<open>Serialize\<close> implementations of the sources drive a serializer; the model gives the
  tree of calls they make (\<open>json\<close>).  The text that \<open>serde_json\<close> produces from such a tree is
  third-party code and enters as the parameter \<open>render\<close>.
\<close>

section \<open>Severity\<close>

datatype Severity =
    Unspecified
  | Trace | Trace2 | Trace3 | Trace4
  | Debug | Debug2 | Debug3 | Debug4
  | Info | Info2 | Info3 | Info4
  | Warn | Warn2 | Warn3 | Warn4
  | Error | Error2 | Error3 | Error4
  | Fatal | Fatal2 | Fatal3 | Fatal4

definition all_severities :: "Severity list" where
  "all_severities =
     [Unspecified, Trace, Trace2, Trace3, Trace4, Debug, Debug2, Debug3, Debug4,
      Info, Info2, Info3, Info4, Warn, Warn2, Warn3, Warn4, Error, Error2, Error3, Error4,
      Fatal, Fatal2, Fatal3, Fatal4]"

text \<open>\<open>self as u8\<close>: the declared discriminants.\<close>

fun severity_as_u8 :: "Severity \<Rightarrow> nat" where
  "severity_as_u8 Unspecified = 0"
| "severity_as_u8 Trace = 1" | "severity_as_u8 Trace2 = 2"
| "severity_as_u8 Trace3 = 3" | "severity_as_u8 Trace4 = 4"
| "severity_as_u8 Debug = 5" | "severity_as_u8 Debug2 = 6"
| "severity_as_u8 Debug3 = 7" | "severity_as_u8 Debug4 = 8"
| "severity_as_u8 Info = 9" | "severity_as_u8 Info2 = 10"
| "severity_as_u8 Info3 = 11" | "severity_as_u8 Info4 = 12"
| "severity_as_u8 Warn = 13" | "severity_as_u8 Warn2 = 14"
| "severity_as_u8 Warn3 = 15" | "severity_as_u8 Warn4 = 16"
| "severity_as_u8 Error = 17" | "severity_as_u8 Error2 = 18"
| "severity_as_u8 Error3 = 19" | "severity_as_u8 Error4 = 20"
| "severity_as_u8 Fatal = 21" | "severity_as_u8 Fatal2 = 22"
| "severity_as_u8 Fatal3 = 23" | "severity_as_u8 Fatal4 = 24"

definition severity_from_u8 :: "nat \<Rightarrow> Severity option" where
  "severity_from_u8 v = (if v < 25 then Some (all_severities ! v) else None)"

fun severity_as_str :: "Severity \<Rightarrow> string" where
  "severity_as_str Trace = ''TRACE''"
| "severity_as_str Debug = ''DEBUG''"
| "severity_as_str Info = ''INFO''"
| "severity_as_str Warn = ''WARN''"
| "severity_as_str Error = ''ERROR''"
| "severity_as_str Fatal = ''FATAL''"
| "severity_as_str _ = ''UNSPECIFIED''"

lemma severity_from_as: "severity_from_u8 (severity_as_u8 s) = Some s"
  by (cases s) (simp_all add: severity_from_u8_def all_severities_def)

lemma severity_as_u8_lt: "severity_as_u8 s < 25"
  by (cases s) simp_all

lemma severity_as_from: "severity_from_u8 v = Some s \<Longrightarrow> severity_as_u8 s = v"
proof -
  assume "severity_from_u8 v = Some s"
  hence "v \<in> set [0..<25]" "s = all_severities ! v" by (auto simp: severity_from_u8_def split: if_splits)
  moreover have "list_all (\<lambda>v. severity_as_u8 (all_severities ! v) = v) [0..<25]"
    by (simp add: all_severities_def upt_rec numeral_nat)
  ultimately show ?thesis by (simp only: list_all_iff)
qed

section \<open>Attribute values\<close>

text \<open>An \<open>f64\<close> is its IEEE 754 bit pattern.\<close>

type_synonym f64 = "64 word"
type_synonym u8 = nat

definition f64_is_finite :: "f64 \<Rightarrow> bool" where
  "f64_is_finite x \<longleftrightarrow> (drop_bit 52 x AND 0x7FF) \<noteq> 0x7FF"

definition f64_is_nan :: "f64 \<Rightarrow> bool" where
  "f64_is_nan x \<longleftrightarrow> (drop_bit 52 x AND 0x7FF) = 0x7FF \<and> (x AND 0xFFFFFFFFFFFFF) \<noteq> 0"

definition f64_is_zero :: "f64 \<Rightarrow> bool" where
  "f64_is_zero x \<longleftrightarrow> (x AND 0x7FFFFFFFFFFFFFFF) = 0"

definition f64_eq :: "f64 \<Rightarrow> f64 \<Rightarrow> bool" where
  "f64_eq x y \<longleftrightarrow> \<not> f64_is_nan x \<and> \<not> f64_is_nan y \<and> (x = y \<or> (f64_is_zero x \<and> f64_is_zero y))"

datatype AttributeValue =
    AvNull
  | AvString string
  | AvInt i64
  | AvDouble f64
  | AvBool bool
  | AvBytes "u8 list"
  | AvArray "AttributeValue list"
  | AvKvlist "Attribute list"
and Attribute = Attribute (attr_key: string) (attr_value: AttributeValue)

fun as_str :: "AttributeValue \<Rightarrow> string option" where
  "as_str (AvString s) = Some s"
| "as_str _ = None"

fun as_int :: "AttributeValue \<Rightarrow> i64 option" where
  "as_int (AvInt n) = Some n"
| "as_int _ = None"

fun as_bool :: "AttributeValue \<Rightarrow> bool option" where
  "as_bool (AvBool b) = Some b"
| "as_bool _ = None"

text \<open>The derived \<open>PartialEq\<close>: structural, except that doubles compare as IEEE numbers.\<close>

fun av_eq :: "AttributeValue \<Rightarrow> AttributeValue \<Rightarrow> bool"
and av_list_eq :: "AttributeValue list \<Rightarrow> AttributeValue list \<Rightarrow> bool"
and attributes_eq :: "Attribute list \<Rightarrow> Attribute list \<Rightarrow> bool" where
  "av_eq AvNull AvNull = True"
| "av_eq (AvString a) (AvString b) = (a = b)"
| "av_eq (AvInt a) (AvInt b) = (a = b)"
| "av_eq (AvDouble a) (AvDouble b) = f64_eq a b"
| "av_eq (AvBool a) (AvBool b) = (a = b)"
| "av_eq (AvBytes a) (AvBytes b) = (a = b)"
| "av_eq (AvArray a) (AvArray b) = av_list_eq a b"
| "av_eq (AvKvlist a) (AvKvlist b) = attributes_eq a b"
| "av_eq _ _ = False"
| "av_list_eq [] [] = True"
| "av_list_eq (x # xs) (y # ys) = (av_eq x y \<and> av_list_eq xs ys)"
| "av_list_eq _ _ = False"
| "attributes_eq [] [] = True"
| "attributes_eq (Attribute k v # xs) (Attribute k' v' # ys) = (k = k' \<and> av_eq v v' \<and> attributes_eq xs ys)"
| "attributes_eq _ _ = False"

section \<open>Canonical JSON\<close>

datatype json =
    JNull
  | JBool bool
  | JInt i64
  | JDouble f64
  | JString string
  | JArray "json list"
  | JObject "(string \<times> json) list"

definition hex_digit :: "nat \<Rightarrow> char" where
  "hex_digit n = ''0123456789abcdef'' ! n"

definition hex_encode :: "u8 list \<Rightarrow> string" where
  "hex_encode bytes = concat (map (\<lambda>b. [hex_digit (b div 16), hex_digit (b mod 16)]) bytes)"

definition float_json :: "f64 \<Rightarrow> json" where
  "float_json x = (if f64_is_finite x then JDouble x else JNull)"

text \<open>The key order of both object serializers: indices sorted by (key, index).\<close>

definition key_order :: "Attribute list \<Rightarrow> nat list" where
  "key_order attrs = sort_key (\<lambda>i. (attr_key (attrs ! i), i)) [0..<length attrs]"

text \<open>Their loop: an entry is skipped when the next one in order has the same key.\<close>

fun last_per_key :: "Attribute list \<Rightarrow> Attribute list" where
  "last_per_key (a # b # rest) =
     (if attr_key b = attr_key a then last_per_key (b # rest) else a # last_per_key (b # rest))"
| "last_per_key as = as"

definition canonical_entries :: "Attribute list \<Rightarrow> Attribute list" where
  "canonical_entries attrs = last_per_key (map (\<lambda>i. attrs ! i) (key_order attrs))"

lemma set_key_order [simp]: "set (key_order attrs) = {..<length attrs}"
  by (auto simp: key_order_def)

lemma distinct_key_order: "distinct (key_order attrs)"
  by (simp add: key_order_def distinct_sort)

lemma set_last_per_key: "set (last_per_key as) \<subseteq> set as"
  by (induction as rule: last_per_key.induct) auto

lemma set_canonical_entries: "set (canonical_entries attrs) \<subseteq> set attrs"
  using set_last_per_key[of "map ((!) attrs) (key_order attrs)"]
  by (auto simp: canonical_entries_def)

lemma size_attr_value_less:
  "a \<in> set (canonical_entries attrs) \<Longrightarrow> size (attr_value a) \<le> size_list size attrs"
proof -
  assume "a \<in> set (canonical_entries attrs)"
  hence "a \<in> set attrs" using set_canonical_entries by blast
  hence "size a \<le> size_list size attrs" by (rule size_list_estimation') simp
  moreover have "size (attr_value a) < size a" by (cases a) simp
  ultimately show ?thesis by linarith
qed

function to_json :: "AttributeValue \<Rightarrow> json" where
  "to_json AvNull = JNull"
| "to_json (AvInt n) = JInt n"
| "to_json (AvDouble x) = float_json x"
| "to_json (AvBool b) = JBool b"
| "to_json (AvString s) = JString s"
| "to_json (AvBytes bytes) = JString (hex_encode bytes)"
| "to_json (AvArray values) = JArray (map to_json values)"
| "to_json (AvKvlist attrs) = JObject (map (\<lambda>a. (attr_key a, to_json (attr_value a))) (canonical_entries attrs))"
  by pat_completeness auto
termination
  by (relation "measure size") (auto simp: size_attr_value_less less_Suc_eq_le intro: size_list_estimation')

definition attributes_json :: "Attribute list \<Rightarrow> json" where
  "attributes_json attrs = JObject (map (\<lambda>a. (attr_key a, to_json (attr_value a))) (canonical_entries attrs))"

text \<open>\<open>to_canonical_json\<close> and \<open>write_attributes_json_into\<close>.\<close>

definition to_canonical_json :: "(json \<Rightarrow> string) \<Rightarrow> AttributeValue \<Rightarrow> string" where
  "to_canonical_json render v = render (to_json v)"

definition write_attributes_json_into :: "(json \<Rightarrow> string) \<Rightarrow> Attribute list \<Rightarrow> string" where
  "write_attributes_json_into render attrs = render (attributes_json attrs)"

section \<open>Resources, scopes and records\<close>

record Resource =
  res_id :: string
  res_attributes :: "Attribute list"
  res_schema_url :: string

definition new_resource :: "Attribute list \<Rightarrow> Resource" where
  "new_resource attrs = \<lparr>res_id = [], res_attributes = attrs, res_schema_url = []\<rparr>"

definition resource_get :: "Resource \<Rightarrow> string \<Rightarrow> AttributeValue option" where
  "resource_get r key = map_option attr_value (find (\<lambda>a. attr_key a = key) (rev (res_attributes r)))"

definition str_attribute :: "Resource \<Rightarrow> string \<Rightarrow> string" where
  "str_attribute r key = (case Option.bind (resource_get r key) as_str of Some s \<Rightarrow> s | None \<Rightarrow> [])"

definition service_name :: "Resource \<Rightarrow> string" where
  "service_name r = str_attribute r ''service.name''"

definition host_name :: "Resource \<Rightarrow> string" where
  "host_name r = str_attribute r ''host.name''"

definition resource_eq :: "Resource \<Rightarrow> Resource \<Rightarrow> bool" where
  "resource_eq r r' \<longleftrightarrow> res_id r = res_id r' \<and> attributes_eq (res_attributes r) (res_attributes r') \<and>
                        res_schema_url r = res_schema_url r'"

record LogScope =
  scope_name :: string
  scope_version :: string
  scope_schema_url :: string
  scope_attributes_json :: string

definition new_scope :: "(json \<Rightarrow> string) \<Rightarrow> string \<Rightarrow> string \<Rightarrow> Attribute list \<Rightarrow> string \<Rightarrow> LogScope" where
  "new_scope render name version attrs schema_url =
     \<lparr>scope_name = name, scope_version = version, scope_schema_url = schema_url,
      scope_attributes_json = write_attributes_json_into render attrs\<rparr>"

definition default_scope :: "(json \<Rightarrow> string) \<Rightarrow> LogScope" where
  "default_scope render = new_scope render [] [] [] []"

record LogRecord =
  time_unix_nano :: i64
  observed_time_unix_nano :: i64
  severity_number :: Severity
  severity_text :: string
  trace_id :: "u8 list"
  span_id :: "u8 list"
  body :: string
  body_json :: "string option"
  attributes :: "Attribute list"
  dropped_attributes_count :: u32
  flags :: u32
  event_name :: string
  scope :: LogScope

definition default_record :: "(json \<Rightarrow> string) \<Rightarrow> LogRecord" where
  "default_record render =
     \<lparr>time_unix_nano = 0, observed_time_unix_nano = 0, severity_number = Unspecified,
      severity_text = [], trace_id = replicate 16 0, span_id = replicate 8 0, body = [],
      body_json = None, attributes = [], dropped_attributes_count = 0, flags = 0,
      event_name = [], scope = default_scope render\<rparr>"

definition has_trace :: "LogRecord \<Rightarrow> bool" where
  "has_trace r \<longleftrightarrow> trace_id r \<noteq> replicate 16 0"

definition has_span :: "LogRecord \<Rightarrow> bool" where
  "has_span r \<longleftrightarrow> span_id r \<noteq> replicate 8 0"

definition has_trace_context :: "LogRecord \<Rightarrow> bool" where
  "has_trace_context r \<longleftrightarrow> has_trace r \<and> has_span r"

section \<open>The canonical form\<close>

text \<open>The reference: the map from each key to its last-inserted attribute.\<close>

definition last_attr :: "Attribute list \<Rightarrow> string \<Rightarrow> Attribute option" where
  "last_attr attrs k = find (\<lambda>a. attr_key a = k) (rev attrs)"

lemma find_rev: "find P (rev xs) = (if filter P xs = [] then None else Some (last (filter P xs)))"
  by (induction xs rule: rev_induct) auto

lemma key_order_sorted:
  "sorted_wrt (\<lambda>i j. (attr_key (attrs ! i), i) \<le> (attr_key (attrs ! j), j)) (key_order attrs)"
proof -
  have "sorted (map (\<lambda>i. (attr_key (attrs ! i), i)) (key_order attrs))" by (simp add: key_order_def)
  thus ?thesis by (simp only: sorted_map)
qed

lemma key_order_filter:
  "filter (\<lambda>i. attr_key (attrs ! i) = k) (key_order attrs) =
   filter (\<lambda>i. attr_key (attrs ! i) = k) [0..<length attrs]"
proof (rule sorted_distinct_set_unique)
  have "sorted_wrt (\<lambda>i j. (attr_key (attrs ! i), i) \<le> (attr_key (attrs ! j), j))
          (filter (\<lambda>i. attr_key (attrs ! i) = k) (key_order attrs))"
    by (rule sorted_wrt_filter[OF key_order_sorted])
  thus "sorted (filter (\<lambda>i. attr_key (attrs ! i) = k) (key_order attrs))"
    by (rule sorted_wrt_mono_rel[rotated]) (simp add: less_eq_prod_def)
  show "sorted (filter (\<lambda>i. attr_key (attrs ! i) = k) [0..<length attrs])"
    by (rule sorted_wrt_filter) simp
qed (simp_all add: distinct_key_order lessThan_atLeast0)

abbreviation ordered :: "Attribute list \<Rightarrow> Attribute list" where
  "ordered attrs \<equiv> map ((!) attrs) (key_order attrs)"

lemma ordered_filter:
  "filter (\<lambda>a. attr_key a = k) (ordered attrs) = filter (\<lambda>a. attr_key a = k) attrs"
proof -
  have "filter (\<lambda>a. attr_key a = k) (ordered attrs) =
          map ((!) attrs) (filter (\<lambda>i. attr_key (attrs ! i) = k) [0..<length attrs])"
    by (simp add: filter_map comp_def key_order_filter)
  also have "\<dots> = filter (\<lambda>a. attr_key a = k) (map ((!) attrs) [0..<length attrs])"
    by (simp add: filter_map comp_def)
  finally show ?thesis by (simp add: map_nth)
qed

lemma ordered_sorted: "sorted (map attr_key (ordered attrs))"
proof -
  have "sorted_wrt (\<lambda>i j. attr_key (attrs ! i) \<le> attr_key (attrs ! j)) (key_order attrs)"
    by (rule sorted_wrt_mono_rel[OF _ key_order_sorted]) (auto simp: less_eq_prod_def)
  thus ?thesis by (simp only: map_map sorted_map comp_def)
qed

lemma last_per_key_sorted:
  "sorted (map attr_key as) \<Longrightarrow> sorted_wrt (<) (map attr_key (last_per_key as))"
proof (induction as rule: last_per_key.induct)
  case (1 a b rest)
  show ?case
  proof (cases "attr_key b = attr_key a")
    case False
    hence "attr_key a < attr_key x" if "x \<in> set (b # rest)" for x
      using "1.prems" that by (auto simp: order.strict_iff_order)
    hence "\<forall>x \<in> set (last_per_key (b # rest)). attr_key a < attr_key x"
      using set_last_per_key by blast
    thus ?thesis using 1 False by auto
  qed (use 1 in simp)
qed simp_all

lemma last_per_key_filter:
  "sorted (map attr_key as) \<Longrightarrow>
   filter (\<lambda>a. attr_key a = k) (last_per_key as) =
     (if filter (\<lambda>a. attr_key a = k) as = [] then [] else [last (filter (\<lambda>a. attr_key a = k) as)])"
proof (induction as rule: last_per_key.induct)
  case (1 a b rest)
  show ?case
  proof (cases "attr_key b = attr_key a")
    case True
    thus ?thesis using 1 by auto
  next
    case False
    hence "attr_key a < attr_key x" if "x \<in> set (b # rest)" for x
      using "1.prems" that by (auto simp: order.strict_iff_order)
    hence "\<forall>x \<in> set (b # rest). attr_key x \<noteq> attr_key a" by (metis less_irrefl)
    hence "k = attr_key a \<Longrightarrow> filter (\<lambda>a. attr_key a = k) (b # rest) = []"
      by (simp add: filter_empty_conv)
    thus ?thesis using 1 False by auto
  qed
qed auto

lemma canonical_sorted: "sorted_wrt (<) (map attr_key (canonical_entries attrs))"
  unfolding canonical_entries_def by (rule last_per_key_sorted[OF ordered_sorted])

lemma canonical_lookup: "find (\<lambda>a. attr_key a = k) (canonical_entries attrs) = last_attr attrs k"
proof -
  have f: "filter (\<lambda>a. attr_key a = k) (canonical_entries attrs) =
             (if filter (\<lambda>a. attr_key a = k) attrs = [] then []
              else [last (filter (\<lambda>a. attr_key a = k) attrs)])"
    unfolding canonical_entries_def using last_per_key_filter[OF ordered_sorted] by (simp only: ordered_filter)
  have g: "find P xs = (case filter P xs of [] \<Rightarrow> None | x # _ \<Rightarrow> Some x)" for P and xs :: "Attribute list"
    by (induction xs) auto
  show ?thesis unfolding g[of _ "canonical_entries attrs"] f last_attr_def find_rev by simp
qed

lemma find_key_mem:
  "distinct (map attr_key zs) \<Longrightarrow> a \<in> set zs \<longleftrightarrow> find (\<lambda>x. attr_key x = attr_key a) zs = Some a"
proof (induction zs)
  case (Cons z zs)
  show ?case
  proof (cases "attr_key z = attr_key a")
    case True
    hence "a \<notin> set zs" using Cons.prems by (metis distinct.simps(2) list.simps(9) nth_map in_set_conv_nth length_map nth_mem)
    thus ?thesis using True by auto
  qed (use Cons in auto)
qed simp

lemma strict_sorted_entries_unique:
  assumes "sorted_wrt (<) (map attr_key xs)" "sorted_wrt (<) (map attr_key ys)"
    and "\<And>k. find (\<lambda>a. attr_key a = k) xs = find (\<lambda>a. attr_key a = k) ys"
  shows "xs = ys"
proof (rule map_sorted_distinct_set_unique[of attr_key])
  have d: "distinct (map attr_key xs)" "distinct (map attr_key ys)"
    using assms(1,2) by (simp_all add: strict_sorted_iff)
  show set_eq: "set xs = set ys"
    by (rule set_eqI) (simp only: find_key_mem[OF d(1)] find_key_mem[OF d(2)] assms(3))
  show "inj_on attr_key (set xs \<union> set ys)"
    using d(1) by (simp add: set_eq[symmetric] distinct_map)
qed (use assms(1,2) in \<open>simp_all add: strict_sorted_iff\<close>)

section \<open>Hex encoding\<close>

definition hex_value :: "char \<Rightarrow> nat" where
  "hex_value c = (if CHR ''0'' \<le> c \<and> c \<le> CHR ''9'' then of_char c - 48 else of_char c - 87)"

fun hex_decode :: "string \<Rightarrow> u8 list" where
  "hex_decode (a # b # rest) = (16 * hex_value a + hex_value b) # hex_decode rest"
| "hex_decode _ = []"

lemma hex_value_digit: "n < 16 \<Longrightarrow> hex_value (hex_digit n) = n"
proof -
  have "list_all (\<lambda>n. hex_value (hex_digit n) = n) [0..<16]"
    by (simp add: upt_rec numeral_nat hex_digit_def hex_value_def less_eq_char_def)
  thus "n < 16 \<Longrightarrow> hex_value (hex_digit n) = n" by (simp add: list_all_iff)
qed

lemma hex_decode_encode: "\<forall>b \<in> set bytes. b < 256 \<Longrightarrow> hex_decode (hex_encode bytes) = bytes"
  by (induction bytes) (auto simp: hex_encode_def hex_value_digit div_less_iff_less_mult)

lemma length_hex_encode: "length (hex_encode bytes) = 2 * length bytes"
  by (induction bytes) (simp_all add: hex_encode_def)

lemma attributes_json_cong:
  assumes "\<forall>k. last_attr attrs k = last_attr attrs' k"
  shows "attributes_json attrs = attributes_json attrs'"
proof -
  have "canonical_entries attrs = canonical_entries attrs'"
    using assms by (intro strict_sorted_entries_unique canonical_sorted) (simp only: canonical_lookup)
  thus ?thesis by (simp add: attributes_json_def)
qed

section \<open>Properties\<close>

lemma attributes_json_canonical:
  "sorted_wrt (<) (map attr_key (canonical_entries attrs)) \<and>
   (\<forall>k. find (\<lambda>a. attr_key a = k) (canonical_entries attrs) = last_attr attrs k) \<and>
   ((\<forall>k. last_attr attrs k = last_attr attrs' k) \<longrightarrow> attributes_json attrs = attributes_json attrs')"
  using canonical_sorted canonical_lookup attributes_json_cong by blast

definition sample_attrs :: "Attribute list" where
  "sample_attrs = [Attribute ''b'' (AvInt 1), Attribute ''a'' (AvBool True), Attribute ''b'' (AvInt 2)]"

definition sample_attrs' :: "Attribute list" where
  "sample_attrs' = [Attribute ''b'' (AvInt 2), Attribute ''a'' (AvBool True)]"

lemma resource_get_is_canonical:
  "resource_get r k =
     map_option attr_value (find (\<lambda>a. attr_key a = k) (canonical_entries (res_attributes r)))"
  by (simp add: resource_get_def canonical_lookup last_attr_def)

lemma severity_round_trip:
  "severity_from_u8 (severity_as_u8 s) = Some s \<and>
   (severity_from_u8 v = Some s \<longleftrightarrow> severity_as_u8 s = v) \<and>
   (severity_from_u8 v = None \<longleftrightarrow> 24 < v)"
proof -
  have "severity_from_u8 v = None \<longleftrightarrow> 24 < v" by (auto simp: severity_from_u8_def)
  thus ?thesis using severity_from_as severity_as_from by blast
qed

lemma hex_encode_round_trip:
  assumes "\<forall>b \<in> set bytes. b < 256"
  shows "hex_decode (hex_encode bytes) = bytes \<and> length (hex_encode bytes) = 2 * length bytes"
  using hex_decode_encode[OF assms] length_hex_encode by simp

end
