(* ===== verification/Insert_Batcher.thy ===== *)
theory Insert_Batcher
  imports Otel_Prelude
begin

text \<open>
  Clock helpers (\<open>otel-sqlite-core/src/time.rs\<close>), write batches (\<open>storage/batch.rs\<close>) and the
  insert batcher (\<open>storage/batcher.rs\<close>) that regroups incoming records into
  storage-sized batches.  The instant read by \<open>Instant::now()\<close> during a call is an argument
  of the operation.
\<close>

section \<open>Clock helpers\<close>

text \<open>\<open>saturating_deadline\<close> halves the duration until the sum is representable.  An
  \<open>Instant\<close> is always representable, so adding a zero duration succeeds; the inner
  test only makes the recursion total on numbers that are not an \<open>Instant\<close>.\<close>

fun saturating_deadline :: "instant \<Rightarrow> duration \<Rightarrow> instant" where
  "saturating_deadline now after =
     (case checked_add now after of
        Some deadline \<Rightarrow> deadline
      | None \<Rightarrow> if after = 0 then now else saturating_deadline now (after div 2))"

declare saturating_deadline.simps [simp del]

definition monotonic_millis :: "instant \<Rightarrow> instant \<Rightarrow> u64" where
  "monotonic_millis epoch now = min (as_millis (now - epoch)) U64_MAX"

definition unix_nano_now :: "nat option \<Rightarrow> i64" where
  "unix_nano_now since_epoch =
     (case since_epoch of None \<Rightarrow> 0 | Some nanos \<Rightarrow> min (int nanos) I64_MAX)"

lemma saturating_deadline_exact: "now + after \<le> INSTANT_MAX \<Longrightarrow> saturating_deadline now after = now + after"
  by (simp add: saturating_deadline.simps checked_add_def)

lemma saturating_deadline_range:
  "now \<le> INSTANT_MAX \<Longrightarrow>
   now \<le> saturating_deadline now after \<and> saturating_deadline now after \<le> INSTANT_MAX \<and>
   saturating_deadline now after \<le> now + after"
proof (induction now after rule: saturating_deadline.induct)
  case (1 now after)
  show ?case
  proof (cases "now + after \<le> INSTANT_MAX")
    case True
    thus ?thesis by (simp add: saturating_deadline_exact)
  next
    case False
    hence "after \<noteq> 0" using "1.prems" by auto
    moreover have n: "checked_add now after = None" using False by (simp add: checked_add_def)
    ultimately have "now \<le> saturating_deadline now (after div 2) \<and>
        saturating_deadline now (after div 2) \<le> INSTANT_MAX \<and>
        saturating_deadline now (after div 2) \<le> now + after div 2"
      using "1.IH" "1.prems" by blast
    moreover have "saturating_deadline now after = saturating_deadline now (after div 2)"
      using n \<open>after \<noteq> 0\<close> by (simp add: saturating_deadline.simps[of now after])
    ultimately show ?thesis using div_le_dividend[of after 2] by linarith
  qed
qed

lemma saturating_deadline_upper: "saturating_deadline now after \<le> now + after"
proof (induction now after rule: saturating_deadline.induct)
  case (1 now after)
  have "saturating_deadline now after =
          (if now + after \<le> INSTANT_MAX then now + after
           else if after = 0 then now else saturating_deadline now (after div 2))"
    by (subst saturating_deadline.simps) (simp add: checked_add_def)
  moreover have "saturating_deadline now (after div 2) \<le> now + after div 2"
    if "\<not> now + after \<le> INSTANT_MAX" "after \<noteq> 0"
    using 1 that by (simp add: checked_add_def)
  ultimately show ?case using div_le_dividend[of after 2] by (auto intro: le_trans)
qed

section \<open>Write batches\<close>

datatype 'a WriteBatch = WriteBatch (wb_records: "'a list")

definition from_vec :: "'a list \<Rightarrow> 'a WriteBatch" where
  "from_vec rs = WriteBatch rs"

definition wb_len :: "'a WriteBatch \<Rightarrow> usize" where
  "wb_len b = length (wb_records b)"

definition wb_is_empty :: "'a WriteBatch \<Rightarrow> bool" where
  "wb_is_empty b \<longleftrightarrow> wb_records b = []"

definition into_records :: "'a WriteBatch \<Rightarrow> 'a list" where
  "into_records b = wb_records b"

lemma from_vec_simps [simp]:
  "wb_records (from_vec rs) = rs" "wb_len (from_vec rs) = length rs"
  by (simp_all add: from_vec_def wb_len_def)

section \<open>The batcher\<close>

record InsertBatcherConfig =
  max_batch_records :: usize
  max_batch_age :: duration

definition default_batcher_config :: InsertBatcherConfig where
  "default_batcher_config = \<lparr>max_batch_records = 500, max_batch_age = from_millis 10\<rparr>"

record 'a InsertBatcher =
  ib_config :: InsertBatcherConfig
  ib_buffer :: "'a list"
  ib_deadline :: "instant option"

text \<open>\<open>InsertBatcher::new\<close> panics (\<open>None\<close>) on a zero capacity.\<close>

definition new_batcher :: "InsertBatcherConfig \<Rightarrow> 'a InsertBatcher option" where
  "new_batcher c = (if max_batch_records c \<noteq> 0
                    then Some \<lparr>ib_config = c, ib_buffer = [], ib_deadline = None\<rparr> else None)"

abbreviation ib_max :: "'a InsertBatcher \<Rightarrow> usize" where
  "ib_max b \<equiv> max_batch_records (ib_config b)"

definition ib_buffered :: "'a InsertBatcher \<Rightarrow> usize" where
  "ib_buffered b = length (ib_buffer b)"

definition ib_is_empty :: "'a InsertBatcher \<Rightarrow> bool" where
  "ib_is_empty b \<longleftrightarrow> ib_buffer b = []"

definition fill :: "instant \<Rightarrow> 'a list \<Rightarrow> 'a InsertBatcher \<Rightarrow> 'a InsertBatcher" where
  "fill now rs b =
     (let was_empty = (ib_buffer b = []);
          b' = b\<lparr>ib_buffer := ib_buffer b @ rs\<rparr>
      in if was_empty
         then b'\<lparr>ib_deadline := Some (saturating_deadline now (max_batch_age (ib_config b)))\<rparr>
         else b')"

text \<open>The loop of \<open>push\<close>.  No batcher has capacity zero (\<open>new\<close> panics), so the first test
  only adds the branch that makes the recursion total.\<close>

function push_loop :: "instant \<Rightarrow> 'a InsertBatcher \<Rightarrow> 'a list \<Rightarrow> 'a WriteBatch list \<Rightarrow>
    'a WriteBatch list \<times> 'a InsertBatcher" where
  "push_loop now b incoming ready =
     (if incoming = [] \<or> ib_max b = 0 then (ready, b)
      else
        let space = ib_max b - length (ib_buffer b)
        in if length incoming < space then (ready, fill now incoming b)
           else
             let tail = drop space incoming;
                 b1 = fill now (take space incoming) b;
                 full = from_vec (ib_buffer b1);
                 b2 = b1\<lparr>ib_buffer := [], ib_deadline := None\<rparr>
             in push_loop now b2 tail (ready @ [full]))"
  by pat_completeness auto
termination
proof (relation "measures [\<lambda>(_, _, incoming, _). length incoming, \<lambda>(_, b, _, _). length (ib_buffer b)]")
  fix now :: instant and b b1 b2 :: "'a InsertBatcher" and incoming tail :: "'a list"
    and ready :: "'a WriteBatch list" and space full
  assume "\<not> (incoming = [] \<or> ib_max b = 0)" "space = ib_max b - length (ib_buffer b)"
    "\<not> length incoming < space" "tail = drop space incoming" "b1 = fill now (take space incoming) b"
    "full = from_vec (ib_buffer b1)" "b2 = b1\<lparr>ib_buffer := [], ib_deadline := None\<rparr>"
  thus "((now, b2, tail, ready @ [full]), now, b, incoming, ready)
          \<in> measures [\<lambda>(_, _, incoming, _). length incoming, \<lambda>(_, b, _, _). length (ib_buffer b)]"
    by (cases "space = 0") auto
qed simp

declare push_loop.simps [simp del]

definition push :: "instant \<Rightarrow> 'a list \<Rightarrow> 'a InsertBatcher \<Rightarrow> 'a WriteBatch list \<times> 'a InsertBatcher" where
  "push now rs b = (if rs = [] then ([], b) else push_loop now b rs [])"

definition flush :: "'a InsertBatcher \<Rightarrow> 'a WriteBatch option \<times> 'a InsertBatcher" where
  "flush b = (if ib_buffer b = [] then (None, b)
              else (Some (from_vec (ib_buffer b)), b\<lparr>ib_buffer := [], ib_deadline := None\<rparr>))"

definition flush_if_expired :: "instant \<Rightarrow> 'a InsertBatcher \<Rightarrow> 'a WriteBatch option \<times> 'a InsertBatcher" where
  "flush_if_expired now b =
     (case ib_deadline b of
        Some deadline \<Rightarrow> (if now \<ge> deadline then flush b else (None, b))
      | None \<Rightarrow> (None, b))"

section \<open>Invariant and the reference semantics\<close>

definition ib_inv :: "'a InsertBatcher \<Rightarrow> bool" where
  "ib_inv b \<longleftrightarrow> ib_max b \<noteq> 0 \<and> length (ib_buffer b) < ib_max b \<and>
               (ib_deadline b \<noteq> None \<longleftrightarrow> ib_buffer b \<noteq> [])"

text \<open>Cutting a stream of records into full groups of \<open>n\<close>, the remainder last.\<close>

function full_chunks :: "nat \<Rightarrow> 'a list \<Rightarrow> 'a list list" where
  "full_chunks n xs = (if n = 0 \<or> length xs < n then [] else take n xs # full_chunks n (drop n xs))"
  by pat_completeness auto
termination by (relation "measure (\<lambda>(n, xs). length xs)") auto

declare full_chunks.simps [simp del]

definition remainder :: "nat \<Rightarrow> 'a list \<Rightarrow> 'a list" where
  "remainder n xs = drop (n * (length xs div n)) xs"

lemma full_chunks_short [simp]: "length xs < n \<Longrightarrow> full_chunks n xs = []"
  by (simp add: full_chunks.simps)

lemma full_chunks_step:
  "n \<noteq> 0 \<Longrightarrow> n \<le> length xs \<Longrightarrow> full_chunks n xs = take n xs # full_chunks n (drop n xs)"
  by (subst full_chunks.simps) simp

lemma remainder_short [simp]: "length xs < n \<Longrightarrow> remainder n xs = xs"
  by (simp add: remainder_def)

lemma remainder_step: "n \<noteq> 0 \<Longrightarrow> n \<le> length xs \<Longrightarrow> remainder n (drop n xs) = remainder n xs"
  by (simp add: remainder_def le_div_geq add.commute)

lemma length_remainder: "n \<noteq> 0 \<Longrightarrow> length (remainder n xs) = length xs mod n"
  by (simp add: remainder_def minus_mult_div_eq_mod)

lemma full_chunks_length: "c \<in> set (full_chunks n xs) \<Longrightarrow> length c = n"
  by (induction n xs rule: full_chunks.induct)
     (subst (asm) full_chunks.simps, auto split: if_splits)

lemma full_chunks_concat: "n \<noteq> 0 \<Longrightarrow> concat (full_chunks n xs) @ remainder n xs = xs"
proof (induction n xs rule: full_chunks.induct)
  case (1 n xs)
  show ?case
  proof (cases "length xs < n")
    case False
    hence "concat (full_chunks n (drop n xs)) @ remainder n (drop n xs) = drop n xs" using 1 by simp
    thus ?thesis using False "1.prems" by (simp add: full_chunks_step remainder_step)
  qed simp
qed

lemma fill_simps [simp]:
  "ib_buffer (fill now rs b) = ib_buffer b @ rs"
  "ib_config (fill now rs b) = ib_config b"
  "ib_deadline (fill now rs b) =
     (if ib_buffer b = [] then Some (saturating_deadline now (max_batch_age (ib_config b))) else ib_deadline b)"
  by (simp_all add: fill_def Let_def)

text \<open>The deadline after a push: kept while the oldest record stays buffered, armed anew for
  the remainder of an emission, cleared when nothing is left.\<close>

definition push_deadline :: "instant \<Rightarrow> 'a list \<Rightarrow> 'a InsertBatcher \<Rightarrow> instant option" where
  "push_deadline now rs b =
     (if remainder (ib_max b) (ib_buffer b @ rs) = [] then None
      else if ib_buffer b \<noteq> [] \<and> length (ib_buffer b @ rs) < ib_max b then ib_deadline b
      else Some (saturating_deadline now (max_batch_age (ib_config b))))"

lemma push_loop_correct:
  assumes "ib_inv b" "push_loop now b rs ready = (ready', b')"
  shows "ready' = ready @ map from_vec (full_chunks (ib_max b) (ib_buffer b @ rs)) \<and>
         ib_buffer b' = remainder (ib_max b) (ib_buffer b @ rs) \<and>
         ib_config b' = ib_config b \<and> ib_deadline b' = push_deadline now rs b"
  using assms
proof (induction now b rs ready rule: push_loop.induct)
  case (1 now b rs ready)
  let ?n = "ib_max b" and ?buf = "ib_buffer b"
  let ?space = "?n - length ?buf"
  have n: "?n \<noteq> 0" "length ?buf < ?n" using "1.prems"(1) by (auto simp: ib_inv_def)
  consider (nil) "rs = []" | (fits) "rs \<noteq> []" "length rs < ?space" | (full) "rs \<noteq> []" "\<not> length rs < ?space"
    by blast
  thus ?case
  proof cases
    case nil
    with "1.prems" n show ?thesis by (auto simp: push_loop.simps push_deadline_def ib_inv_def)
  next
    case fits
    hence "length (?buf @ rs) < ?n" using n by simp
    with "1.prems"(2) fits n show ?thesis by (auto simp: push_loop.simps[of now b rs] push_deadline_def Let_def)
  next
    case full
    let ?tail = "drop ?space rs"
    let ?b2 = "(fill now (take ?space rs) b)\<lparr>ib_buffer := [], ib_deadline := None\<rparr>"
    have inv2: "ib_inv ?b2" using n by (simp add: ib_inv_def)
    have long: "?n \<le> length (?buf @ rs)" using full n by simp
    have cut: "take ?n (?buf @ rs) = ?buf @ take ?space rs" "drop ?n (?buf @ rs) = ?tail" using n by auto
    have run: "push_loop now ?b2 ?tail (ready @ [from_vec (?buf @ take ?space rs)]) = (ready', b')"
      using "1.prems"(2) full n by (simp add: push_loop.simps[of now b rs] Let_def)
    have "ready' = (ready @ [from_vec (?buf @ take ?space rs)]) @ map from_vec (full_chunks (ib_max ?b2) (ib_buffer ?b2 @ ?tail)) \<and>
          ib_buffer b' = remainder (ib_max ?b2) (ib_buffer ?b2 @ ?tail) \<and>
          ib_config b' = ib_config ?b2 \<and> ib_deadline b' = push_deadline now ?tail ?b2"
      using "1.IH"[OF _ refl _ refl refl refl refl inv2] full n run by simp
    moreover have "full_chunks ?n (?buf @ rs) = (?buf @ take ?space rs) # full_chunks ?n ?tail"
      using full_chunks_step[OF n(1) long] by (simp only: cut)
    moreover have "remainder ?n (?buf @ rs) = remainder ?n ?tail"
      using remainder_step[OF n(1) long] by (simp only: cut)
    ultimately show ?thesis using long by (auto simp: push_deadline_def)
  qed
qed

lemma push_correct:
  assumes "ib_inv b" "push now rs b = (ready, b')"
  shows "ready = map from_vec (full_chunks (ib_max b) (ib_buffer b @ rs)) \<and>
         ib_buffer b' = remainder (ib_max b) (ib_buffer b @ rs) \<and>
         ib_config b' = ib_config b \<and> ib_deadline b' = push_deadline now rs b"
proof (cases "rs = []")
  case True
  thus ?thesis using assms by (auto simp: push_def push_deadline_def ib_inv_def)
next
  case False
  thus ?thesis using push_loop_correct[OF assms(1), of now rs "[]"] assms(2) by (simp add: push_def)
qed

lemma push_inv [inv_intros]:
  assumes "ib_inv b" "push now rs b = (ready, b')"
  shows "ib_inv b'"
  using push_correct[OF assms] assms(1)
  by (auto simp: ib_inv_def push_deadline_def length_remainder)

lemma new_batcher_inv [inv_intros]: "new_batcher c = Some b \<Longrightarrow> ib_inv b"
  by (auto simp: new_batcher_def ib_inv_def split: if_splits)

lemma flush_correct:
  assumes "flush b = (out, b')"
  shows "out = (if ib_buffer b = [] then None else Some (from_vec (ib_buffer b)))"
    and "ib_buffer b' = []" "ib_config b' = ib_config b" "ib_inv b \<Longrightarrow> ib_inv b'"
  using assms by (auto simp: flush_def ib_inv_def split: if_splits)

lemma flush_if_expired_cases:
  "flush_if_expired now b =
     (if (\<exists>d. ib_deadline b = Some d \<and> d \<le> now) then flush b else (None, b))"
  by (auto simp: flush_if_expired_def split: option.splits)

section \<open>Stream stages\<close>

text \<open>
  The contract of every accumulating stage of the pipeline: an event carries input items,
  a step emits outputs, and the items of what was emitted followed by the items still
  held are always the items that came in, in order.  A sized stage also bounds its
  outputs.
\<close>

fun run_stream :: "('e \<Rightarrow> 'b \<Rightarrow> 'o list \<times> 'b) \<Rightarrow> 'e list \<Rightarrow> 'b \<Rightarrow> 'o list \<times> 'b" where
  "run_stream step [] b = ([], b)"
| "run_stream step (e # es) b =
     (let (out, b1) = step e b; (outs, b2) = run_stream step es b1 in (out @ outs, b2))"

lemma run_stream_ConsE:
  assumes "run_stream step (e # es) b = (out, b')"
  obtains o1 b1 o2 where "step e b = (o1, b1)" "run_stream step es b1 = (o2, b')" "out = o1 @ o2"
  using assms by (auto split: prod.splits)

locale stream_stage =
  fixes inv :: "'b \<Rightarrow> bool"
    and held :: "'b \<Rightarrow> 'x list"
    and step :: "'e \<Rightarrow> 'b \<Rightarrow> 'o list \<times> 'b"
    and emitted :: "'o \<Rightarrow> 'x list"
    and input :: "'e \<Rightarrow> 'x list"
  assumes step_inv: "inv b \<Longrightarrow> step e b = (out, b') \<Longrightarrow> inv b'"
    and step_conserves: "inv b \<Longrightarrow> step e b = (out, b') \<Longrightarrow>
                         concat (map emitted out) @ held b' = held b @ input e"
begin

lemma run_inv: "inv b \<Longrightarrow> run_stream step es b = (out, b') \<Longrightarrow> inv b'"
  by (induction es arbitrary: b out) (auto elim!: run_stream_ConsE dest: step_inv simp del: run_stream.simps(2))

lemma run_conserves:
  "inv b \<Longrightarrow> run_stream step es b = (out, b') \<Longrightarrow>
   concat (map emitted out) @ held b' = held b @ concat (map input es)"
proof (induction es arbitrary: b out)
  case (Cons e es)
  from Cons.prems(2) obtain o1 b1 o2 where
    s: "step e b = (o1, b1)" "run_stream step es b1 = (o2, b')" "out = o1 @ o2"
    by (rule run_stream_ConsE)
  have "concat (map emitted o2) @ held b' = held b1 @ concat (map input es)"
    using Cons.IH[OF step_inv[OF Cons.prems(1) s(1)] s(2)] .
  thus ?case using step_conserves[OF Cons.prems(1) s(1)] s(3)
    by (metis append_assoc concat.simps(2) concat_append list.simps(9) map_append)
qed simp

end

locale sized_stage = stream_stage inv held step emitted input
  for inv :: "'b \<Rightarrow> bool" and held :: "'b \<Rightarrow> 'x list" and step :: "'e \<Rightarrow> 'b \<Rightarrow> 'o list \<times> 'b"
    and emitted :: "'o \<Rightarrow> 'x list" and input :: "'e \<Rightarrow> 'x list" +
  fixes cap :: "'b \<Rightarrow> nat"
  assumes step_cap: "inv b \<Longrightarrow> step e b = (out, b') \<Longrightarrow> cap b' = cap b"
    and step_sized: "inv b \<Longrightarrow> step e b = (out, b') \<Longrightarrow> x \<in> set out \<Longrightarrow>
                     0 < length (emitted x) \<and> length (emitted x) \<le> cap b"
    and held_bounded: "inv b \<Longrightarrow> length (held b) < cap b"
begin

lemma run_cap: "inv b \<Longrightarrow> run_stream step es b = (out, b') \<Longrightarrow> cap b' = cap b"
proof (induction es arbitrary: b out)
  case (Cons e es)
  from Cons.prems(2) obtain o1 b1 o2 where
    s: "step e b = (o1, b1)" "run_stream step es b1 = (o2, b')" by (rule run_stream_ConsE)
  show ?case using Cons.IH[OF step_inv[OF Cons.prems(1) s(1)] s(2)] step_cap[OF Cons.prems(1) s(1)] by simp
qed simp

lemma run_sized:
  "inv b \<Longrightarrow> run_stream step es b = (out, b') \<Longrightarrow> x \<in> set out \<Longrightarrow>
   0 < length (emitted x) \<and> length (emitted x) \<le> cap b"
proof (induction es arbitrary: b out)
  case (Cons e es)
  from Cons.prems(2) obtain o1 b1 o2 where
    s: "step e b = (o1, b1)" "run_stream step es b1 = (o2, b')" "out = o1 @ o2"
    by (rule run_stream_ConsE)
  show ?case
  proof (cases "x \<in> set o1")
    case True
    thus ?thesis by (rule step_sized[OF Cons.prems(1) s(1)])
  next
    case False
    hence "0 < length (emitted x) \<and> length (emitted x) \<le> cap b1"
      using Cons.IH[OF step_inv[OF Cons.prems(1) s(1)] s(2)] Cons.prems(3) s(3) by simp
    thus ?thesis using step_cap[OF Cons.prems(1) s(1)] by simp
  qed
qed simp

end

datatype 'a batch_event = Push instant "'a list" | FlushNow | Expire instant

fun batcher_step :: "'a batch_event \<Rightarrow> 'a InsertBatcher \<Rightarrow> 'a WriteBatch list \<times> 'a InsertBatcher" where
  "batcher_step (Push now rs) b = push now rs b"
| "batcher_step FlushNow b = (case flush b of (out, b') \<Rightarrow> (case out of None \<Rightarrow> [] | Some x \<Rightarrow> [x], b'))"
| "batcher_step (Expire now) b =
     (case flush_if_expired now b of (out, b') \<Rightarrow> (case out of None \<Rightarrow> [] | Some x \<Rightarrow> [x], b'))"

fun event_records :: "'a batch_event \<Rightarrow> 'a list" where
  "event_records (Push now rs) = rs"
| "event_records e = []"

lemma batcher_step_flush:
  assumes "batcher_step e b = (out, b')" "event_records e = []" "\<forall>now. e \<noteq> Push now []"
  shows "(out, b') = ([], b) \<or> (ib_buffer b \<noteq> [] \<and> out = [from_vec (ib_buffer b)] \<and>
          b' = b\<lparr>ib_buffer := [], ib_deadline := None\<rparr>)"
  using assms by (cases e) (auto simp: flush_if_expired_cases flush_def split: if_splits)

lemma batcher_step_correct:
  assumes inv: "ib_inv b" and step: "batcher_step e b = (out, b')"
  shows "ib_inv b' \<and> concat (map wb_records out) @ ib_buffer b' = ib_buffer b @ event_records e \<and>
         ib_max b' = ib_max b \<and> (\<forall>x \<in> set out. 0 < wb_len x \<and> wb_len x \<le> ib_max b)"
proof (cases "\<exists>now rs. e = Push now rs")
  case True
  then obtain now rs where e: "push now rs b = (out, b')" "e = Push now rs" using step by auto
  have "ib_inv b'" by (rule push_inv[OF inv e(1)])
  thus ?thesis
    using push_correct[OF inv e(1)] full_chunks_concat[of "ib_max b" "ib_buffer b @ rs"] inv e(2)
    by (auto simp: comp_def ib_inv_def dest: full_chunks_length)
next
  case False
  hence "event_records e = []" by (cases e) auto
  with batcher_step_flush[OF step this] False inv show ?thesis by (auto simp: ib_inv_def)
qed

interpretation batcher: sized_stage ib_inv ib_buffer batcher_step wb_records event_records
  "\<lambda>b. max_batch_records (ib_config b)"
  by unfold_locales (blast dest: batcher_step_correct, blast dest: batcher_step_correct,
    blast dest: batcher_step_correct, fastforce simp: wb_len_def dest: batcher_step_correct, simp add: ib_inv_def)

section \<open>Properties\<close>

lemma push_equals_reference:
  assumes "ib_inv b"
  shows "fst (push now rs b) = map from_vec (full_chunks (ib_max b) (ib_buffer b @ rs)) \<and>
         ib_buffer (snd (push now rs b)) = remainder (ib_max b) (ib_buffer b @ rs) \<and>
         ib_inv (snd (push now rs b))"
proof -
  obtain out b' where p: "push now rs b = (out, b')" by fastforce
  show ?thesis using push_correct[OF assms p] push_inv[OF assms p] p by simp
qed

definition sample_batcher :: "nat InsertBatcher" where
  "sample_batcher = \<lparr>ib_config = \<lparr>max_batch_records = 2, max_batch_age = 10\<rparr>, ib_buffer = [7], ib_deadline = Some 15\<rparr>"

lemma batcher_conserves_stream:
  assumes "new_batcher c = Some b" "run_stream batcher_step es b = (out, b')"
  shows "concat (map wb_records out) @ ib_buffer b' = concat (map event_records es) \<and>
         (\<forall>x \<in> set out. 0 < wb_len x \<and> wb_len x \<le> max_batch_records c) \<and>
         length (ib_buffer b') < max_batch_records c"
proof -
  have inv: "ib_inv b" and b: "ib_buffer b = []" "ib_config b = c"
    using assms(1) by (auto simp: new_batcher_def ib_inv_def split: if_splits)
  show ?thesis
    using batcher.run_conserves[OF inv assms(2)] batcher.run_sized[OF inv assms(2)] b
      batcher.held_bounded[OF batcher.run_inv[OF inv assms(2)]] batcher.run_cap[OF inv assms(2)]
    by (simp add: wb_len_def)
qed

definition empty_batcher :: "nat InsertBatcher" where
  "empty_batcher = \<lparr>ib_config = \<lparr>max_batch_records = 3, max_batch_age = 10\<rparr>, ib_buffer = [], ib_deadline = None\<rparr>"

lemma empty_batcher_new: "new_batcher \<lparr>max_batch_records = 3, max_batch_age = 10\<rparr> = Some empty_batcher"
  by (simp add: new_batcher_def empty_batcher_def)

lemma pushes_keep_deadline:
  assumes "ib_inv b" "ib_buffer b \<noteq> []" "\<forall>e \<in> set es. \<exists>now rs. e = Push now rs"
    and "run_stream batcher_step es b = ([], b')"
  shows "ib_deadline b' = ib_deadline b \<and> ib_buffer b' = ib_buffer b @ concat (map event_records es)"
  using assms
proof (induction es arbitrary: b)
  case (Cons e es)
  obtain now rs where e: "e = Push now rs" using Cons.prems(3) by auto
  obtain b1 where s: "push now rs b = ([], b1)" "run_stream batcher_step es b1 = ([], b')"
    using Cons.prems(4) e by (auto split: prod.splits)
  note pc = push_correct[OF Cons.prems(1) s(1)]
  have short: "length (ib_buffer b @ rs) < ib_max b"
    using pc Cons.prems(1) full_chunks_step[of "ib_max b" "ib_buffer b @ rs"]
    by (fastforce simp: ib_inv_def)
  have "ib_buffer b1 = ib_buffer b @ rs" "ib_deadline b1 = ib_deadline b"
    using pc short Cons.prems(2) by (simp_all add: push_deadline_def)
  thus ?case using Cons.IH[OF push_inv[OF Cons.prems(1) s(1)] _ _ s(2)] Cons.prems(2,3) e by simp
qed simp

lemma batch_age_bounded:
  assumes "ib_inv b" "ib_buffer b = []" "rs \<noteq> []" "\<forall>e \<in> set es. \<exists>now rs. e = Push now rs"
    and "run_stream batcher_step (Push t0 rs # es) b = ([], b')"
    and "t0 + max_batch_age (ib_config b) \<le> now"
  shows "fst (flush_if_expired now b') = Some (from_vec (rs @ concat (map event_records es)))"
proof -
  obtain b1 where s: "push t0 rs b = ([], b1)" "run_stream batcher_step es b1 = ([], b')"
    using assms(5) by (auto split: prod.splits)
  note pc = push_correct[OF assms(1) s(1)]
  have short: "length rs < ib_max b"
    using pc assms(1,2) full_chunks_step[of "ib_max b" rs] by (fastforce simp: ib_inv_def)
  have b1: "ib_buffer b1 = rs" "ib_deadline b1 = Some (saturating_deadline t0 (max_batch_age (ib_config b)))"
    using pc short assms(2,3) by (simp_all add: push_deadline_def)
  have "saturating_deadline t0 (max_batch_age (ib_config b)) \<le> now"
    using saturating_deadline_upper[of t0 "max_batch_age (ib_config b)"] assms(6) by linarith
  thus ?thesis
    using pushes_keep_deadline[OF push_inv[OF assms(1) s(1)] _ assms(4) s(2)] b1 assms(3)
    by (simp add: flush_if_expired_cases flush_def)
qed

lemma saturating_deadline_total:
  assumes "now \<le> INSTANT_MAX"
  shows "now \<le> saturating_deadline now after \<and> saturating_deadline now after \<le> INSTANT_MAX \<and>
         saturating_deadline now after \<le> now + after \<and>
         (now + after \<le> INSTANT_MAX \<longrightarrow> saturating_deadline now after = now + after)"
  using saturating_deadline_range[OF assms] saturating_deadline_exact by simp

text \<open>When the sum is not representable the result is not the last representable
  instant: halving stops wherever it first fits.\<close>

lemma saturating_deadline_not_clamped:
  "saturating_deadline 0 (INSTANT_MAX + 1) = (INSTANT_MAX + 1) div 2"
  by (simp add: saturating_deadline.simps checked_add_def)

end
