(* ===== verification/Storage_Commands.thy ===== *)
theory Storage_Commands
  imports Core_Model Insert_Batcher
begin

text \<open>
  The messages of the pipeline (\<open>otel-sqlite-core/src/storage/command.rs\<close>), the durability
  vocabulary (\<open>storage/durability.rs\<close>) and the health sample (\<open>health.rs\<close>).
\<close>

section \<open>Commands\<close>

record BatchOrigin =
  origin_resource :: "Resource option"
  origin_schema_url :: string

text \<open>The derived \<open>PartialEq\<close> of \<open>BatchOrigin\<close>; a resource that carries a NaN attribute is not
  equal to itself.\<close>

definition origin_eq :: "BatchOrigin \<Rightarrow> BatchOrigin \<Rightarrow> bool" where
  "origin_eq a b \<longleftrightarrow>
     (case (origin_resource a, origin_resource b) of
        (None, None) \<Rightarrow> True
      | (Some r, Some r') \<Rightarrow> resource_eq r r'
      | _ \<Rightarrow> False) \<and> origin_schema_url a = origin_schema_url b"

record LogChunk =
  chunk_origin :: BatchOrigin
  chunk_records :: "LogRecord list"
  chunk_commit_seq :: u64

definition chunk_is_empty :: "LogChunk \<Rightarrow> bool" where
  "chunk_is_empty c \<longleftrightarrow> chunk_records c = []"

datatype IngestMessage = Logs LogChunk | FlushBarrier

fun set_commit_seq :: "u64 \<Rightarrow> IngestMessage \<Rightarrow> IngestMessage" where
  "set_commit_seq t (Logs c) = Logs (c\<lparr>chunk_commit_seq := t\<rparr>)"
| "set_commit_seq t FlushBarrier = FlushBarrier"

fun commit_seq :: "IngestMessage \<Rightarrow> u64 option" where
  "commit_seq (Logs c) = Some (chunk_commit_seq c)"
| "commit_seq FlushBarrier = None"

fun message_record_count :: "IngestMessage \<Rightarrow> usize" where
  "message_record_count (Logs c) = length (chunk_records c)"
| "message_record_count FlushBarrier = 0"

record RecordSegment =
  seg_commit_seq :: u64
  seg_records :: usize
  seg_complete :: bool

record LogWriteBatch =
  lwb_origin :: BatchOrigin
  lwb_records :: "LogRecord WriteBatch"
  lwb_commit_seqs :: "u64 list"
  lwb_segments :: "RecordSegment list"

datatype CheckpointMode = Passive | Full | Restart | Truncate

fun checkpoint_as_str :: "CheckpointMode \<Rightarrow> string" where
  "checkpoint_as_str Passive = ''PASSIVE''"
| "checkpoint_as_str Full = ''FULL''"
| "checkpoint_as_str Restart = ''RESTART''"
| "checkpoint_as_str Truncate = ''TRUNCATE''"

datatype MaintenanceOperation = Analyze | Vacuum | RebuildFts | Prune "duration option"

datatype WriteCommand =
    InsertLogs LogWriteBatch
  | Flush
  | Checkpoint CheckpointMode
  | Maintenance MaintenanceOperation

fun command_record_count :: "WriteCommand \<Rightarrow> usize" where
  "command_record_count (InsertLogs b) = wb_len (lwb_records b)"
| "command_record_count _ = 0"

fun command_kind :: "WriteCommand \<Rightarrow> string" where
  "command_kind (InsertLogs b) = ''insert_logs''"
| "command_kind Flush = ''flush''"
| "command_kind (Checkpoint m) = ''checkpoint''"
| "command_kind (Maintenance op) = ''maintenance''"

section \<open>Durability vocabulary\<close>

datatype DurabilityMode = CommitMode | EnqueueMode

fun durability_as_str :: "DurabilityMode \<Rightarrow> string" where
  "durability_as_str CommitMode = ''commit''"
| "durability_as_str EnqueueMode = ''enqueue''"

definition durability_parse :: "string \<Rightarrow> DurabilityMode option" where
  "durability_parse text =
     (let t = to_ascii_lowercase (trim text)
      in if t = ''commit'' then Some CommitMode
         else if t = ''enqueue'' then Some EnqueueMode else None)"

datatype SyncMode = SyncNormal | SyncFull

fun sync_as_str :: "SyncMode \<Rightarrow> string" where
  "sync_as_str SyncNormal = ''NORMAL''"
| "sync_as_str SyncFull = ''FULL''"

definition sync_parse :: "string \<Rightarrow> SyncMode option" where
  "sync_parse text =
     (let t = to_ascii_lowercase (trim text)
      in if t = ''normal'' then Some SyncNormal
         else if t = ''full'' then Some SyncFull else None)"

section \<open>Health sample\<close>

record PipelineSample =
  writer_running :: bool
  batcher_running :: bool
  writer_idle_ms :: u64
  batcher_idle_ms :: u64
  queue_depth :: usize
  queue_capacity :: usize
  pending_records :: usize
  outstanding_tickets_count :: u64
  watermark_idle_ms :: u64
  maintenance_in_progress :: bool
  maintenance_elapsed_ms :: u64

definition pending_work :: "PipelineSample \<Rightarrow> usize" where
  "pending_work s = saturating_add (queue_depth s) (pending_records s)"

lemma pending_work_0: "pending_work s = 0 \<longleftrightarrow> queue_depth s = 0 \<and> pending_records s = 0"
  by (simp add: pending_work_def)

lemma durability_parse_iff:
  "durability_parse text = Some m \<longleftrightarrow> to_ascii_lowercase (trim text) = durability_as_str m"
  by (cases m) (auto simp: durability_parse_def Let_def)

lemma durability_round_trip: "durability_parse (durability_as_str m) = Some m"
proof (cases m)
  case CommitMode
  show ?thesis unfolding CommitMode by code_simp
next
  case EnqueueMode
  show ?thesis unfolding EnqueueMode by code_simp
qed

lemma sync_round_trip: "sync_parse (sync_as_str m) = Some m"
proof (cases m)
  case SyncNormal
  show ?thesis unfolding SyncNormal by code_simp
next
  case SyncFull
  show ?thesis unfolding SyncFull by code_simp
qed

end
