(* ===== verification/Sqlite_Iface.thy ===== *)
theory Sqlite_Iface
  imports Storage_Commands "HOL-Library.Multiset"
begin

text \<open>
  Errors of the storage crate (\<open>otel-sqlite-storage/src/error.rs\<close>) and the database
  interface the crate calls.

  SQLite and \<open>rusqlite\<close> are third-party code.  They enter the model as the parameter
  \<open>sq\<close>, a record of functions on a world \<open>'w\<close> that holds the database and everything that
  decides the outcome of a call (other connections, the disk).  Each function returns a
  result and the next world.  SQL texts are named by the constructors of \<open>Sql\<close>; a constructor
  stands for the text at the call site.  \<open>sqlite_laws\<close> collects the documented behaviour that
  properties assume.
\<close>

section \<open>Errors\<close>

datatype ErrorCode =
    DatabaseBusy
  | DatabaseLocked
  | ConstraintViolation
  | NotADatabase
  | OtherCode nat

datatype SqliteError =
    SqliteFailure ErrorCode
  | ToSqlConversionFailure
  | OtherError nat

datatype FailureClass = Retryable | Poison | FatalFailure

fun classify_sqlite :: "SqliteError \<Rightarrow> FailureClass" where
  "classify_sqlite (SqliteFailure DatabaseBusy) = Retryable"
| "classify_sqlite (SqliteFailure DatabaseLocked) = Retryable"
| "classify_sqlite (SqliteFailure ConstraintViolation) = Poison"
| "classify_sqlite (SqliteFailure _) = FatalFailure"
| "classify_sqlite ToSqlConversionFailure = Poison"
| "classify_sqlite (OtherError _) = FatalFailure"

datatype StorageError =
    Sqlite SqliteError
  | Io nat
  | WriterPanicked
  | BatcherPanicked
  | FaultInjected string
  | StartupTimeout u64
  | StartupFailed string
  | ShutdownTimeout u64

fun is_not_a_database :: "StorageError \<Rightarrow> bool" where
  "is_not_a_database (Sqlite (SqliteFailure code)) \<longleftrightarrow> code = NotADatabase"
| "is_not_a_database _ \<longleftrightarrow> False"

fun error_class :: "StorageError \<Rightarrow> FailureClass" where
  "error_class (Sqlite e) = classify_sqlite e"
| "error_class _ = FatalFailure"

section \<open>The database\<close>

datatype sqlval = SNull | SInt int | SText string | SBlob "u8 list"

datatype Sql =
    SqlInsertLogEvent
  | SqlInsertResource
  | SqlDeleteExpired
  | SqlDeleteOldest
  | SqlDeleteOrphans
  | SqlCheckpoint CheckpointMode
  | SqlAnalyze
  | SqlAutoVacuum
  | SqlConvertVacuum
  | SqlIncrementalVacuum
  | SqlDropFts
  | SqlCreateFts
  | SqlPopulateFts
  | SqlCreateMigrations
  | SqlTableCount string
  | SqlReadVersions
  | SqlMigration string
  | SqlStampMigration
  | SqlPragma string string
  | SqlJournalModeWal

record 'w sqlite =
  sq_begin :: "'w \<Rightarrow> (SqliteError + unit) \<times> 'w"
  sq_prepare :: "Sql \<Rightarrow> 'w \<Rightarrow> (SqliteError + unit) \<times> 'w"
  sq_execute :: "Sql \<Rightarrow> sqlval list \<Rightarrow> 'w \<Rightarrow> (SqliteError + nat) \<times> 'w"
  sq_query_int :: "Sql \<Rightarrow> 'w \<Rightarrow> (SqliteError + int) \<times> 'w"
  sq_query_text :: "Sql \<Rightarrow> 'w \<Rightarrow> (SqliteError + string list) \<times> 'w"
  sq_commit :: "'w \<Rightarrow> (SqliteError + unit) \<times> 'w"
  sq_rollback :: "'w \<Rightarrow> 'w"
  sq_file_size :: "'w \<Rightarrow> nat option"
  sq_wal_size :: "'w \<Rightarrow> nat option"

text \<open>A call that returns \<open>Result\<close> on a world, and the \<open>?\<close> operator on it.\<close>

type_synonym ('w, 'a) io = "'w \<Rightarrow> (StorageError + 'a) \<times> 'w"

definition io_bind :: "('w, 'a) io \<Rightarrow> ('a \<Rightarrow> ('w, 'b) io) \<Rightarrow> ('w, 'b) io" where
  "io_bind m f w = (case m w of (Inl e, w') \<Rightarrow> (Inl e, w') | (Inr a, w') \<Rightarrow> f a w')"

definition io_return :: "'a \<Rightarrow> ('w, 'a) io" where
  "io_return a w = (Inr a, w)"

definition io_sql :: "('w \<Rightarrow> (SqliteError + 'a) \<times> 'w) \<Rightarrow> ('w, 'a) io" where
  "io_sql m w = (case m w of (Inl e, w') \<Rightarrow> (Inl (Sqlite e), w') | (Inr a, w') \<Rightarrow> (Inr a, w'))"

lemma io_simps [simp]:
  "io_return a w = (Inr a, w)"
  "io_bind (io_return a) f = f a"
  by (simp_all add: io_return_def io_bind_def fun_eq_iff)

lemma io_bind_Inr_iff:
  "io_bind m f w = (Inr b, w') \<longleftrightarrow> (\<exists>a w1. m w = (Inr a, w1) \<and> f a w1 = (Inr b, w'))"
  by (auto simp: io_bind_def split: prod.splits sum.splits)

lemma io_bind_Inl_iff:
  "io_bind m f w = (Inl e, w') \<longleftrightarrow> m w = (Inl e, w') \<or> (\<exists>a w1. m w = (Inr a, w1) \<and> f a w1 = (Inl e, w'))"
  by (auto simp: io_bind_def split: prod.splits sum.splits)

lemma io_sql_Inr_iff [simp]: "io_sql m w = (Inr a, w') \<longleftrightarrow> m w = (Inr a, w')"
  by (auto simp: io_sql_def split: prod.splits sum.splits)

lemma io_sql_Inl_iff [simp]: "io_sql m w = (Inl e, w') \<longleftrightarrow> (\<exists>x. m w = (Inl x, w') \<and> e = Sqlite x)"
  by (auto simp: io_sql_def split: prod.splits sum.splits)

section \<open>What the properties assume of SQLite\<close>

text \<open>
  \<open>visible\<close> is the log rows every reader of the database sees, \<open>inside\<close> the log rows seen from
  within the open transaction.  A transaction starts from the visible rows; an insert adds
  its row or, on error, nothing; preparing a statement and the resource upsert change no
  log row; a commit that succeeds publishes the rows seen inside and one that fails
  publishes nothing; rolling back publishes nothing.
\<close>

definition sqlite_laws :: "'w sqlite \<Rightarrow> ('w \<Rightarrow> sqlval list list) \<Rightarrow> ('w \<Rightarrow> sqlval list list) \<Rightarrow> bool" where
  "sqlite_laws sq visible inside \<longleftrightarrow>
     (\<forall>w r w'. sq_begin sq w = (r, w') \<longrightarrow> visible w' = visible w \<and> inside w' = visible w) \<and>
     (\<forall>ps w w' n. sq_execute sq SqlInsertLogEvent ps w = (Inr n, w') \<longrightarrow>
        visible w' = visible w \<and> inside w' = inside w @ [ps]) \<and>
     (\<forall>ps w w' e. sq_execute sq SqlInsertLogEvent ps w = (Inl e, w') \<longrightarrow>
        visible w' = visible w \<and> inside w' = inside w) \<and>
     (\<forall>ps w w' r. sq_execute sq SqlInsertResource ps w = (r, w') \<longrightarrow>
        visible w' = visible w \<and> inside w' = inside w) \<and>
     (\<forall>sql w w' r. sq_prepare sq sql w = (r, w') \<longrightarrow> visible w' = visible w \<and> inside w' = inside w) \<and>
     (\<forall>w w' u. sq_commit sq w = (Inr u, w') \<longrightarrow> visible w' = inside w) \<and>
     (\<forall>w w' e. sq_commit sq w = (Inl e, w') \<longrightarrow> visible w' = visible w) \<and>
     (\<forall>w. visible (sq_rollback sq w) = visible w)"

lemma sqlite_lawsD:
  assumes "sqlite_laws sq visible inside"
  shows "sq_begin sq w = (r, w') \<Longrightarrow> visible w' = visible w \<and> inside w' = visible w"
    and "sq_execute sq SqlInsertLogEvent ps w = (Inr n, w') \<Longrightarrow> visible w' = visible w \<and> inside w' = inside w @ [ps]"
    and "sq_execute sq SqlInsertLogEvent ps w = (Inl e, w') \<Longrightarrow> visible w' = visible w \<and> inside w' = inside w"
    and "sq_execute sq SqlInsertResource ps w = (r2, w') \<Longrightarrow> visible w' = visible w \<and> inside w' = inside w"
    and "sq_prepare sq sql w = (r3, w') \<Longrightarrow> visible w' = visible w \<and> inside w' = inside w"
    and "sq_commit sq w = (Inr u, w') \<Longrightarrow> visible w' = inside w"
    and "sq_commit sq w = (Inl e, w') \<Longrightarrow> visible w' = visible w"
    and "visible (sq_rollback sq w) = visible w"
  by (insert assms; unfold sqlite_laws_def; elim conjE; metis)+

text \<open>
  The statements of the maintenance operations.  A bounded delete that succeeds removes as
  many matching rows as its limit allows and reports their number; the oldest-first delete
  removes no row newer than one it keeps; every other statement except the migration
  scripts changes no log row; a statement that fails changes nothing.
\<close>

definition timestamp_of :: "sqlval list \<Rightarrow> int" where
  "timestamp_of row = (case row of _ # SInt t # _ \<Rightarrow> t | _ \<Rightarrow> 0)"

definition deletes :: "nat \<Rightarrow> (sqlval list \<Rightarrow> bool) \<Rightarrow> nat \<Rightarrow> sqlval list list \<Rightarrow> sqlval list multiset \<Rightarrow> sqlval list list \<Rightarrow> bool" where
  "deletes limit match n rows gone rows' \<longleftrightarrow>
     mset rows = mset rows' + gone \<and> size gone = n \<and> n = min limit (length (filter match rows)) \<and>
     (\<forall>r \<in># gone. match r)"

fun keeps_log_rows :: "Sql \<Rightarrow> bool" where
  "keeps_log_rows SqlInsertLogEvent = False"
| "keeps_log_rows SqlDeleteExpired = False"
| "keeps_log_rows SqlDeleteOldest = False"
| "keeps_log_rows (SqlMigration v) = False"
| "keeps_log_rows sql = True"

definition delete_laws :: "'w sqlite \<Rightarrow> ('w \<Rightarrow> sqlval list list) \<Rightarrow> ('w \<Rightarrow> sqlval list list) \<Rightarrow> bool" where
  "delete_laws sq visible inside \<longleftrightarrow>
     (\<forall>cutoff limit w w' n. sq_execute sq SqlDeleteExpired [SInt cutoff, SInt (int limit)] w = (Inr n, w') \<longrightarrow>
        visible w' = visible w \<and> (\<exists>gone. deletes limit (\<lambda>r. timestamp_of r < cutoff) n (inside w) gone (inside w'))) \<and>
     (\<forall>limit w w' n. sq_execute sq SqlDeleteOldest [SInt (int limit)] w = (Inr n, w') \<longrightarrow>
        visible w' = visible w \<and> (\<exists>gone. deletes limit (\<lambda>r. True) n (inside w) gone (inside w') \<and>
          (\<forall>d \<in># gone. \<forall>r \<in> set (inside w'). timestamp_of d \<le> timestamp_of r))) \<and>
     (\<forall>sql ps w w' e. sq_execute sq sql ps w = (Inl e, w') \<longrightarrow> visible w' = visible w) \<and>
     (\<forall>sql ps w w' r. keeps_log_rows sql \<longrightarrow> sq_execute sq sql ps w = (r, w') \<longrightarrow>
        visible w' = visible w \<and> inside w' = inside w) \<and>
     (\<forall>sql w w' r. sq_query_int sq sql w = (r, w') \<longrightarrow> visible w' = visible w)"

lemma delete_lawsD:
  assumes "delete_laws sq visible inside"
  shows "sq_execute sq SqlDeleteExpired [SInt cutoff, SInt (int limit)] w = (Inr n, w') \<Longrightarrow>
           visible w' = visible w \<and> (\<exists>gone. deletes limit (\<lambda>r. timestamp_of r < cutoff) n (inside w) gone (inside w'))"
    and "sq_execute sq SqlDeleteOldest [SInt (int limit)] w = (Inr n, w') \<Longrightarrow>
           visible w' = visible w \<and> (\<exists>gone. deletes limit (\<lambda>r. True) n (inside w) gone (inside w') \<and>
             (\<forall>d \<in># gone. \<forall>r \<in> set (inside w'). timestamp_of d \<le> timestamp_of r))"
    and "sq_execute sq sql ps w = (Inl e, w') \<Longrightarrow> visible w' = visible w"
    and "keeps_log_rows sql \<Longrightarrow> sq_execute sq sql ps w = (r, w') \<Longrightarrow> visible w' = visible w \<and> inside w' = inside w"
    and "sq_query_int sq sql w = (r2, w') \<Longrightarrow> visible w' = visible w"
  by (insert assms; unfold delete_laws_def; elim conjE; meson)+

text \<open>A concrete database that satisfies the laws: a log row whose second column is zero is
  rejected as a constraint violation, and every transaction can begin and commit.\<close>

fun delete_first :: "nat \<Rightarrow> ('a \<Rightarrow> bool) \<Rightarrow> 'a list \<Rightarrow> 'a list" where
  "delete_first 0 P xs = xs"
| "delete_first (Suc n) P [] = []"
| "delete_first (Suc n) P (x # xs) = (if P x then delete_first n P xs else x # delete_first (Suc n) P xs)"

definition sample_execute ::
  "Sql \<Rightarrow> sqlval list \<Rightarrow> sqlval list list \<times> sqlval list list \<Rightarrow>
   (SqliteError + nat) \<times> sqlval list list \<times> sqlval list list" where
  "sample_execute sql ps w =
     (case (sql, ps) of
        (SqlInsertLogEvent, _) \<Rightarrow>
          if timestamp_of ps = 0 then (Inl (SqliteFailure ConstraintViolation), w) else (Inr 1, (fst w, snd w @ [ps]))
      | (SqlDeleteExpired, [SInt cutoff, SInt limit]) \<Rightarrow>
          (Inr (min (nat limit) (length (filter (\<lambda>r. timestamp_of r < cutoff) (snd w)))),
           (fst w, delete_first (nat limit) (\<lambda>r. timestamp_of r < cutoff) (snd w)))
      | (SqlDeleteOldest, [SInt limit]) \<Rightarrow>
          (Inr (min (nat limit) (length (snd w))), (fst w, drop (nat limit) (sort_key timestamp_of (snd w))))
      | _ \<Rightarrow> (Inr 0, w))"

definition sample_sqlite :: "(sqlval list list \<times> sqlval list list) sqlite" where
  "sample_sqlite =
     \<lparr>sq_begin = \<lambda>w. (Inr (), (fst w, fst w)),
      sq_prepare = \<lambda>_ w. (Inr (), w),
      sq_execute = sample_execute,
      sq_query_int = \<lambda>_ w. (Inr 2, w),
      sq_query_text = \<lambda>_ w. (Inr [], w),
      sq_commit = \<lambda>w. (Inr (), (snd w, snd w)),
      sq_rollback = \<lambda>w. (fst w, fst w),
      sq_file_size = \<lambda>w. Some (4096 * length (fst w)), sq_wal_size = \<lambda>_. Some 0\<rparr>"

lemma sample_sqlite_laws: "sqlite_laws sample_sqlite fst snd"
  by (auto simp: sqlite_laws_def sample_sqlite_def sample_execute_def split: if_splits)

lemma delete_first_deletes:
  "\<exists>gone. deletes n P (min n (length (filter P xs))) xs gone (delete_first n P xs)"
proof (induction n P xs rule: delete_first.induct)
  case (3 n P x xs)
  show ?case
  proof (cases "P x")
    case True
    then obtain gone where "deletes n P (min n (length (filter P xs))) xs gone (delete_first n P xs)" using 3 by auto
    thus ?thesis using True by (intro exI[of _ "add_mset x gone"]) (auto simp: deletes_def)
  next
    case False
    then obtain gone where "deletes (Suc n) P (min (Suc n) (length (filter P xs))) xs gone (delete_first (Suc n) P xs)"
      using 3 by auto
    thus ?thesis using False by (intro exI[of _ gone]) (auto simp: deletes_def)
  qed
qed (simp_all add: deletes_def)

lemma drop_sorted_deletes:
  fixes rows :: "sqlval list list"
  defines "srt \<equiv> sort_key timestamp_of rows"
  shows "deletes n (\<lambda>r. True) (min n (length rows)) rows (mset (take n srt)) (drop n srt)"
    and "d \<in> set (take n srt) \<Longrightarrow> r \<in> set (drop n srt) \<Longrightarrow> timestamp_of d \<le> timestamp_of r"
proof -
  have "mset rows = mset (take n srt @ drop n srt)" by (simp add: srt_def)
  hence "mset rows = mset (drop n srt) + mset (take n srt)" by (metis mset_append union_commute)
  thus "deletes n (\<lambda>r. True) (min n (length rows)) rows (mset (take n srt)) (drop n srt)"
    by (simp add: deletes_def srt_def)
  have "sorted (map timestamp_of (take n srt @ drop n srt))" by (simp add: srt_def)
  thus "d \<in> set (take n srt) \<Longrightarrow> r \<in> set (drop n srt) \<Longrightarrow> timestamp_of d \<le> timestamp_of r"
    by (auto simp only: map_append sorted_append set_map)
qed

lemma sample_delete_laws: "delete_laws sample_sqlite fst snd"
proof -
  have "sample_execute sql ps w = (r, w') \<Longrightarrow> keeps_log_rows sql \<Longrightarrow> fst w' = fst w \<and> snd w' = snd w" for sql ps w r w'
    by (auto simp: sample_execute_def split: Sql.splits)
  moreover have "sample_execute sql ps w = (Inl e, w') \<Longrightarrow> fst w' = fst w" for sql ps w e w'
    by (auto simp: sample_execute_def split: Sql.splits list.splits sqlval.splits if_splits)
  moreover have "sample_execute SqlDeleteOldest [SInt (int limit)] w = (Inr n, w') \<Longrightarrow>
      fst w' = fst w \<and> (\<exists>gone. deletes limit (\<lambda>r. True) n (snd w) gone (snd w') \<and>
          (\<forall>d \<in># gone. \<forall>r \<in> set (snd w'). timestamp_of d \<le> timestamp_of r))" for limit w n w'
    using drop_sorted_deletes[where n = limit and rows = "snd w"]
    by (auto simp: sample_execute_def intro!: exI[of _ "mset (take limit (sort_key timestamp_of (snd w)))"])
  ultimately show ?thesis
    unfolding delete_laws_def sample_sqlite_def
    by (auto simp: sample_execute_def intro: delete_first_deletes)
qed

end
