(* ===== verification/Origin_Buffers.thy ===== *)
theory Origin_Buffers
  imports Storage_Commands "HOL-Library.Multiset"
begin

text \<open>
  Per-origin accumulation (\<open>otel-sqlite-storage/src/origin_buffers.rs\<close>): one insert batcher
  per origin, with the durability tickets of the buffered records kept as a queue of
  segments.  A panic (\<open>expect\<close> on an exhausted segment queue, or the zero-capacity
  assertion of \<open>InsertBatcher::new\<close>) is the value \<open>None\<close>.
\<close>

section \<open>Submissions and segments\<close>

record 'a Submission =
  sub_origin :: BatchOrigin
  sub_records :: "'a WriteBatch"
  sub_commit_seqs :: "u64 list"
  sub_segments :: "RecordSegment list"

definition new_submission :: "BatchOrigin \<Rightarrow> 'a WriteBatch \<Rightarrow> RecordSegment list \<Rightarrow> 'a Submission" where
  "new_submission origin records segments =
     \<lparr>sub_origin = origin, sub_records = records,
      sub_commit_seqs = remdups_adj (sort (map seg_commit_seq segments)),
      sub_segments = segments\<rparr>"

type_synonym segment_queue = "(u64 \<times> usize) list"

text \<open>The loop of \<open>OriginBuffer::consume\<close>.\<close>

function consume :: "usize \<Rightarrow> segment_queue \<Rightarrow> (RecordSegment list \<times> segment_queue) option" where
  "consume left segments =
     (if left = 0 then Some ([], segments)
      else case segments of
             [] \<Rightarrow> None
           | (ticket, remaining) # rest \<Rightarrow>
               let n = min remaining left;
                   remaining' = remaining - n;
                   complete = (remaining' = 0);
                   segment = \<lparr>seg_commit_seq = ticket, seg_records = n, seg_complete = complete\<rparr>;
                   segments' = (if complete then rest else (ticket, remaining') # rest)
               in map_option (\<lambda>(out, queue). (segment # out, queue)) (consume (left - n) segments'))"
  by pat_completeness auto
termination
  by (relation "measure (\<lambda>(left, segments). left + length segments)") (auto simp: min_def split: if_splits)

declare consume.simps [simp del]

record 'a OriginBuffer =
  ob_segments :: segment_queue
  ob_batcher :: "'a InsertBatcher"

definition new_origin_buffer :: "InsertBatcherConfig \<Rightarrow> 'a OriginBuffer option" where
  "new_origin_buffer c = map_option (\<lambda>b. \<lparr>ob_segments = [], ob_batcher = b\<rparr>) (new_batcher c)"

definition ob_is_empty :: "'a OriginBuffer \<Rightarrow> bool" where
  "ob_is_empty b \<longleftrightarrow> ib_is_empty (ob_batcher b) \<and> ob_segments b = []"

text \<open>The emission loop of \<open>push\<close>: each emitted batch consumes the segments it covers.\<close>

fun emit_batches :: "BatchOrigin \<Rightarrow> 'a WriteBatch list \<Rightarrow> segment_queue \<Rightarrow>
    ('a Submission list \<times> segment_queue) option" where
  "emit_batches origin [] queue = Some ([], queue)"
| "emit_batches origin (batch # batches) queue =
     Option.bind (consume (wb_len batch) queue) (\<lambda>(segments, queue').
       map_option (\<lambda>(subs, queue''). (new_submission origin batch segments # subs, queue''))
         (emit_batches origin batches queue'))"

section \<open>The buffers\<close>

record 'a OriginBuffers =
  obs_config :: InsertBatcherConfig
  obs_buffers :: "(BatchOrigin \<times> 'a OriginBuffer) list"

definition new_origin_buffers :: "InsertBatcherConfig \<Rightarrow> 'a OriginBuffers" where
  "new_origin_buffers c = \<lparr>obs_config = c, obs_buffers = []\<rparr>"

fun min_deadline :: "instant option list \<Rightarrow> instant option" where
  "min_deadline [] = None"
| "min_deadline (None # ds) = min_deadline ds"
| "min_deadline (Some d # ds) = (case min_deadline ds of None \<Rightarrow> Some d | Some d' \<Rightarrow> Some (min d d'))"

definition obs_deadline :: "'a OriginBuffers \<Rightarrow> instant option" where
  "obs_deadline s = min_deadline (map (\<lambda>(_, b). ib_deadline (ob_batcher b)) (obs_buffers s))"

definition obs_buffered :: "'a OriginBuffers \<Rightarrow> usize" where
  "obs_buffered s = sum_list (map (\<lambda>(_, b). ib_buffered (ob_batcher b)) (obs_buffers s))"

text \<open>\<open>push\<close> on one buffer: the ticket joins the queue before anything is emitted.\<close>

definition push_buffer :: "instant \<Rightarrow> BatchOrigin \<Rightarrow> 'a list \<Rightarrow> u64 \<Rightarrow> 'a OriginBuffer \<Rightarrow>
    ('a Submission list \<times> 'a OriginBuffer) option" where
  "push_buffer now origin records ticket b =
     (let queue = (if records \<noteq> [] then ob_segments b @ [(ticket, length records)] else ob_segments b)
      in case push now records (ob_batcher b) of (output, batcher) \<Rightarrow>
           map_option (\<lambda>(subs, queue'). (subs, \<lparr>ob_segments = queue', ob_batcher = batcher\<rparr>))
             (emit_batches origin output queue))"

fun position :: "('a \<Rightarrow> bool) \<Rightarrow> 'a list \<Rightarrow> nat option" where
  "position P [] = None"
| "position P (x # xs) = (if P x then Some 0 else map_option Suc (position P xs))"

definition obs_push :: "instant \<Rightarrow> BatchOrigin \<Rightarrow> 'a list \<Rightarrow> u64 \<Rightarrow> 'a OriginBuffers \<Rightarrow>
    ('a Submission list \<times> 'a OriginBuffers) option" where
  "obs_push now origin records ticket s =
     Option.bind
       (case position (\<lambda>(known, _). origin_eq known origin) (obs_buffers s) of
          Some index \<Rightarrow> Some (index, obs_buffers s)
        | None \<Rightarrow> map_option (\<lambda>b. (length (obs_buffers s), obs_buffers s @ [(origin, b)]))
                    (new_origin_buffer (obs_config s)))
       (\<lambda>(index, buffers).
          map_option (\<lambda>(subs, b).
              (subs, s\<lparr>obs_buffers :=
                 (if ob_is_empty b then take index buffers @ drop (Suc index) buffers
                  else buffers[index := (fst (buffers ! index), b)])\<rparr>))
            (push_buffer now origin records ticket (snd (buffers ! index))))"

text \<open>The flushing loop, over every buffer in first-seen order.\<close>

fun flush_each :: "('a InsertBatcher \<Rightarrow> 'a WriteBatch option \<times> 'a InsertBatcher) \<Rightarrow>
    (BatchOrigin \<times> 'a OriginBuffer) list \<Rightarrow>
    ('a Submission list \<times> (BatchOrigin \<times> 'a OriginBuffer) list) option" where
  "flush_each flush_one [] = Some ([], [])"
| "flush_each flush_one ((origin, b) # rest) =
     (case flush_one (ob_batcher b) of
        (None, batcher) \<Rightarrow>
          map_option (\<lambda>(subs, rest'). (subs, (origin, b\<lparr>ob_batcher := batcher\<rparr>) # rest'))
            (flush_each flush_one rest)
      | (Some records, batcher) \<Rightarrow>
          Option.bind (consume (wb_len records) (ob_segments b)) (\<lambda>(segments, queue).
            map_option (\<lambda>(subs, rest').
                (new_submission origin records segments # subs,
                 (origin, \<lparr>ob_segments = queue, ob_batcher = batcher\<rparr>) # rest'))
              (flush_each flush_one rest)))"

definition retain_active :: "(BatchOrigin \<times> 'a OriginBuffer) list \<Rightarrow> (BatchOrigin \<times> 'a OriginBuffer) list" where
  "retain_active buffers = filter (\<lambda>(_, b). \<not> ob_is_empty b) buffers"

definition flush_with :: "('a InsertBatcher \<Rightarrow> 'a WriteBatch option \<times> 'a InsertBatcher) \<Rightarrow>
    'a OriginBuffers \<Rightarrow> ('a Submission list \<times> 'a OriginBuffers) option" where
  "flush_with flush_one s =
     map_option (\<lambda>(subs, buffers). (subs, s\<lparr>obs_buffers := retain_active buffers\<rparr>))
       (flush_each flush_one (obs_buffers s))"

definition flush_expired :: "instant \<Rightarrow> 'a OriginBuffers \<Rightarrow> ('a Submission list \<times> 'a OriginBuffers) option" where
  "flush_expired now s = flush_with (flush_if_expired now) s"

definition flush_all :: "'a OriginBuffers \<Rightarrow> ('a Submission list \<times> 'a OriginBuffers) option" where
  "flush_all s = flush_with flush s"

section \<open>Consuming segments\<close>

text \<open>The ticket of every buffered record, in buffer order, and of every record of an
  emitted batch; the tickets an emission completes.\<close>

definition queue_tags :: "segment_queue \<Rightarrow> u64 list" where
  "queue_tags q = concat (map (\<lambda>(t, n). replicate n t) q)"

definition segment_tags :: "RecordSegment list \<Rightarrow> u64 list" where
  "segment_tags segs = concat (map (\<lambda>s. replicate (seg_records s) (seg_commit_seq s)) segs)"

definition completed_tickets :: "RecordSegment list \<Rightarrow> u64 list" where
  "completed_tickets segs = map seg_commit_seq (filter seg_complete segs)"

abbreviation queue_ok :: "segment_queue \<Rightarrow> bool" where
  "queue_ok q \<equiv> list_all (\<lambda>(t, n). 0 < n) q"

lemma queue_tags_simps [simp]:
  "queue_tags [] = []"
  "queue_tags ((t, n) # q) = replicate n t @ queue_tags q"
  "queue_tags (q @ q') = queue_tags q @ queue_tags q'"
  by (simp_all add: queue_tags_def)

lemma segment_tags_simps [simp]:
  "segment_tags [] = []"
  "segment_tags (s # segs) = replicate (seg_records s) (seg_commit_seq s) @ segment_tags segs"
  by (simp_all add: segment_tags_def)

lemma completed_tickets_simps [simp]:
  "completed_tickets [] = []"
  "completed_tickets (s # segs) = (if seg_complete s then [seg_commit_seq s] else []) @ completed_tickets segs"
  by (simp_all add: completed_tickets_def)

lemma length_queue_tags: "length (queue_tags q) = sum_list (map snd q)"
  by (induction q) auto

lemma set_queue_tags: "set (queue_tags q) \<subseteq> fst ` set q"
  by (induction q) auto

lemma consume_correct:
  assumes "queue_ok q" "left \<le> length (queue_tags q)"
  shows "\<exists>out q'. consume left q = Some (out, q') \<and> segment_tags out @ queue_tags q' = queue_tags q \<and>
           length (segment_tags out) = left \<and> completed_tickets out @ map fst q' = map fst q \<and>
           queue_ok q' \<and> list_all (\<lambda>s. 0 < seg_records s) out"
  using assms
proof (induction left q rule: consume.induct)
  case (1 left q)
  show ?case
  proof (cases "left = 0")
    case True
    thus ?thesis using "1.prems" by (simp add: consume.simps)
  next
    case False
    then obtain t n rest where q: "q = (t, n) # rest" and n: "0 < n"
      using "1.prems" by (cases q) auto
    show ?thesis
    proof (cases "n \<le> left")
      case True
      have "left - n \<le> length (queue_tags rest)" using "1.prems"(2) q by simp
      then obtain out q' where IH: "consume (left - n) rest = Some (out, q')"
        "segment_tags out @ queue_tags q' = queue_tags rest" "length (segment_tags out) = left - n"
        "completed_tickets out @ map fst q' = map fst rest" "queue_ok q'" "list_all (\<lambda>s. 0 < seg_records s) out"
        using "1.IH"[OF False q refl refl refl refl refl refl] "1.prems" q True by auto
      thus ?thesis using False n True unfolding q
        by (simp add: consume.simps[of left "(t, n) # rest"] Let_def)
    next
      case short: False
      have "consume 0 ((t, n - left) # rest) = Some ([], (t, n - left) # rest)" by (simp add: consume.simps)
      moreover have "replicate left t @ replicate (n - left) t = replicate n t"
        using short by (simp flip: replicate_add)
      ultimately show ?thesis using False n short "1.prems" unfolding q
        by (simp add: consume.simps[of left "(t, n) # rest"] Let_def)
    qed
  qed
qed

section \<open>One buffer\<close>

definition sub_tags :: "'a Submission \<Rightarrow> u64 list" where
  "sub_tags sub = segment_tags (sub_segments sub)"

definition sub_tagged :: "'a Submission \<Rightarrow> (u64 \<times> 'a) list" where
  "sub_tagged sub = zip (sub_tags sub) (wb_records (sub_records sub))"

definition sub_completed :: "'a Submission \<Rightarrow> u64 list" where
  "sub_completed sub = completed_tickets (sub_segments sub)"

definition sub_ok :: "'a Submission \<Rightarrow> bool" where
  "sub_ok sub \<longleftrightarrow> length (sub_tags sub) = wb_len (sub_records sub) \<and>
     wb_len (sub_records sub) \<noteq> 0 \<and> list_all (\<lambda>s. 0 < seg_records s) (sub_segments sub) \<and>
     sub_commit_seqs sub = remdups_adj (sort (map seg_commit_seq (sub_segments sub)))"

definition held_tagged :: "'a OriginBuffer \<Rightarrow> (u64 \<times> 'a) list" where
  "held_tagged b = zip (queue_tags (ob_segments b)) (ib_buffer (ob_batcher b))"

definition held_tickets :: "'a OriginBuffer \<Rightarrow> u64 list" where
  "held_tickets b = map fst (ob_segments b)"

definition ob_inv :: "InsertBatcherConfig \<Rightarrow> 'a OriginBuffer \<Rightarrow> bool" where
  "ob_inv c b \<longleftrightarrow> ib_inv (ob_batcher b) \<and> ib_config (ob_batcher b) = c \<and> queue_ok (ob_segments b) \<and>
                 length (queue_tags (ob_segments b)) = length (ib_buffer (ob_batcher b))"

lemma new_submission_ok:
  assumes "length (segment_tags segs) = wb_len recs" "wb_len recs \<noteq> 0" "list_all (\<lambda>s. 0 < seg_records s) segs"
  shows "sub_ok (new_submission orig recs segs)"
  using assms by (simp add: sub_ok_def new_submission_def sub_tags_def)

lemma new_submission_simps [simp]:
  "sub_origin (new_submission orig recs segs) = orig"
  "sub_records (new_submission orig recs segs) = recs"
  "sub_segments (new_submission orig recs segs) = segs"
  by (simp_all add: new_submission_def)

lemma emit_batches_correct:
  assumes "queue_ok q" "length (concat (map wb_records batches)) \<le> length (queue_tags q)"
    and "\<forall>b \<in> set batches. wb_len b \<noteq> 0"
  shows "\<exists>subs q'. emit_batches origin batches q = Some (subs, q') \<and>
           map sub_records subs = batches \<and>
           concat (map sub_tags subs) @ queue_tags q' = queue_tags q \<and>
           concat (map sub_completed subs) @ map fst q' = map fst q \<and>
           queue_ok q' \<and> (\<forall>sub \<in> set subs. sub_ok sub \<and> sub_origin sub = origin)"
  using assms
proof (induction batches arbitrary: q)
  case (Cons batch batches)
  have "wb_len batch \<le> length (queue_tags q)" using Cons.prems(2) by (simp add: wb_len_def)
  then obtain segs q1 where c: "consume (wb_len batch) q = Some (segs, q1)"
    "segment_tags segs @ queue_tags q1 = queue_tags q" "length (segment_tags segs) = wb_len batch"
    "completed_tickets segs @ map fst q1 = map fst q" "queue_ok q1" "list_all (\<lambda>s. 0 < seg_records s) segs"
    using consume_correct[OF Cons.prems(1)] by blast
  have "length (concat (map wb_records batches)) \<le> length (queue_tags q1)"
    using Cons.prems(2) c(3) arg_cong[OF c(2), of length] by (simp add: wb_len_def)
  moreover have "\<forall>b \<in> set batches. wb_len b \<noteq> 0" using Cons.prems(3) by simp
  ultimately obtain subs q' where e: "emit_batches origin batches q1 = Some (subs, q')"
    "map sub_records subs = batches"
    "concat (map sub_tags subs) @ queue_tags q' = queue_tags q1"
    "concat (map sub_completed subs) @ map fst q' = map fst q1" "queue_ok q'"
    "\<forall>sub \<in> set subs. sub_ok sub \<and> sub_origin sub = origin"
    using Cons.IH[OF c(5)] by blast
  let ?sub = "new_submission origin batch segs"
  have "emit_batches origin (batch # batches) q = Some (?sub # subs, q')" by (simp add: c(1) e(1))
  moreover have "sub_ok ?sub" using c(3,6) Cons.prems(3) by (intro new_submission_ok) auto
  moreover have "concat (map sub_tags (?sub # subs)) @ queue_tags q' = queue_tags q"
    unfolding c(2)[symmetric] e(3)[symmetric] by (simp add: sub_tags_def)
  moreover have "concat (map sub_completed (?sub # subs)) @ map fst q' = map fst q"
    unfolding c(4)[symmetric] e(4)[symmetric] by (simp add: sub_completed_def)
  moreover have "map sub_records (?sub # subs) = batch # batches" using e(2) by simp
  ultimately show ?case using e(5,6)
    by (intro exI[of _ "?sub # subs"] exI[of _ q'] conjI) (simp_all del: emit_batches.simps)
qed simp

lemma subs_tagged:
  assumes "\<forall>sub \<in> set subs. sub_ok sub"
  shows "concat (map sub_tagged subs) =
           zip (concat (map sub_tags subs)) (concat (map wb_records (map sub_records subs)))"
proof -
  have "zip (concat (map sub_tags subs)) (concat (map (\<lambda>x. wb_records (sub_records x)) subs)) =
          concat (map (\<lambda>x. zip (sub_tags x) (wb_records (sub_records x))) subs)"
    using assms by (intro zip_concat_map) (auto simp: sub_ok_def wb_len_def)
  thus ?thesis by (simp add: sub_tagged_def[abs_def] comp_def)
qed

lemma subs_tags_length:
  assumes "\<forall>sub \<in> set subs. sub_ok sub"
  shows "length (concat (map sub_tags subs)) =
         length (concat (map wb_records (map sub_records subs)))"
  using assms by (induction subs) (auto simp: sub_ok_def wb_len_def)

lemma push_batches:
  assumes "ib_inv b" "push now rs b = (out, b')"
  shows "concat (map wb_records out) @ ib_buffer b' = ib_buffer b @ rs" "ib_inv b'" "ib_config b' = ib_config b"
    "\<forall>x \<in> set out. wb_len x = ib_max b"
proof -
  show "concat (map wb_records out) @ ib_buffer b' = ib_buffer b @ rs"
    using batcher.step_conserves[OF assms(1), of "Push now rs" out b'] assms(2) by simp
  show "ib_inv b'" by (rule push_inv[OF assms])
  show "ib_config b' = ib_config b" using push_correct[OF assms] by blast
  show "\<forall>x \<in> set out. wb_len x = ib_max b"
    using push_correct[OF assms] full_chunks_length by fastforce
qed

definition push_queue :: "u64 \<Rightarrow> nat \<Rightarrow> segment_queue \<Rightarrow> segment_queue" where
  "push_queue t n q = (if n = 0 then q else q @ [(t, n)])"

lemma push_queue_simps:
  "queue_ok q \<Longrightarrow> queue_ok (push_queue t n q)"
  "queue_tags (push_queue t n q) = queue_tags q @ replicate n t"
  "map fst (push_queue t n q) = map fst q @ (if n = 0 then [] else [t])"
  by (auto simp: push_queue_def)

lemma push_buffer_correct:
  assumes "ob_inv c b"
  shows "\<exists>subs b'. push_buffer now origin rs t b = Some (subs, b') \<and> ob_inv c b' \<and>
           concat (map sub_tagged subs) @ held_tagged b' = held_tagged b @ map (Pair t) rs \<and>
           concat (map sub_completed subs) @ held_tickets b' =
             held_tickets b @ (if rs = [] then [] else [t]) \<and>
           (\<forall>sub \<in> set subs. sub_ok sub \<and> sub_origin sub = origin \<and>
              wb_len (sub_records sub) = max_batch_records c)"
proof -
  let ?q = "push_queue t (length rs) (ob_segments b)" and ?bat = "ob_batcher b"
  obtain out bat where p: "push now rs ?bat = (out, bat)" by fastforce
  have inv: "ib_inv ?bat" "ib_config ?bat = c" "queue_ok (ob_segments b)"
    "length (queue_tags (ob_segments b)) = length (ib_buffer ?bat)"
    using assms by (simp_all add: ob_inv_def)
  note bat = push_batches[OF inv(1) p] and q = push_queue_simps[where q = "ob_segments b" and t = t and n = "length rs"]
  have cap: "\<forall>x \<in> set out. wb_len x \<noteq> 0" using bat(4) inv(1) by (simp add: ib_inv_def)
  have "length (concat (map wb_records out)) \<le> length (queue_tags ?q)"
    using arg_cong[OF bat(1), of length] inv(4) unfolding q(2) by simp
  then obtain subs q' where e: "emit_batches origin out ?q = Some (subs, q')" "map sub_records subs = out"
    "concat (map sub_tags subs) @ queue_tags q' = queue_tags ?q"
    "concat (map sub_completed subs) @ map fst q' = map fst ?q" "queue_ok q'"
    "\<forall>sub \<in> set subs. sub_ok sub \<and> sub_origin sub = origin"
    using emit_batches_correct[OF q(1)[OF inv(3)] _ cap, of origin] by blast
  have ok: "\<forall>sub \<in> set subs. sub_ok sub" using e(6) by blast
  let ?b' = "\<lparr>ob_segments = q', ob_batcher = bat\<rparr>"
  note len = subs_tags_length[OF ok, unfolded e(2)]
  have "concat (map sub_tagged subs) @ held_tagged ?b' =
          zip (concat (map sub_tags subs) @ queue_tags q') (concat (map wb_records out) @ ib_buffer bat)"
    unfolding subs_tagged[OF ok, unfolded e(2)] by (simp add: held_tagged_def len)
  also have "\<dots> = held_tagged b @ map (Pair t) rs"
    unfolding e(3) bat(1) q(2) by (simp add: held_tagged_def inv(4) zip_replicate_left)
  finally have tagged: "concat (map sub_tagged subs) @ held_tagged ?b' = held_tagged b @ map (Pair t) rs" .
  have "length (queue_tags q') = length (ib_buffer bat)"
    using arg_cong[OF e(3), of length] arg_cong[OF bat(1), of length] len q(2) inv(4) by simp
  hence "ob_inv c ?b'" using bat(2,3) e(5) inv(2) by (simp add: ob_inv_def)
  moreover have "push_buffer now origin rs t b = Some (subs, ?b')"
    using p e(1) by (auto simp: push_buffer_def push_queue_def Let_def)
  moreover have "wb_len (sub_records sub) = max_batch_records c" if "sub \<in> set subs" for sub
    using that e(2) bat(4) inv(2) by auto
  moreover have "concat (map sub_completed subs) @ held_tickets ?b' = held_tickets b @ (if rs = [] then [] else [t])"
    using e(4) unfolding q(3) by (simp add: held_tickets_def)
  ultimately show ?thesis using tagged e(6) by blast
qed

text \<open>Both flushes either leave a buffer alone or empty it.\<close>

definition flusher :: "('a InsertBatcher \<Rightarrow> 'a WriteBatch option \<times> 'a InsertBatcher) \<Rightarrow> bool" where
  "flusher f \<longleftrightarrow> (\<forall>b. f b = (None, b) \<or>
     (ib_buffer b \<noteq> [] \<and> f b = (Some (from_vec (ib_buffer b)), b\<lparr>ib_buffer := [], ib_deadline := None\<rparr>)))"

lemma flush_simps:
  "ib_buffer b = [] \<Longrightarrow> flush b = (None, b)"
  "ib_buffer b \<noteq> [] \<Longrightarrow> flush b = (Some (from_vec (ib_buffer b)), b\<lparr>ib_buffer := [], ib_deadline := None\<rparr>)"
  by (simp_all add: flush_def)

lemma flusher_flush: "flusher flush"
  by (simp add: flusher_def flush_def)

lemma flusher_expired: "flusher (flush_if_expired now)"
  by (simp add: flusher_def flush_if_expired_cases flush_def)

definition all_tagged :: "(BatchOrigin \<times> 'a OriginBuffer) list \<Rightarrow> (u64 \<times> 'a) list" where
  "all_tagged bs = concat (map (\<lambda>(_, b). held_tagged b) bs)"

definition all_tickets :: "(BatchOrigin \<times> 'a OriginBuffer) list \<Rightarrow> u64 list" where
  "all_tickets bs = concat (map (\<lambda>(_, b). held_tickets b) bs)"

lemma all_simps [simp]:
  "all_tagged [] = []" "all_tagged ((k, b) # bs) = held_tagged b @ all_tagged bs"
  "all_tagged (bs @ bs') = all_tagged bs @ all_tagged bs'"
  "all_tickets [] = []" "all_tickets ((k, b) # bs) = held_tickets b @ all_tickets bs"
  "all_tickets (bs @ bs') = all_tickets bs @ all_tickets bs'"
  by (simp_all add: all_tagged_def all_tickets_def)

abbreviation bufs_ok :: "InsertBatcherConfig \<Rightarrow> (BatchOrigin \<times> 'a OriginBuffer) list \<Rightarrow> bool" where
  "bufs_ok c bs \<equiv> list_all (\<lambda>(_, b). ob_inv c b) bs"

lemma flush_buffer_full:
  assumes "ob_inv c b" "ib_buffer (ob_batcher b) \<noteq> []"
  shows "\<exists>segs. consume (wb_len (from_vec (ib_buffer (ob_batcher b)))) (ob_segments b) = Some (segs, []) \<and>
           sub_ok (new_submission origin (from_vec (ib_buffer (ob_batcher b))) segs) \<and>
           sub_tagged (new_submission origin (from_vec (ib_buffer (ob_batcher b))) segs) = held_tagged b \<and>
           sub_completed (new_submission origin (from_vec (ib_buffer (ob_batcher b))) segs) = held_tickets b"
proof -
  let ?recs = "from_vec (ib_buffer (ob_batcher b))" and ?q = "ob_segments b"
  have inv: "queue_ok ?q" "wb_len ?recs = length (queue_tags ?q)" using assms(1) by (simp_all add: ob_inv_def)
  obtain segs q' where c: "consume (wb_len ?recs) ?q = Some (segs, q')"
    "segment_tags segs @ queue_tags q' = queue_tags ?q" "length (segment_tags segs) = wb_len ?recs"
    "completed_tickets segs @ map fst q' = map fst ?q" "queue_ok q'" "list_all (\<lambda>s. 0 < seg_records s) segs"
    using consume_correct[OF inv(1), of "wb_len ?recs"] inv(2) by auto
  have "queue_tags q' = []" using arg_cong[OF c(2), of length] c(3) inv(2) by simp
  hence q': "q' = []" using c(5) by (cases q') auto
  have "sub_ok (new_submission origin ?recs segs)" using c(3,6) assms(2) by (intro new_submission_ok) auto
  thus ?thesis using c(1,2,4) unfolding q'
    by (simp add: sub_tagged_def sub_tags_def sub_completed_def held_tagged_def held_tickets_def)
qed

lemma flush_each_correct:
  assumes "flusher f" "bufs_ok c bs"
  shows "\<exists>subs bs'. flush_each f bs = Some (subs, bs') \<and> bufs_ok c bs' \<and> map fst bs' = map fst bs \<and>
           mset (concat (map sub_tagged subs)) + mset (all_tagged bs') = mset (all_tagged bs) \<and>
           mset (concat (map sub_completed subs)) + mset (all_tickets bs') = mset (all_tickets bs) \<and>
           (\<forall>sub \<in> set subs. sub_ok sub \<and> wb_len (sub_records sub) < max_batch_records c \<and>
              (\<exists>b. (sub_origin sub, b) \<in> set bs \<and> sub_tagged sub = held_tagged b)) \<and>
           (\<forall>(k, b) \<in> set bs'. (k, b) \<in> set bs \<or> held_tagged b = [])"
  using assms(2)
proof (induction bs)
  case (Cons kb bs)
  obtain k b where kb: "kb = (k, b)" by fastforce
  have inv: "ob_inv c b" using Cons.prems kb by simp
  obtain subs bs' where IH: "flush_each f bs = Some (subs, bs')" "bufs_ok c bs'" "map fst bs' = map fst bs"
    "mset (concat (map sub_tagged subs)) + mset (all_tagged bs') = mset (all_tagged bs)"
    "mset (concat (map sub_completed subs)) + mset (all_tickets bs') = mset (all_tickets bs)"
    "\<forall>sub \<in> set subs. sub_ok sub \<and> wb_len (sub_records sub) < max_batch_records c \<and>
              (\<exists>b. (sub_origin sub, b) \<in> set bs \<and> sub_tagged sub = held_tagged b)"
    "\<forall>(k, b) \<in> set bs'. (k, b) \<in> set bs \<or> held_tagged b = []"
    using Cons.IH Cons.prems by auto
  show ?case
  proof (cases "f (ob_batcher b) = (None, ob_batcher b)")
    case True
    hence "flush_each f (kb # bs) = Some (subs, (k, b) # bs')" using IH(1) kb by simp
    thus ?thesis using IH inv kb
      by (intro exI[of _ subs] exI[of _ "(k, b) # bs'"]) (auto simp: union_commute union_lcomm)
  next
    case False
    let ?recs = "from_vec (ib_buffer (ob_batcher b))"
    let ?bat = "(ob_batcher b)\<lparr>ib_buffer := [], ib_deadline := None\<rparr>"
    have f: "ib_buffer (ob_batcher b) \<noteq> []" "f (ob_batcher b) = (Some ?recs, ?bat)"
      using assms(1) False unfolding flusher_def by blast+
    obtain segs where sg: "consume (wb_len ?recs) (ob_segments b) = Some (segs, [])"
      "sub_ok (new_submission k ?recs segs)" "sub_tagged (new_submission k ?recs segs) = held_tagged b"
      "sub_completed (new_submission k ?recs segs) = held_tickets b"
      using flush_buffer_full[OF inv f(1)] by blast
    let ?b' = "\<lparr>ob_segments = [], ob_batcher = ?bat\<rparr>" and ?sub = "new_submission k ?recs segs"
    have "flush_each f (kb # bs) = Some (?sub # subs, (k, ?b') # bs')"
      using IH(1) kb f(2) sg(1) by simp
    moreover have "ob_inv c ?b'" "wb_len ?recs < max_batch_records c"
      using inv by (auto simp: ob_inv_def ib_inv_def)
    moreover have "held_tagged ?b' = []" "held_tickets ?b' = []" by (simp_all add: held_tagged_def held_tickets_def)
    ultimately show ?thesis using IH sg(2-4) kb
      by (intro exI[of _ "?sub # subs"] exI[of _ "(k, ?b') # bs'"]) auto
  qed
qed simp

section \<open>All buffers\<close>

definition obs_inv :: "'a OriginBuffers \<Rightarrow> bool" where
  "obs_inv s \<longleftrightarrow> max_batch_records (obs_config s) \<noteq> 0 \<and> bufs_ok (obs_config s) (obs_buffers s) \<and>
                 list_all (\<lambda>(_, b). \<not> ob_is_empty b) (obs_buffers s)"

lemma empty_buffer_holds_nothing: "ob_is_empty b \<Longrightarrow> held_tagged b = [] \<and> held_tickets b = []"
  by (simp add: ob_is_empty_def held_tagged_def held_tickets_def)

lemma position_split:
  "position P xs = Some i \<Longrightarrow> \<exists>ys x zs. xs = ys @ x # zs \<and> length ys = i \<and> P x"
proof (induction xs arbitrary: i)
  case (Cons x xs)
  show ?case
  proof (cases "P x")
    case True
    thus ?thesis using Cons.prems by (intro exI[of _ "[]"]) auto
  next
    case False
    then obtain j where "position P xs = Some j" "i = Suc j" using Cons.prems by auto
    from Cons.IH[OF this(1)] obtain ys y zs where "xs = ys @ y # zs" "length ys = j" "P y" by blast
    thus ?thesis using \<open>i = Suc j\<close> by (intro exI[of _ "x # ys"] exI[of _ y] exI[of _ zs]) simp
  qed
qed simp

text \<open>\<open>push\<close> touches one buffer: the first one with an equal origin, or a new one.\<close>

lemma obs_push_focus:
  fixes s :: "'a OriginBuffers"
  assumes "obs_inv s"
  shows "\<exists>ys k b zs. ob_inv (obs_config s) b \<and>
           (obs_buffers s = ys @ (k, b) # zs \<and> origin_eq k origin \<or>
            obs_buffers s = ys \<and> zs = [] \<and> k = origin \<and> held_tagged b = [] \<and> held_tickets b = []) \<and>
           obs_push now origin rs t s =
             map_option (\<lambda>(subs, b'). (subs, s\<lparr>obs_buffers := ys @ (if ob_is_empty b' then [] else [(k, b')]) @ zs\<rparr>))
               (push_buffer now origin rs t b)"
proof (cases "position (\<lambda>(known, _). origin_eq known origin) (obs_buffers s)")
  case None
  obtain b :: "'a OriginBuffer" where b: "new_origin_buffer (obs_config s) = Some b" "ob_inv (obs_config s) b"
    "held_tagged b = []" "held_tickets b = []"
    using assms by (auto simp: new_origin_buffer_def new_batcher_def obs_inv_def ob_inv_def ib_inv_def
        held_tagged_def held_tickets_def)
  have "obs_push now origin rs t s =
      map_option (\<lambda>(subs, b'). (subs, s\<lparr>obs_buffers := obs_buffers s @ (if ob_is_empty b' then [] else [(origin, b')]) @ []\<rparr>))
        (push_buffer now origin rs t b)"
    unfolding obs_push_def None by (cases "push_buffer now origin rs t b") (auto simp: b(1))
  with b show ?thesis by blast
next
  case (Some i)
  obtain ys k b zs where sp: "obs_buffers s = ys @ (k, b) # zs" "length ys = i" "origin_eq k origin"
    using position_split[OF Some] by auto
  moreover have "ob_inv (obs_config s) b" using assms sp(1) by (simp add: obs_inv_def)
  moreover have "obs_push now origin rs t s =
      map_option (\<lambda>(subs, b'). (subs, s\<lparr>obs_buffers := ys @ (if ob_is_empty b' then [] else [(k, b')]) @ zs\<rparr>))
        (push_buffer now origin rs t b)"
    unfolding obs_push_def Some using sp(2)[symmetric]
    by (cases "push_buffer now origin rs t b") (auto simp: sp(1))
  ultimately show ?thesis by blast
qed

lemma mset_focus:
  fixes a x y z h h' :: "'m multiset"
  assumes "a + h' = h + x"
  shows "a + (y + h' + z) = (y + h + z) + x"
proof -
  have "a + (y + h' + z) = (a + h') + (y + z)" by (simp only: ac_simps)
  also have "\<dots> = (y + h + z) + x" unfolding assms by (simp only: ac_simps)
  finally show ?thesis .
qed

lemma obs_push_correct:
  assumes "obs_inv s"
  shows "\<exists>subs s'. obs_push now origin rs t s = Some (subs, s') \<and> obs_inv s' \<and> obs_config s' = obs_config s \<and>
           mset (concat (map sub_tagged subs)) + mset (all_tagged (obs_buffers s')) =
             mset (all_tagged (obs_buffers s)) + mset (map (Pair t) rs) \<and>
           mset (concat (map sub_completed subs)) + mset (all_tickets (obs_buffers s')) =
             mset (all_tickets (obs_buffers s)) + mset (if rs = [] then [] else [t]) \<and>
           (\<forall>sub \<in> set subs. sub_ok sub \<and> sub_origin sub = origin \<and>
              wb_len (sub_records sub) = max_batch_records (obs_config s))"
proof -
  from obs_push_focus[OF assms, of origin now rs t]
  obtain ys k b zs where f: "ob_inv (obs_config s) b"
    "obs_buffers s = ys @ (k, b) # zs \<and> origin_eq k origin \<or>
     obs_buffers s = ys \<and> zs = [] \<and> k = origin \<and> held_tagged b = [] \<and> held_tickets b = []"
    "obs_push now origin rs t s =
       map_option (\<lambda>(subs, b'). (subs, s\<lparr>obs_buffers := ys @ (if ob_is_empty b' then [] else [(k, b')]) @ zs\<rparr>))
         (push_buffer now origin rs t b)"
    by (elim exE conjE)
  obtain subs b' where p: "push_buffer now origin rs t b = Some (subs, b')" "ob_inv (obs_config s) b'"
    "concat (map sub_tagged subs) @ held_tagged b' = held_tagged b @ map (Pair t) rs"
    "concat (map sub_completed subs) @ held_tickets b' = held_tickets b @ (if rs = [] then [] else [t])"
    "\<forall>sub \<in> set subs. sub_ok sub \<and> sub_origin sub = origin \<and> wb_len (sub_records sub) = max_batch_records (obs_config s)"
    using push_buffer_correct[OF f(1)] by blast
  let ?bs = "ys @ (if ob_is_empty b' then [] else [(k, b')]) @ zs"
  have held: "mset (all_tagged (obs_buffers s)) = mset (all_tagged ys) + mset (held_tagged b) + mset (all_tagged zs)"
    "mset (all_tickets (obs_buffers s)) = mset (all_tickets ys) + mset (held_tickets b) + mset (all_tickets zs)"
    using f(2) by (elim disjE conjE; simp)+
  have held': "mset (all_tagged ?bs) = mset (all_tagged ys) + mset (held_tagged b') + mset (all_tagged zs)"
    "mset (all_tickets ?bs) = mset (all_tickets ys) + mset (held_tickets b') + mset (all_tickets zs)"
    by (cases "ob_is_empty b'"; simp add: empty_buffer_holds_nothing)+
  have "bufs_ok (obs_config s) (ys @ zs)" "list_all (\<lambda>(_, b). \<not> ob_is_empty b) (ys @ zs)"
    using assms f(2) unfolding obs_inv_def by (elim disjE conjE; simp)+
  hence "obs_inv (s\<lparr>obs_buffers := ?bs\<rparr>)"
    using assms p(2) by (simp add: obs_inv_def)
  moreover have "obs_push now origin rs t s = Some (subs, s\<lparr>obs_buffers := ?bs\<rparr>)" using f(3) p(1) by simp
  moreover have "mset (concat (map sub_tagged subs)) + mset (all_tagged ?bs) =
             mset (all_tagged (obs_buffers s)) + mset (map (Pair t) rs)"
    unfolding held held' by (rule mset_focus) (simp only: p(3) flip: mset_append)
  moreover have "mset (concat (map sub_completed subs)) + mset (all_tickets ?bs) =
             mset (all_tickets (obs_buffers s)) + mset (if rs = [] then [] else [t])"
    unfolding held held' by (rule mset_focus) (simp only: p(4) flip: mset_append)
  ultimately show ?thesis using p(5)
    by (intro exI[of _ subs] exI[of _ "s\<lparr>obs_buffers := ?bs\<rparr>"] conjI) simp_all
qed

lemma retain_active_all:
  "mset (all_tagged (retain_active bs)) = mset (all_tagged bs)"
  "mset (all_tickets (retain_active bs)) = mset (all_tickets bs)"
  by (induction bs) (auto simp: retain_active_def empty_buffer_holds_nothing)

lemma flush_with_correct:
  assumes "flusher f" "obs_inv s"
  shows "\<exists>subs s'. flush_with f s = Some (subs, s') \<and> obs_inv s' \<and> obs_config s' = obs_config s \<and>
           mset (concat (map sub_tagged subs)) + mset (all_tagged (obs_buffers s')) = mset (all_tagged (obs_buffers s)) \<and>
           mset (concat (map sub_completed subs)) + mset (all_tickets (obs_buffers s')) = mset (all_tickets (obs_buffers s)) \<and>
           (\<forall>sub \<in> set subs. sub_ok sub \<and> wb_len (sub_records sub) < max_batch_records (obs_config s) \<and>
              (\<exists>b. (sub_origin sub, b) \<in> set (obs_buffers s) \<and> sub_tagged sub = held_tagged b)) \<and>
           (\<forall>(k, b) \<in> set (obs_buffers s'). (k, b) \<in> set (obs_buffers s) \<or> held_tagged b = [])"
proof -
  have "bufs_ok (obs_config s) (obs_buffers s)" using assms(2) by (simp add: obs_inv_def)
  from flush_each_correct[OF assms(1) this] obtain subs bs' where
    e: "flush_each f (obs_buffers s) = Some (subs, bs')" "bufs_ok (obs_config s) bs'"
    "mset (concat (map sub_tagged subs)) + mset (all_tagged bs') = mset (all_tagged (obs_buffers s))"
    "mset (concat (map sub_completed subs)) + mset (all_tickets bs') = mset (all_tickets (obs_buffers s))"
    "\<forall>sub \<in> set subs. sub_ok sub \<and> wb_len (sub_records sub) < max_batch_records (obs_config s) \<and>
              (\<exists>b. (sub_origin sub, b) \<in> set (obs_buffers s) \<and> sub_tagged sub = held_tagged b)"
    "\<forall>(k, b) \<in> set bs'. (k, b) \<in> set (obs_buffers s) \<or> held_tagged b = []"
    by blast
  have "\<forall>(k, b) \<in> set (retain_active bs'). (k, b) \<in> set (obs_buffers s) \<or> held_tagged b = []"
    using e(6) by (auto simp: retain_active_def)
  moreover have "obs_inv (s\<lparr>obs_buffers := retain_active bs'\<rparr>)"
    using assms(2) e(2) by (auto simp: obs_inv_def retain_active_def list_all_iff)
  moreover have "flush_with f s = Some (subs, s\<lparr>obs_buffers := retain_active bs'\<rparr>)"
    using e(1) by (simp add: flush_with_def)
  ultimately show ?thesis using e(3-5) retain_active_all[of bs'] by simp
qed

section \<open>One origin as a stream stage\<close>

text \<open>Seen from one origin, a buffer is a stream stage twice over: for its records, each
  tagged with its ticket, and for the tickets themselves, which leave when completed.\<close>

datatype 'a buffer_event = BufPush instant BatchOrigin "'a list" u64 | BufFlush BatchOrigin

definition flush_buffer :: "BatchOrigin \<Rightarrow> 'a OriginBuffer \<Rightarrow> ('a Submission list \<times> 'a OriginBuffer) option" where
  "flush_buffer origin b =
     map_option (\<lambda>(subs, bs). (subs, snd (hd bs))) (flush_each flush [(origin, b)])"

fun buffer_step :: "'a buffer_event \<Rightarrow> 'a OriginBuffer \<Rightarrow> 'a Submission list \<times> 'a OriginBuffer" where
  "buffer_step (BufPush now origin rs t) b =
     (case push_buffer now origin rs t b of Some r \<Rightarrow> r | None \<Rightarrow> ([], b))"
| "buffer_step (BufFlush origin) b = (case flush_buffer origin b of Some r \<Rightarrow> r | None \<Rightarrow> ([], b))"

fun buffer_records :: "'a buffer_event \<Rightarrow> (u64 \<times> 'a) list" where
  "buffer_records (BufPush now origin rs t) = map (Pair t) rs"
| "buffer_records (BufFlush origin) = []"

fun buffer_tickets :: "'a buffer_event \<Rightarrow> u64 list" where
  "buffer_tickets (BufPush now origin rs t) = (if rs = [] then [] else [t])"
| "buffer_tickets (BufFlush origin) = []"

lemma flush_buffer_correct:
  assumes "ob_inv c b" "flush_buffer origin b = Some (subs, b')"
  shows "ob_inv c b' \<and> concat (map sub_tagged subs) @ held_tagged b' = held_tagged b \<and>
         concat (map sub_completed subs) @ held_tickets b' = held_tickets b"
proof (cases "ib_buffer (ob_batcher b) = []")
  case True
  hence "subs = []" "b' = b" using assms(2) by (auto simp: flush_buffer_def flush_simps)
  thus ?thesis using assms(1) by simp
next
  case False
  obtain segs where sg: "consume (wb_len (from_vec (ib_buffer (ob_batcher b)))) (ob_segments b) = Some (segs, [])"
    "sub_tagged (new_submission origin (from_vec (ib_buffer (ob_batcher b))) segs) = held_tagged b"
    "sub_completed (new_submission origin (from_vec (ib_buffer (ob_batcher b))) segs) = held_tickets b"
    using flush_buffer_full[OF assms(1) False, of origin] by blast
  hence "subs = [new_submission origin (from_vec (ib_buffer (ob_batcher b))) segs]"
    "b' = \<lparr>ob_segments = [], ob_batcher = (ob_batcher b)\<lparr>ib_buffer := [], ib_deadline := None\<rparr>\<rparr>"
    using assms(2) False by (auto simp: flush_buffer_def flush_simps)
  thus ?thesis using sg assms(1) by (auto simp: held_tagged_def held_tickets_def ob_inv_def ib_inv_def)
qed

lemma buffer_step_correct:
  assumes "ob_inv c b" "buffer_step e b = (subs, b')"
  shows "ob_inv c b'" "concat (map sub_tagged subs) @ held_tagged b' = held_tagged b @ buffer_records e"
    "concat (map sub_completed subs) @ held_tickets b' = held_tickets b @ buffer_tickets e"
proof -
  have "ob_inv c b' \<and> concat (map sub_tagged subs) @ held_tagged b' = held_tagged b @ buffer_records e \<and>
        concat (map sub_completed subs) @ held_tickets b' = held_tickets b @ buffer_tickets e"
  proof (cases e)
    case (BufPush now origin rs t)
    thus ?thesis using push_buffer_correct[OF assms(1), of now origin rs t] assms(2) by auto
  next
    case (BufFlush origin)
    thus ?thesis using flush_buffer_correct[OF assms(1), of origin subs b'] assms by (auto split: option.splits)
  qed
  thus "ob_inv c b'" "concat (map sub_tagged subs) @ held_tagged b' = held_tagged b @ buffer_records e"
    "concat (map sub_completed subs) @ held_tickets b' = held_tickets b @ buffer_tickets e" by simp_all
qed

interpretation origin_records: stream_stage "ob_inv c" held_tagged buffer_step sub_tagged buffer_records for c
  by unfold_locales (blast dest: buffer_step_correct)+

interpretation origin_tickets: stream_stage "ob_inv c" held_tickets buffer_step sub_completed buffer_tickets for c
  by unfold_locales (blast dest: buffer_step_correct)+

section \<open>Histories of all buffers\<close>

datatype 'a origin_event = PushChunk instant BatchOrigin "'a list" u64 | FlushExpired instant | FlushAll

fun obs_step :: "'a origin_event \<Rightarrow> 'a OriginBuffers \<Rightarrow> ('a Submission list \<times> 'a OriginBuffers) option" where
  "obs_step (PushChunk now origin rs t) s = obs_push now origin rs t s"
| "obs_step (FlushExpired now) s = flush_expired now s"
| "obs_step FlushAll s = flush_all s"

fun run_obs :: "'a origin_event list \<Rightarrow> 'a OriginBuffers \<Rightarrow> ('a Submission list \<times> 'a OriginBuffers) option" where
  "run_obs [] s = Some ([], s)"
| "run_obs (e # es) s =
     Option.bind (obs_step e s) (\<lambda>(subs, s'). map_option (\<lambda>(subs', s''). (subs @ subs', s'')) (run_obs es s'))"

fun pushed_records :: "'a origin_event \<Rightarrow> (u64 \<times> 'a) list" where
  "pushed_records (PushChunk now origin rs t) = map (Pair t) rs"
| "pushed_records _ = []"

fun pushed_tickets :: "'a origin_event \<Rightarrow> u64 list" where
  "pushed_tickets (PushChunk now origin rs t) = (if rs = [] then [] else [t])"
| "pushed_tickets _ = []"

definition history_ok :: "'a OriginBuffers \<Rightarrow> (u64 \<times> 'a) list \<Rightarrow> u64 list \<Rightarrow> 'a Submission list \<Rightarrow> 'a OriginBuffers \<Rightarrow> bool" where
  "history_ok s recs tickets subs s' \<longleftrightarrow>
     obs_inv s' \<and> obs_config s' = obs_config s \<and>
     mset (concat (map sub_tagged subs)) + mset (all_tagged (obs_buffers s')) =
       mset (all_tagged (obs_buffers s)) + mset recs \<and>
     mset (concat (map sub_completed subs)) + mset (all_tickets (obs_buffers s')) =
       mset (all_tickets (obs_buffers s)) + mset tickets \<and>
     (\<forall>sub \<in> set subs. sub_ok sub \<and> wb_len (sub_records sub) \<le> max_batch_records (obs_config s))"

lemma obs_step_correct:
  assumes "obs_inv s"
  shows "\<exists>subs s'. obs_step e s = Some (subs, s') \<and> history_ok s (pushed_records e) (pushed_tickets e) subs s'"
proof (cases e)
  case (PushChunk now origin rs t)
  obtain subs s' where p: "obs_push now origin rs t s = Some (subs, s')" "obs_inv s'" "obs_config s' = obs_config s"
    "mset (concat (map sub_tagged subs)) + mset (all_tagged (obs_buffers s')) =
       mset (all_tagged (obs_buffers s)) + mset (map (Pair t) rs)"
    "mset (concat (map sub_completed subs)) + mset (all_tickets (obs_buffers s')) =
       mset (all_tickets (obs_buffers s)) + mset (if rs = [] then [] else [t])"
    "\<forall>sub \<in> set subs. sub_ok sub \<and> sub_origin sub = origin \<and>
       wb_len (sub_records sub) = max_batch_records (obs_config s)"
    using obs_push_correct[OF assms] by blast
  thus ?thesis using PushChunk by (auto simp: history_ok_def)
next
  case (FlushExpired now)
  thus ?thesis using flush_with_correct[OF flusher_expired assms, of now]
    by (fastforce simp: history_ok_def flush_expired_def)
next
  case FlushAll
  thus ?thesis using flush_with_correct[OF flusher_flush assms]
    by (fastforce simp: history_ok_def flush_all_def)
qed

lemma mset_chain:
  fixes a b s x y p q :: "'m multiset"
  assumes "a + x = s + p" "b + y = x + q"
  shows "(a + b) + y = s + (p + q)"
proof -
  have "(a + b) + y = a + (b + y)" by (simp only: add.assoc)
  also have "\<dots> = (a + x) + q" unfolding assms(2) by (simp only: add.assoc)
  finally show ?thesis unfolding assms(1) by (simp only: add.assoc)
qed

lemma history_ok_trans:
  assumes "history_ok s recs tickets subs s1" "history_ok s1 recs' tickets' subs' s'"
  shows "history_ok s (recs @ recs') (tickets @ tickets') (subs @ subs') s'"
proof -
  note h = assms[unfolded history_ok_def]
  have "mset (concat (map sub_tagged (subs @ subs'))) + mset (all_tagged (obs_buffers s')) =
          mset (all_tagged (obs_buffers s)) + mset (recs @ recs')"
    using mset_chain[of "mset (concat (map sub_tagged subs))" "mset (all_tagged (obs_buffers s1))"
        "mset (all_tagged (obs_buffers s))" "mset recs" "mset (concat (map sub_tagged subs'))"] h by simp
  moreover have "mset (concat (map sub_completed (subs @ subs'))) + mset (all_tickets (obs_buffers s')) =
          mset (all_tickets (obs_buffers s)) + mset (tickets @ tickets')"
    using mset_chain[of "mset (concat (map sub_completed subs))" "mset (all_tickets (obs_buffers s1))"
        "mset (all_tickets (obs_buffers s))" "mset tickets" "mset (concat (map sub_completed subs'))"] h by simp
  moreover have "\<forall>sub \<in> set (subs @ subs'). sub_ok sub \<and> wb_len (sub_records sub) \<le> max_batch_records (obs_config s)"
    using h by auto
  ultimately show ?thesis using h unfolding history_ok_def by simp
qed

lemma run_obs_correct:
  assumes "obs_inv s"
  shows "\<exists>subs s'. run_obs es s = Some (subs, s') \<and>
           history_ok s (concat (map pushed_records es)) (concat (map pushed_tickets es)) subs s'"
  using assms
proof (induction es arbitrary: s)
  case Nil
  thus ?case by (simp add: history_ok_def)
next
  case (Cons e es)
  obtain subs s1 where e: "obs_step e s = Some (subs, s1)"
    "history_ok s (pushed_records e) (pushed_tickets e) subs s1" using obs_step_correct[OF Cons.prems] by blast
  have "obs_inv s1" using e(2) by (simp add: history_ok_def)
  then obtain subs' s' where es: "run_obs es s1 = Some (subs', s')"
    "history_ok s1 (concat (map pushed_records es)) (concat (map pushed_tickets es)) subs' s'"
    using Cons.IH by blast
  thus ?case using e(1) history_ok_trans[OF e(2) es(2)] by simp
qed

section \<open>Attribution\<close>

text \<open>The derived equality of origins is symmetric and transitive (it is not reflexive on NaN
  attributes), so together with identity it is an equivalence.\<close>

lemma f64_eq_sym: "f64_eq x y \<Longrightarrow> f64_eq y x"
  by (auto simp: f64_eq_def)

lemma f64_eq_trans: "f64_eq x y \<Longrightarrow> f64_eq y z \<Longrightarrow> f64_eq x z"
  by (auto simp: f64_eq_def)

lemma av_eq_sym:
  "av_eq v w \<Longrightarrow> av_eq w v" "av_list_eq vs ws \<Longrightarrow> av_list_eq ws vs" "attributes_eq as bs \<Longrightarrow> attributes_eq bs as"
  by (induction v w and vs ws and as bs rule: av_eq_av_list_eq_attributes_eq.induct) (auto simp: f64_eq_sym)

fun_cases av_eqE: "av_eq AvNull x" "av_eq (AvString a) x" "av_eq (AvInt n) x" "av_eq (AvDouble d) x"
  "av_eq (AvBool b) x" "av_eq (AvBytes bs) x" "av_eq (AvArray vs) x" "av_eq (AvKvlist as) x"

fun_cases av_list_eqE: "av_list_eq [] xs" "av_list_eq (v # vs) xs"

fun_cases attributes_eqE: "attributes_eq [] cs" "attributes_eq (Attribute k v # as) cs"

lemma av_eq_trans:
  "av_eq v w \<Longrightarrow> av_eq w x \<Longrightarrow> av_eq v x"
  "av_list_eq vs ws \<Longrightarrow> av_list_eq ws xs \<Longrightarrow> av_list_eq vs xs"
  "attributes_eq as bs \<Longrightarrow> attributes_eq bs cs \<Longrightarrow> attributes_eq as cs"
  by (induction v w and vs ws and as bs arbitrary: x and xs and cs rule: av_eq_av_list_eq_attributes_eq.induct)
     (auto elim!: av_eqE av_list_eqE attributes_eqE intro: f64_eq_trans)

lemma origin_eq_sym: "origin_eq a b \<Longrightarrow> origin_eq b a"
  by (auto simp: origin_eq_def resource_eq_def av_eq_sym split: option.splits)

lemma origin_eq_trans: "origin_eq a b \<Longrightarrow> origin_eq b c \<Longrightarrow> origin_eq a c"
  by (auto simp: origin_eq_def resource_eq_def split: option.splits intro: av_eq_trans)

definition same_origin :: "BatchOrigin \<Rightarrow> BatchOrigin \<Rightarrow> bool" where
  "same_origin a b \<longleftrightarrow> a = b \<or> origin_eq a b"

lemma same_origin_intros:
  "same_origin a a" "same_origin a b \<Longrightarrow> same_origin b a" "same_origin a b \<Longrightarrow> same_origin b c \<Longrightarrow> same_origin a c"
  by (auto simp: same_origin_def intro: origin_eq_sym origin_eq_trans)

text \<open>A tagged record comes from a chunk of the history, with an equal origin.\<close>

definition from_chunk :: "'a origin_event set \<Rightarrow> BatchOrigin \<Rightarrow> u64 \<times> 'a \<Rightarrow> bool" where
  "from_chunk E k x \<longleftrightarrow>
     (\<exists>now orig rs. PushChunk now orig rs (fst x) \<in> E \<and> snd x \<in> set rs \<and> same_origin orig k)"

definition attributed :: "'a origin_event set \<Rightarrow> 'a OriginBuffers \<Rightarrow> bool" where
  "attributed E s \<longleftrightarrow> (\<forall>(k, b) \<in> set (obs_buffers s). \<forall>x \<in> set (held_tagged b). from_chunk E k x)"

lemma from_chunk_mono: "from_chunk E k x \<Longrightarrow> E \<subseteq> E' \<Longrightarrow> from_chunk E' k x"
  by (auto simp: from_chunk_def)

lemma from_chunk_origin: "from_chunk E k x \<Longrightarrow> same_origin k k' \<Longrightarrow> from_chunk E k' x"
  by (auto simp: from_chunk_def intro: same_origin_intros)

lemma attributed_push:
  assumes "obs_inv s" "attributed E s" "obs_push now origin rs t s = Some (subs, s')"
  shows "attributed (insert (PushChunk now origin rs t) E) s' \<and>
         (\<forall>sub \<in> set subs. \<forall>x \<in> set (sub_tagged sub). from_chunk (insert (PushChunk now origin rs t) E) (sub_origin sub) x)"
proof -
  let ?E = "insert (PushChunk now origin rs t) E"
  from obs_push_focus[OF assms(1), of origin now rs t]
  obtain ys k b zs where f: "ob_inv (obs_config s) b"
    "obs_buffers s = ys @ (k, b) # zs \<and> origin_eq k origin \<or>
     obs_buffers s = ys \<and> zs = [] \<and> k = origin \<and> held_tagged b = [] \<and> held_tickets b = []"
    "obs_push now origin rs t s =
       map_option (\<lambda>(subs, b'). (subs, s\<lparr>obs_buffers := ys @ (if ob_is_empty b' then [] else [(k, b')]) @ zs\<rparr>))
         (push_buffer now origin rs t b)" by (elim exE conjE)
  obtain b' where p: "push_buffer now origin rs t b = Some (subs, b')"
    "s' = s\<lparr>obs_buffers := ys @ (if ob_is_empty b' then [] else [(k, b')]) @ zs\<rparr>"
    using f(3)[unfolded assms(3)] by (cases "push_buffer now origin rs t b") auto
  obtain subs' b'' where pb: "push_buffer now origin rs t b = Some (subs', b'')"
    "concat (map sub_tagged subs') @ held_tagged b'' = held_tagged b @ map (Pair t) rs"
    "\<forall>sub \<in> set subs'. sub_ok sub \<and> sub_origin sub = origin \<and> wb_len (sub_records sub) = max_batch_records (obs_config s)"
    using push_buffer_correct[OF f(1), of now origin rs t] by blast
  have "subs' = subs" "b'' = b'" using pb(1) p(1) by simp_all
  hence c: "concat (map sub_tagged subs) @ held_tagged b' = held_tagged b @ map (Pair t) rs"
    "\<And>sub. sub \<in> set subs \<Longrightarrow> sub_origin sub = origin" using pb(2,3) by blast+
  have kk: "same_origin k origin" using f(2) unfolding same_origin_def by blast
  have at: "from_chunk E k' x" if "(k', b'') \<in> set (obs_buffers s)" "x \<in> set (held_tagged b'')" for k' b'' x
    using assms(2) that unfolding attributed_def by blast
  have src: "from_chunk ?E k x" if "x \<in> set (held_tagged b @ map (Pair t) rs)" for x
  proof (cases "x \<in> set (held_tagged b)")
    case True
    hence "(k, b) \<in> set (obs_buffers s)" using f(2) by (metis empty_iff in_set_conv_decomp list.set(1))
    from at[OF this True] show ?thesis by (rule from_chunk_mono) blast
  next
    case False
    hence "fst x = t" "snd x \<in> set rs" using that by auto
    hence "from_chunk ?E origin x" unfolding from_chunk_def using same_origin_intros(1) by blast
    thus ?thesis by (rule from_chunk_origin) (rule same_origin_intros(2)[OF kk])
  qed
  have h1: "from_chunk ?E k x" if "x \<in> set (held_tagged b')" for x
    by (rule src) (use that in \<open>simp flip: c(1)\<close>)
  have h2: "from_chunk ?E k' x" if "(k', b'') \<in> set (ys @ zs)" "x \<in> set (held_tagged b'')" for k' b'' x
  proof -
    have "(k', b'') \<in> set (obs_buffers s)" using f(2) that(1) by (elim disjE conjE) simp_all
    from at[OF this that(2)] show ?thesis by (rule from_chunk_mono) blast
  qed
  have "from_chunk ?E k' x" if "(k', b'') \<in> set (obs_buffers s')" "x \<in> set (held_tagged b'')" for k' b'' x
  proof (cases "(k', b'') \<in> set (ys @ zs)")
    case True
    thus ?thesis using that(2) by (rule h2)
  next
    case False
    hence "(k', b'') = (k, b')" using that(1) p(2) by (simp split: if_splits)
    thus ?thesis using h1 that(2) by simp
  qed
  hence "attributed ?E s'" unfolding attributed_def by blast
  moreover have "from_chunk ?E (sub_origin sub) x" if "sub \<in> set subs" "x \<in> set (sub_tagged sub)" for sub x
  proof -
    have "x \<in> set (concat (map sub_tagged subs) @ held_tagged b')" using that by auto
    hence "from_chunk ?E k x" unfolding c(1) by (rule src)
    thus ?thesis using kk unfolding c(2)[OF that(1)] by (rule from_chunk_origin)
  qed
  ultimately show ?thesis by blast
qed

lemma attributed_flush:
  assumes "flusher f" "obs_inv s" "attributed E s" "flush_with f s = Some (subs, s')"
  shows "attributed E s' \<and> (\<forall>sub \<in> set subs. \<forall>x \<in> set (sub_tagged sub). from_chunk E (sub_origin sub) x)"
proof -
  from flush_with_correct[OF assms(1,2)]
  obtain subs' s'' where eq: "flush_with f s = Some (subs', s'')"
    and sub: "\<forall>sub \<in> set subs'. sub_ok sub \<and> wb_len (sub_records sub) < max_batch_records (obs_config s) \<and>
           (\<exists>b. (sub_origin sub, b) \<in> set (obs_buffers s) \<and> sub_tagged sub = held_tagged b)"
    and rest: "\<forall>(k, b) \<in> set (obs_buffers s''). (k, b) \<in> set (obs_buffers s) \<or> held_tagged b = []"
    by (elim exE conjE) (rule that)
  have "subs' = subs" "s'' = s'" using eq assms(4) by simp_all
  note sub = sub[unfolded this(1)] and rest = rest[unfolded this(2)]
  have fl: "\<exists>b. (sub_origin sub, b) \<in> set (obs_buffers s) \<and> sub_tagged sub = held_tagged b"
    if "sub \<in> set subs" for sub using bspec[OF sub that] by (elim conjE)
  have fl2: "(k, b) \<in> set (obs_buffers s) \<or> held_tagged b = []" if "(k, b) \<in> set (obs_buffers s')" for k b
    using bspec[OF rest that] by simp
  have at: "from_chunk E k x" if "(k, b) \<in> set (obs_buffers s)" "x \<in> set (held_tagged b)" for k b x
    using assms(3) that unfolding attributed_def by blast
  have "from_chunk E k x" if "(k, b) \<in> set (obs_buffers s')" "x \<in> set (held_tagged b)" for k b x
  proof (rule at[OF _ that(2)])
    show "(k, b) \<in> set (obs_buffers s)" using fl2[OF that(1)] that(2) by (metis empty_iff list.set(1))
  qed
  moreover have "from_chunk E (sub_origin sub) x" if "sub \<in> set subs" "x \<in> set (sub_tagged sub)" for sub x
    using fl[OF that(1)] at that(2) by metis
  ultimately show ?thesis unfolding attributed_def by blast
qed

lemma attributed_mono: "attributed E s \<Longrightarrow> E \<subseteq> E' \<Longrightarrow> attributed E' s"
  unfolding attributed_def by (fastforce intro: from_chunk_mono)

lemma attributed_step:
  assumes "obs_inv s" "attributed E s" "obs_step e s = Some (subs, s')"
  shows "attributed (insert e E) s' \<and>
         (\<forall>sub \<in> set subs. \<forall>x \<in> set (sub_tagged sub). from_chunk (insert e E) (sub_origin sub) x)"
proof (cases e)
  case (PushChunk now origin rs t)
  thus ?thesis using attributed_push[OF assms(1,2)] assms(3) by auto
next
  case (FlushExpired now)
  hence "flush_with (flush_if_expired now) s = Some (subs, s')" using assms(3) by (simp add: flush_expired_def)
  from attributed_flush[OF flusher_expired assms(1,2) this] show ?thesis
    by (auto intro: attributed_mono from_chunk_mono)
next
  case FlushAll
  hence "flush_with flush s = Some (subs, s')" using assms(3) by (simp add: flush_all_def)
  from attributed_flush[OF flusher_flush assms(1,2) this] show ?thesis
    by (auto intro: attributed_mono from_chunk_mono)
qed

lemma attributed_run:
  assumes "obs_inv s" "attributed E s" "run_obs es s = Some (subs, s')" "sub \<in> set subs" "x \<in> set (sub_tagged sub)"
  shows "from_chunk (E \<union> set es) (sub_origin sub) x"
  using assms
proof (induction es arbitrary: s E subs)
  case (Cons e es)
  obtain subs1 s1 subs2 where st: "obs_step e s = Some (subs1, s1)" "run_obs es s1 = Some (subs2, s')"
    "subs = subs1 @ subs2" using Cons.prems(3) by (auto simp: bind_eq_Some_conv)
  note at = attributed_step[OF Cons.prems(1,2) st(1)]
  have "obs_inv s1" using obs_step_correct[OF Cons.prems(1), of e] st(1) by (auto simp: history_ok_def)
  show ?case
  proof (cases "sub \<in> set subs1")
    case True
    hence "from_chunk (insert e E) (sub_origin sub) x" using at Cons.prems(5) by blast
    thus ?thesis by (rule from_chunk_mono) auto
  next
    case False
    hence "sub \<in> set subs2" using Cons.prems(4) st(3) by simp
    from Cons.IH[OF \<open>obs_inv s1\<close> conjunct1[OF at] st(2) this Cons.prems(5)] show ?thesis by simp
  qed
qed simp

section \<open>Properties\<close>

lemma new_origin_buffers_inv:
  "max_batch_records c \<noteq> 0 \<Longrightarrow> obs_inv (new_origin_buffers c)"
  by (simp add: obs_inv_def new_origin_buffers_def)

lemma held_tickets_set: "ob_inv c b \<Longrightarrow> set (held_tickets b) = fst ` set (held_tagged b)"
proof -
  assume inv: "ob_inv c b"
  have "fst ` set (held_tagged b) = set (queue_tags (ob_segments b))"
    using inv by (simp add: held_tagged_def ob_inv_def flip: set_map)
  moreover have "queue_ok q \<Longrightarrow> set (queue_tags q) = fst ` set q" for q
  proof (induction q)
    case (Cons a q)
    thus ?case by (cases a) simp
  qed simp
  ultimately show ?thesis using inv by (simp add: ob_inv_def held_tickets_def)
qed

lemma all_tickets_set: "bufs_ok c bs \<Longrightarrow> set (all_tickets bs) = fst ` set (all_tagged bs)"
proof (induction bs)
  case (Cons kb bs)
  obtain k b where "kb = (k, b)" by fastforce
  thus ?case using Cons held_tickets_set[of c b] by (simp add: image_Un)
qed simp

text \<open>
  C4: The buffers never panic and conserve what enters them: for every history of chunks,
  age flushes and full flushes, the records submitted and the records still buffered,
  each with its ticket, are exactly the records pushed; each non-empty chunk's ticket is
  either still held or completed by exactly one submission; every submission partitions
  its records into ticket segments and respects the batch cap.
\<close>

theorem origin_history_conserved:
  assumes "max_batch_records c \<noteq> 0"
  shows "\<exists>subs s'. run_obs es (new_origin_buffers c) = Some (subs, s') \<and>
           mset (concat (map sub_tagged subs)) + mset (all_tagged (obs_buffers s')) =
             mset (concat (map pushed_records es)) \<and>
           mset (concat (map sub_completed subs)) + mset (all_tickets (obs_buffers s')) =
             mset (concat (map pushed_tickets es)) \<and>
           (\<forall>sub \<in> set subs. sub_ok sub \<and> wb_len (sub_records sub) \<le> max_batch_records c)"
  using run_obs_correct[OF new_origin_buffers_inv[OF assms], of es]
  by (fastforce simp: history_ok_def new_origin_buffers_def)

definition origin_a :: BatchOrigin where
  "origin_a = \<lparr>origin_resource = None, origin_schema_url = ''a''\<rparr>"

definition origin_b :: BatchOrigin where
  "origin_b = \<lparr>origin_resource = None, origin_schema_url = ''b''\<rparr>"

definition sample_history :: "nat origin_event list" where
  "sample_history = [PushChunk 0 origin_a [1, 2] 3, PushChunk 0 origin_b [3] 5, PushChunk 1 origin_a [4, 5, 6] 7]"

theorem origin_history_conserved_witness:
  "\<exists>subs s'. run_obs sample_history (new_origin_buffers \<lparr>max_batch_records = 4, max_batch_age = 10\<rparr>) = Some (subs, s') \<and>
     mset (concat (map sub_tagged subs)) + mset (all_tagged (obs_buffers s')) =
       {#(3, 1), (3, 2), (5, 3), (7, 4), (7, 5), (7, 6)#}"
  using origin_history_conserved[of "\<lparr>max_batch_records = 4, max_batch_age = 10\<rparr>" sample_history]
  by (fastforce simp: sample_history_def)

text \<open>
  C5: A ticket is completed exactly when its last record has left: with one chunk per
  ticket, a ticket that entered has been completed by some submission iff no record of it
  is still buffered, and it is never completed twice.  A chunk split over several batches
  therefore stays open until the batch that carries its final record.
\<close>

theorem ticket_completes_with_last_record:
  assumes "max_batch_records c \<noteq> 0" "run_obs es (new_origin_buffers c) = Some (subs, s')"
    and "distinct (concat (map pushed_tickets es))" "t \<in> set (concat (map pushed_tickets es))"
  shows "(t \<in> set (concat (map sub_completed subs)) \<longleftrightarrow> t \<notin> fst ` set (all_tagged (obs_buffers s'))) \<and>
         count (mset (concat (map sub_completed subs))) t \<le> 1"
proof -
  let ?done = "mset (concat (map sub_completed subs))" and ?held = "mset (all_tickets (obs_buffers s'))"
  have h: "history_ok (new_origin_buffers c) (concat (map pushed_records es)) (concat (map pushed_tickets es)) subs s'"
    using run_obs_correct[OF new_origin_buffers_inv[OF assms(1)], of es] assms(2) by auto
  have "set (all_tickets (obs_buffers s')) = fst ` set (all_tagged (obs_buffers s'))"
    using h by (auto simp: history_ok_def obs_inv_def intro!: all_tickets_set)
  moreover have eq: "?done + ?held = mset (concat (map pushed_tickets es))"
    using h by (simp add: history_ok_def new_origin_buffers_def)
  moreover have "count (mset (concat (map pushed_tickets es))) t = 1"
    using assms(3,4) by (simp add: distinct_count_atmost_1)
  ultimately have c: "count ?done t + count ?held t = 1" by (metis count_union)
  have mem: "t \<in> set (concat (map sub_completed subs)) \<longleftrightarrow> 0 < count ?done t"
    "t \<in> fst ` set (all_tagged (obs_buffers s')) \<longleftrightarrow> 0 < count ?held t"
    using \<open>set (all_tickets _) = _\<close> by (simp_all only: set_mset_mset[symmetric] count_greater_zero_iff)
  show ?thesis unfolding mem using c by presburger
qed

lemma ob_inv_empty: "ob_inv c b \<Longrightarrow> ib_buffer (ob_batcher b) = [] \<Longrightarrow> ob_is_empty b"
  by (cases "ob_segments b") (auto simp: ob_inv_def ob_is_empty_def ib_is_empty_def)

lemma flush_each_empties:
  "bufs_ok c bs \<Longrightarrow> flush_each flush bs = Some (subs, bs') \<Longrightarrow> (k, b) \<in> set bs' \<Longrightarrow> ob_is_empty b"
proof (induction bs arbitrary: subs bs')
  case (Cons kb bs)
  obtain k1 b1 where kb: "kb = (k1, b1)" by fastforce
  have inv: "ob_inv c b1" using Cons.prems(1) kb by simp
  obtain subs1 bs1 where r: "flush_each flush bs = Some (subs1, bs1)"
    using flush_each_correct[OF flusher_flush, of c bs] Cons.prems(1) by auto
  have tl: "ob_is_empty b" if "(k, b) \<in> set bs1" using Cons.IH[OF _ r that] Cons.prems(1) by simp
  show ?case
  proof (cases "ib_buffer (ob_batcher b1) = []")
    case True
    hence "bs' = (k1, b1) # bs1" using Cons.prems(2) kb r by (auto simp: flush_simps)
    thus ?thesis using Cons.prems(3) tl ob_inv_empty[OF inv True] by auto
  next
    case False
    obtain segs where "consume (wb_len (from_vec (ib_buffer (ob_batcher b1)))) (ob_segments b1) = Some (segs, [])"
      using flush_buffer_full[OF inv False] by blast
    hence "bs' = (k1, \<lparr>ob_segments = [], ob_batcher = (ob_batcher b1)\<lparr>ib_buffer := [], ib_deadline := None\<rparr>\<rparr>) # bs1"
      using Cons.prems(2) kb r False by (auto simp: flush_simps)
    thus ?thesis using Cons.prems(3) tl by (auto simp: ob_is_empty_def ib_is_empty_def)
  qed
qed simp

lemma flush_all_empties:
  assumes "obs_inv s" "flush_all s = Some (subs, s')"
  shows "obs_buffers s' = []"
proof -
  obtain bs' where bs': "flush_each flush (obs_buffers s) = Some (subs, bs')" "obs_buffers s' = retain_active bs'"
    using assms(2) by (auto simp: flush_all_def flush_with_def)
  have "bufs_ok (obs_config s) (obs_buffers s)" using assms(1) by (simp add: obs_inv_def)
  from flush_each_empties[OF this bs'(1)] show ?thesis
    using bs'(2) by (auto simp: retain_active_def filter_empty_conv)
qed

lemma flush_all_drains:
  assumes "obs_inv s"
  shows "\<exists>subs s'. flush_all s = Some (subs, s') \<and> obs_buffers s' = [] \<and>
           mset (concat (map sub_tagged subs)) = mset (all_tagged (obs_buffers s)) \<and>
           mset (concat (map sub_completed subs)) = mset (all_tickets (obs_buffers s))"
proof -
  obtain subs s' where f: "flush_with flush s = Some (subs, s')"
    "mset (concat (map sub_tagged subs)) + mset (all_tagged (obs_buffers s')) = mset (all_tagged (obs_buffers s))"
    "mset (concat (map sub_completed subs)) + mset (all_tickets (obs_buffers s')) = mset (all_tickets (obs_buffers s))"
    using flush_with_correct[OF flusher_flush assms] by blast
  moreover have "obs_buffers s' = []" using flush_all_empties[OF assms] f(1) by (simp add: flush_all_def)
  ultimately show ?thesis by (simp add: flush_all_def)
qed

lemma origin_stream_fifo:
  assumes "new_origin_buffer c = Some b" "run_stream buffer_step es b = (subs, b')"
  shows "concat (map sub_tagged subs) @ held_tagged b' = concat (map buffer_records es) \<and>
         concat (map sub_completed subs) @ held_tickets b' = concat (map buffer_tickets es)"
proof -
  have "ob_inv c b" "held_tagged b = []" "held_tickets b = []"
    using assms(1) by (auto simp: new_origin_buffer_def new_batcher_def ob_inv_def ib_inv_def
        held_tagged_def held_tickets_def split: if_splits)
  thus ?thesis
    using origin_records.run_conserves[OF _ assms(2)] origin_tickets.run_conserves[OF _ assms(2)] by simp
qed

lemma submissions_keep_origin:
  assumes "max_batch_records c \<noteq> 0" "run_obs es (new_origin_buffers c) = Some (subs, s')"
    and "sub \<in> set subs" "(t, r) \<in> set (sub_tagged sub)"
  shows "\<exists>now orig rs. PushChunk now orig rs t \<in> set es \<and> r \<in> set rs \<and>
           (orig = sub_origin sub \<or> origin_eq orig (sub_origin sub))"
  using attributed_run[OF new_origin_buffers_inv[OF assms(1)] _ assms(2-4), of "{}"]
  by (simp add: attributed_def new_origin_buffers_def from_chunk_def same_origin_def)

subsection \<open>Witnesses\<close>

text \<open>Two origins, capacity four: the third chunk fills a batch that completes ticket 3 and
  leaves the last record of ticket 7 behind.\<close>

abbreviation sample_config :: InsertBatcherConfig where
  "sample_config \<equiv> \<lparr>max_batch_records = 4, max_batch_age = 10\<rparr>"

definition sample_subs :: "nat Submission list" where
  "sample_subs =
     [\<lparr>sub_origin = origin_a, sub_records = from_vec [1, 2, 4, 5], sub_commit_seqs = [3, 7],
       sub_segments = [\<lparr>seg_commit_seq = 3, seg_records = 2, seg_complete = True\<rparr>,
                       \<lparr>seg_commit_seq = 7, seg_records = 2, seg_complete = False\<rparr>]\<rparr>]"

definition sample_state :: "nat OriginBuffers" where
  "sample_state =
     \<lparr>obs_config = sample_config,
      obs_buffers =
        [(origin_a, \<lparr>ob_segments = [(7, 1)],
            ob_batcher = \<lparr>ib_config = sample_config, ib_buffer = [6], ib_deadline = Some 11\<rparr>\<rparr>),
         (origin_b, \<lparr>ob_segments = [(5, 1)],
            ob_batcher = \<lparr>ib_config = sample_config, ib_buffer = [3], ib_deadline = Some 10\<rparr>\<rparr>)]\<rparr>"

lemma sample_run: "run_obs sample_history (new_origin_buffers sample_config) = Some (sample_subs, sample_state)"
  by (simp add: sample_history_def new_origin_buffers_def obs_push_def new_origin_buffer_def new_batcher_def
      push_buffer_def push_def push_loop.simps fill_def saturating_deadline_exact ob_is_empty_def ib_is_empty_def
      origin_eq_def origin_a_def origin_b_def consume.simps new_submission_def wb_len_def from_vec_def
      sample_subs_def sample_state_def)

theorem ticket_completes_with_last_record_witness:
  "3 \<in> set (concat (map sub_completed sample_subs)) \<and> 7 \<notin> set (concat (map sub_completed sample_subs)) \<and>
   7 \<in> fst ` set (all_tagged (obs_buffers sample_state))"
proof -
  have c: "max_batch_records sample_config \<noteq> 0" by simp
  have d: "distinct (concat (map pushed_tickets sample_history))"
    "t \<in> set (concat (map pushed_tickets sample_history)) \<longleftrightarrow> t \<in> {3, 5, 7}" for t
    by (auto simp: sample_history_def)
  have h: "fst ` set (all_tagged (obs_buffers sample_state)) = {5, 7}"
    by (auto simp: sample_state_def held_tagged_def)
  show ?thesis
    using ticket_completes_with_last_record[OF c sample_run d(1), of 3]
      ticket_completes_with_last_record[OF c sample_run d(1), of 7] d(2) h by simp
qed

definition sample_buffer :: "nat OriginBuffer" where
  "sample_buffer = \<lparr>ob_segments = [], ob_batcher = \<lparr>ib_config = sample_config, ib_buffer = [], ib_deadline = None\<rparr>\<rparr>"

end
