(* ===== verification/Log_Insert.thy ===== *)
theory Log_Insert
  imports Sqlite_Iface Origin_Buffers
begin

text \<open>
  SQL persistence of one write batch (\<open>otel-sqlite-storage/src/command/\<close>): the resource
  fingerprint and upsert of \<open>identity.rs\<close>, the insert loop of \<open>logs.rs\<close> in its strict and
  tolerant modes, and the log preview of \<open>mod.rs\<close>.

  SHA-256 and the text rendering of JSON are parameters (\<open>sha256\<close>, \<open>render\<close>).  The scratch
  buffers of \<open>InsertScratch\<close> are cleared before each use, so each is the value last written.
  Row counts are bounded by the length of an in-memory vector and cannot wrap.
\<close>

section \<open>Helpers of the module\<close>

definition non_empty :: "string \<Rightarrow> string option" where
  "non_empty value = (if value \<noteq> [] then Some value else None)"

definition opt_text :: "string option \<Rightarrow> sqlval" where
  "opt_text v = (case v of Some s \<Rightarrow> SText s | None \<Rightarrow> SNull)"

definition LOG_PREVIEW_CHARS :: nat where
  "LOG_PREVIEW_CHARS = 200"

text \<open>\<open>str::chars\<close> on UTF-8 text, each character as its bytes, and \<open>char::is_control\<close>: the
  code points below 0x20 and from 0x7F to 0x9F.\<close>

definition is_continuation :: "char \<Rightarrow> bool" where
  "is_continuation c \<longleftrightarrow> CHR 0x80 \<le> c \<and> c < CHR 0xC0"

function utf8_chars :: "string \<Rightarrow> string list" where
  "utf8_chars [] = []"
| "utf8_chars (c # cs) = (c # takeWhile is_continuation cs) # utf8_chars (dropWhile is_continuation cs)"
  by pat_completeness auto
termination
  by (relation "measure length") (auto simp: le_imp_less_Suc length_dropWhile_le)

definition is_control :: "string \<Rightarrow> bool" where
  "is_control ch \<longleftrightarrow>
     (case ch of
        [c] \<Rightarrow> c < CHR 0x20 \<or> c = CHR 0x7F
      | [b, c] \<Rightarrow> b = CHR 0xC2 \<and> CHR 0x80 \<le> c \<and> c \<le> CHR 0x9F
      | _ \<Rightarrow> False)"

definition replacement_char :: string where
  "replacement_char = [CHR 0xEF, CHR 0xBF, CHR 0xBD]"

definition sanitized_preview :: "string \<Rightarrow> string" where
  "sanitized_preview value =
     concat (map (\<lambda>c. if is_control c then replacement_char else c)
                 (take LOG_PREVIEW_CHARS (utf8_chars value)))"

section \<open>Resource identity\<close>

definition u64_to_le_bytes :: "u64 \<Rightarrow> u8 list" where
  "u64_to_le_bytes n = map (\<lambda>i. n div 256 ^ i mod 256) [0..<8]"

definition part_bytes :: "string \<Rightarrow> u8 list" where
  "part_bytes part = u64_to_le_bytes (length part) @ map of_char part"

definition fingerprint_preimage :: "string list \<Rightarrow> u8 list" where
  "fingerprint_preimage parts = concat (map part_bytes parts)"

definition fingerprint_into :: "(u8 list \<Rightarrow> u8 list) \<Rightarrow> string list \<Rightarrow> string" where
  "fingerprint_into sha256 parts = hex_encode (sha256 (fingerprint_preimage parts))"

definition resource_parts :: "(json \<Rightarrow> string) \<Rightarrow> Resource \<Rightarrow> string list" where
  "resource_parts render r =
     (let host = non_empty (host_name r);
          schema = non_empty (res_schema_url r)
      in [service_name r, case host of Some h \<Rightarrow> h | None \<Rightarrow> [], case schema of Some s \<Rightarrow> s | None \<Rightarrow> [],
          write_attributes_json_into render (res_attributes r)])"

definition resource_id :: "(u8 list \<Rightarrow> u8 list) \<Rightarrow> (json \<Rightarrow> string) \<Rightarrow> Resource \<Rightarrow> string" where
  "resource_id sha256 render r = fingerprint_into sha256 (resource_parts render r)"

definition resolve_resource ::
  "'w sqlite \<Rightarrow> (u8 list \<Rightarrow> u8 list) \<Rightarrow> (json \<Rightarrow> string) \<Rightarrow> Resource \<Rightarrow> ('w, string) io" where
  "resolve_resource sq sha256 render r =
     (let rid = resource_id sha256 render r
      in io_bind (io_sql (sq_prepare sq SqlInsertResource)) (\<lambda>_.
         io_bind (io_sql (sq_execute sq SqlInsertResource
           [SText rid, SText (service_name r), opt_text (non_empty (host_name r)),
            opt_text (non_empty (res_schema_url r)),
            SText (write_attributes_json_into render (res_attributes r))])) (\<lambda>_.
         io_return rid)))"

section \<open>Inserting a batch\<close>

record SalvageOutcome =
  so_kept :: u64
  so_dropped :: u64
  so_by_ticket :: "u64 \<rightharpoonup> u64 \<times> u64"

definition by_ticket_of :: "SalvageOutcome \<Rightarrow> u64 \<Rightarrow> u64 \<times> u64" where
  "by_ticket_of out t = (case so_by_ticket out t of Some p \<Rightarrow> p | None \<Rightarrow> (0, 0))"

text \<open>The sixteen parameters of one row.\<close>

definition log_row :: "(json \<Rightarrow> string) \<Rightarrow> string \<Rightarrow> LogRecord \<Rightarrow> sqlval list" where
  "log_row render rid r =
     (let body_col = (case body_json r of Some j \<Rightarrow> Some j | None \<Rightarrow> non_empty (body r))
      in [SText rid,
          SInt (time_unix_nano r),
          SInt (observed_time_unix_nano r),
          SInt (int (severity_as_u8 (severity_number r))),
          opt_text (non_empty (severity_text r)),
          if has_trace r then SBlob (trace_id r) else SNull,
          if has_span r then SBlob (span_id r) else SNull,
          opt_text body_col,
          opt_text (non_empty (event_name r)),
          SInt (int (flags r)),
          SInt (int (dropped_attributes_count r)),
          opt_text (non_empty (scope_name (scope r))),
          opt_text (non_empty (scope_version (scope r))),
          SText (scope_attributes_json (scope r)),
          opt_text (non_empty (scope_schema_url (scope r))),
          SText (write_attributes_json_into render (attributes r))])"

text \<open>The counters after one row: \<open>Ok\<close>, or a quarantined row of the tolerant pass.\<close>

definition count_row :: "bool \<Rightarrow> u64 \<Rightarrow> bool \<Rightarrow> SalvageOutcome \<Rightarrow> SalvageOutcome" where
  "count_row tolerant ticket inserted out =
     (let (k, d) = by_ticket_of out ticket
      in if inserted
         then let out' = out\<lparr>so_kept := so_kept out + 1\<rparr>
              in if tolerant \<and> ticket \<noteq> 0
                 then out'\<lparr>so_by_ticket := (so_by_ticket out)(ticket \<mapsto> (k + 1, d))\<rparr> else out'
         else let out' = out\<lparr>so_dropped := so_dropped out + 1\<rparr>
              in if ticket \<noteq> 0
                 then out'\<lparr>so_by_ticket := (so_by_ticket out)(ticket \<mapsto> (k, d + 1))\<rparr> else out')"

fun insert_rows ::
  "'w sqlite \<Rightarrow> (LogRecord \<Rightarrow> sqlval list) \<Rightarrow> bool \<Rightarrow> (LogRecord \<times> u64) list \<Rightarrow> SalvageOutcome \<Rightarrow>
   ('w, SalvageOutcome) io" where
  "insert_rows sq row tolerant [] out w = (Inr out, w)"
| "insert_rows sq row tolerant ((record, ticket) # rest) out w =
     (case sq_execute sq SqlInsertLogEvent (row record) w of
        (Inr _, w') \<Rightarrow> insert_rows sq row tolerant rest (count_row tolerant ticket True out) w'
      | (Inl e, w') \<Rightarrow>
          if tolerant \<and> classify_sqlite e = Poison
          then insert_rows sq row tolerant rest (count_row tolerant ticket False out) w'
          else (Inl (Sqlite e), w'))"

definition empty_outcome :: SalvageOutcome where
  "empty_outcome = \<lparr>so_kept = 0, so_dropped = 0, so_by_ticket = Map.empty\<rparr>"

definition batch_tickets :: "LogWriteBatch \<Rightarrow> u64 list" where
  "batch_tickets b =
     concat (map (\<lambda>s. replicate (seg_records s) (seg_commit_seq s)) (lwb_segments b)) @
     replicate (wb_len (lwb_records b)) 0"

definition batch_resource :: "LogWriteBatch \<Rightarrow> Resource" where
  "batch_resource b =
     (case origin_resource (lwb_origin b) of
        Some r \<Rightarrow> r
      | None \<Rightarrow> \<lparr>res_id = [], res_attributes = [], res_schema_url = origin_schema_url (lwb_origin b)\<rparr>)"

definition insert_logs_inner ::
  "'w sqlite \<Rightarrow> (u8 list \<Rightarrow> u8 list) \<Rightarrow> (json \<Rightarrow> string) \<Rightarrow> LogWriteBatch \<Rightarrow> bool \<Rightarrow> ('w, SalvageOutcome) io" where
  "insert_logs_inner sq sha256 render b tolerant =
     io_bind (resolve_resource sq sha256 render (batch_resource b)) (\<lambda>rid.
     io_bind (io_sql (sq_prepare sq SqlInsertLogEvent)) (\<lambda>_.
       insert_rows sq (log_row render rid) tolerant
         (zip (into_records (lwb_records b)) (batch_tickets b)) empty_outcome))"

definition insert_logs ::
  "'w sqlite \<Rightarrow> (u8 list \<Rightarrow> u8 list) \<Rightarrow> (json \<Rightarrow> string) \<Rightarrow> LogWriteBatch \<Rightarrow> ('w, u64) io" where
  "insert_logs sq sha256 render b =
     io_bind (insert_logs_inner sq sha256 render b False) (\<lambda>out. io_return (so_kept out))"

definition insert_logs_tolerant ::
  "'w sqlite \<Rightarrow> (u8 list \<Rightarrow> u8 list) \<Rightarrow> (json \<Rightarrow> string) \<Rightarrow> LogWriteBatch \<Rightarrow> ('w, SalvageOutcome) io" where
  "insert_logs_tolerant sq sha256 render b = insert_logs_inner sq sha256 render b True"

section \<open>The insert loop\<close>

text \<open>A run of the loop is described by which rows were inserted; \<open>tally\<close> is the counters of
  such a run.\<close>

fun tally :: "bool \<Rightarrow> (u64 \<times> bool) list \<Rightarrow> SalvageOutcome \<Rightarrow> SalvageOutcome" where
  "tally tolerant [] out = out"
| "tally tolerant ((t, inserted) # rest) out = tally tolerant rest (count_row tolerant t inserted out)"

definition kept_rows :: "('r \<times> u64) list \<Rightarrow> bool list \<Rightarrow> ('r \<times> u64) list" where
  "kept_rows rows ok = map fst (filter snd (zip rows ok))"

definition dropped_rows :: "('r \<times> u64) list \<Rightarrow> bool list \<Rightarrow> ('r \<times> u64) list" where
  "dropped_rows rows ok = map fst (filter (\<lambda>p. \<not> snd p) (zip rows ok))"

lemma kept_rows_simps [simp]:
  "kept_rows [] ok = []" "kept_rows rows [] = []"
  "kept_rows (r # rows) (True # ok) = r # kept_rows rows ok"
  "kept_rows (r # rows) (False # ok) = kept_rows rows ok"
  by (simp_all add: kept_rows_def)

lemma dropped_rows_simps [simp]:
  "dropped_rows [] ok = []" "dropped_rows rows [] = []"
  "dropped_rows (r # rows) (True # ok) = dropped_rows rows ok"
  "dropped_rows (r # rows) (False # ok) = r # dropped_rows rows ok"
  by (simp_all add: dropped_rows_def)

lemma kept_rows_all: "list_all id ok \<Longrightarrow> length ok = length rows \<Longrightarrow> kept_rows rows ok = rows"
  by (induction rows ok rule: list_induct2') auto

definition insert_result ::
  "bool \<Rightarrow> (LogRecord \<times> u64) list \<Rightarrow> SalvageOutcome \<Rightarrow> bool list \<Rightarrow> SalvageOutcome \<Rightarrow> bool" where
  "insert_result tolerant rows out ok out' \<longleftrightarrow>
     length ok = length rows \<and> out' = tally tolerant (zip (map snd rows) ok) out \<and> (\<not> tolerant \<longrightarrow> list_all id ok)"

lemma insert_rows_Cons_cases:
  assumes "insert_rows sq row tolerant ((r, t) # rest) out w = res"
  obtains (inserted) n w1 where "sq_execute sq SqlInsertLogEvent (row r) w = (Inr n, w1)"
      "insert_rows sq row tolerant rest (count_row tolerant t True out) w1 = res"
  | (quarantined) e w1 where "sq_execute sq SqlInsertLogEvent (row r) w = (Inl e, w1)"
      "tolerant" "classify_sqlite e = Poison"
      "insert_rows sq row tolerant rest (count_row tolerant t False out) w1 = res"
  | (aborted) e w1 where "sq_execute sq SqlInsertLogEvent (row r) w = (Inl e, w1)"
      "\<not> (tolerant \<and> classify_sqlite e = Poison)" "res = (Inl (Sqlite e), w1)"
  using assms by (auto split: prod.splits sum.splits if_splits)

lemma insert_result_Cons:
  "insert_result tolerant rest (count_row tolerant t inserted out) ok out' \<Longrightarrow> tolerant \<or> inserted \<Longrightarrow>
   insert_result tolerant ((r, t) # rest) out (inserted # ok) out'"
  by (auto simp: insert_result_def)

lemma insert_rows_Inr:
  assumes laws: "sqlite_laws sq visible inside"
    and "insert_rows sq row tolerant rows out w = (Inr out', w')"
  shows "\<exists>ok. insert_result tolerant rows out ok out' \<and> visible w' = visible w \<and>
           inside w' = inside w @ map (\<lambda>(r, t). row r) (kept_rows rows ok)"
  using assms(2)
proof (induction rows arbitrary: out w)
  case Nil
  thus ?case by (auto simp: insert_result_def)
next
  case (Cons p rest)
  obtain r t where p: "p = (r, t)" by fastforce
  from Cons.prems[unfolded p] show ?case
  proof (cases rule: insert_rows_Cons_cases)
    case (inserted n w1)
    obtain ok where ok: "insert_result tolerant rest (count_row tolerant t True out) ok out'"
      "visible w' = visible w1" "inside w' = inside w1 @ map (\<lambda>(r, t). row r) (kept_rows rest ok)"
      using Cons.IH[OF inserted(2)] by (elim exE conjE) (rule that)
    show ?thesis
      using insert_result_Cons[OF ok(1)] ok(2,3) sqlite_lawsD(2)[OF laws inserted(1)] p
      by (intro exI[of _ "True # ok"]) simp
  next
    case (quarantined e w1)
    obtain ok where ok: "insert_result tolerant rest (count_row tolerant t False out) ok out'"
      "visible w' = visible w1" "inside w' = inside w1 @ map (\<lambda>(r, t). row r) (kept_rows rest ok)"
      using Cons.IH[OF quarantined(4)] by (elim exE conjE) (rule that)
    show ?thesis
      using insert_result_Cons[OF ok(1)] ok(2,3) sqlite_lawsD(3)[OF laws quarantined(1)] p quarantined(2)
      by (intro exI[of _ "False # ok"]) simp
  qed simp
qed

lemma insert_rows_visible:
  assumes laws: "sqlite_laws sq visible inside"
    and "insert_rows sq row tolerant rows out w = (res, w')"
  shows "visible w' = visible w"
  using assms(2)
proof (induction rows arbitrary: out w)
  case (Cons p rest)
  obtain r t where p: "p = (r, t)" by fastforce
  from Cons.prems[unfolded p] show ?case
  proof (cases rule: insert_rows_Cons_cases)
    case (inserted n w1)
    thus ?thesis using Cons.IH[OF inserted(2)] sqlite_lawsD(2)[OF laws inserted(1)] by simp
  next
    case (quarantined e w1)
    thus ?thesis using Cons.IH[OF quarantined(4)] sqlite_lawsD(3)[OF laws quarantined(1)] by simp
  next
    case (aborted e w1)
    thus ?thesis using sqlite_lawsD(3)[OF laws aborted(1)] by simp
  qed
qed simp

text \<open>The counters of a run.\<close>

abbreviation ticket_count :: "u64 \<Rightarrow> bool \<Rightarrow> (u64 \<times> bool) list \<Rightarrow> nat" where
  "ticket_count t inserted runs \<equiv> count_list runs (t, inserted)"

lemma by_ticket_count_row:
  "by_ticket_of (count_row tolerant t inserted out) u =
     (let (k, d) = by_ticket_of out u
      in if u = t \<and> t \<noteq> 0 \<and> inserted \<and> tolerant then (k + 1, d)
         else if u = t \<and> t \<noteq> 0 \<and> \<not> inserted then (k, d + 1) else (k, d))"
  by (auto simp: count_row_def by_ticket_of_def Let_def split: prod.splits option.splits)

lemma tally_totals:
  "so_kept (tally tolerant runs out) = so_kept out + length (filter snd runs) \<and>
   so_dropped (tally tolerant runs out) = so_dropped out + length (filter (\<lambda>p. \<not> snd p) runs)"
  by (induction tolerant runs out rule: tally.induct)
    (auto simp: count_row_def Let_def split: prod.splits)

lemma tally_by_ticket:
  "u \<noteq> 0 \<Longrightarrow> by_ticket_of (tally True runs out) u =
     (fst (by_ticket_of out u) + ticket_count u True runs, snd (by_ticket_of out u) + ticket_count u False runs)"
  by (induction runs arbitrary: out) (auto simp: by_ticket_count_row Let_def split: prod.splits)

lemma tally_strict_by_ticket:
  "list_all id (map snd runs) \<Longrightarrow> so_by_ticket (tally False runs out) = so_by_ticket out"
  by (induction runs arbitrary: out) (auto simp: count_row_def Let_def split: prod.splits)

definition batch_rows :: "LogWriteBatch \<Rightarrow> (LogRecord \<times> u64) list" where
  "batch_rows b = zip (into_records (lwb_records b)) (batch_tickets b)"

definition row_of :: "(u8 list \<Rightarrow> u8 list) \<Rightarrow> (json \<Rightarrow> string) \<Rightarrow> LogWriteBatch \<Rightarrow> LogRecord \<Rightarrow> sqlval list" where
  "row_of sha256 render b = log_row render (resource_id sha256 render (batch_resource b))"

lemma length_batch_rows [simp]: "length (batch_rows b) = wb_len (lwb_records b)"
  by (simp add: batch_rows_def batch_tickets_def into_records_def wb_len_def)

lemma map_fst_batch_rows: "map fst (batch_rows b) = wb_records (lwb_records b)"
  by (simp add: batch_rows_def batch_tickets_def into_records_def wb_len_def map_fst_zip_take)

lemma map_batch_rows: "map (\<lambda>(r, t). f r) (batch_rows b) = map f (wb_records (lwb_records b))"
  unfolding map_fst_batch_rows[symmetric] map_map comp_def case_prod_unfold by (rule refl)

text \<open>When the segments partition the batch, each row is counted under its segment's ticket.\<close>

lemma map_snd_batch_rows:
  "length (segment_tags (lwb_segments b)) = wb_len (lwb_records b) \<Longrightarrow>
   map snd (batch_rows b) = segment_tags (lwb_segments b)"
  by (simp add: batch_rows_def batch_tickets_def into_records_def wb_len_def segment_tags_def
      map_snd_zip_take)

lemma resolve_resource_frame:
  assumes "sqlite_laws sq visible inside" "resolve_resource sq sha256 render r w = (res, w')"
  shows "visible w' = visible w \<and> inside w' = inside w"
    and "res = Inr rid \<Longrightarrow> rid = resource_id sha256 render r"
  using assms(2) sqlite_lawsD(4,5)[OF assms(1)]
  by (auto simp: resolve_resource_def Let_def io_bind_def io_sql_def io_return_def
      split: prod.splits sum.splits)

lemma insert_logs_inner_cases:
  assumes laws: "sqlite_laws sq visible inside"
    and run: "insert_logs_inner sq sha256 render b tolerant w = (res, w')"
  obtains (aborted) e where "res = Inl e" "visible w' = visible w"
  | (loop) w1 where "visible w1 = visible w" "inside w1 = inside w"
      "insert_rows sq (row_of sha256 render b) tolerant (batch_rows b) empty_outcome w1 = (res, w')"
proof -
  obtain r1 w1 where r1: "resolve_resource sq sha256 render (batch_resource b) w = (r1, w1)" by fastforce
  obtain r2 w2 where r2: "sq_prepare sq SqlInsertLogEvent w1 = (r2, w2)" by fastforce
  note frame = resolve_resource_frame[OF laws r1] sqlite_lawsD(5)[OF laws r2]
  show ?thesis
  proof (cases r1)
    case (Inl e)
    thus ?thesis using run r1 frame(1) by (intro aborted) (auto simp: insert_logs_inner_def io_bind_def)
  next
    case rid: (Inr rid)
    show ?thesis
    proof (cases r2)
      case (Inl e)
      thus ?thesis using run r1 r2 rid frame
        by (intro aborted) (auto simp: insert_logs_inner_def io_bind_def io_sql_def)
    next
      case (Inr u)
      have "insert_rows sq (row_of sha256 render b) tolerant (batch_rows b) empty_outcome w2 = (res, w')"
        using run r1 r2 rid Inr frame(2)[OF rid]
        by (simp add: insert_logs_inner_def io_bind_def io_sql_def row_of_def batch_rows_def)
      thus ?thesis using frame(1,3) by (intro loop[of w2]) simp_all
    qed
  qed
qed

lemma insert_logs_inner_visible:
  assumes "sqlite_laws sq visible inside" "insert_logs_inner sq sha256 render b tolerant w = (res, w')"
  shows "visible w' = visible w"
  using assms(2)
  by (rule insert_logs_inner_cases[OF assms(1)]) (simp_all add: insert_rows_visible[OF assms(1)])

lemma insert_logs_visible:
  assumes "sqlite_laws sq visible inside" "insert_logs sq sha256 render b w = (res, w')"
  shows "visible w' = visible w"
  using assms(2) insert_logs_inner_visible[OF assms(1)]
  by (auto simp: insert_logs_def io_bind_def split: prod.splits sum.splits)

lemma insert_logs_inner_Inr:
  assumes "sqlite_laws sq visible inside" "insert_logs_inner sq sha256 render b tolerant w = (Inr out, w')"
  shows "\<exists>ok. insert_result tolerant (batch_rows b) empty_outcome ok out \<and>
           inside w' = inside w @ map (\<lambda>(r, t). row_of sha256 render b r) (kept_rows (batch_rows b) ok)"
  using assms(2)
proof (rule insert_logs_inner_cases[OF assms(1)])
  fix w1
  assume "inside w1 = inside w"
    "insert_rows sq (row_of sha256 render b) tolerant (batch_rows b) empty_outcome w1 = (Inr out, w')"
  thus ?thesis using insert_rows_Inr[OF assms(1), of "row_of sha256 render b"] by fastforce
qed simp

section \<open>The fingerprint preimage\<close>

fun le_value :: "u8 list \<Rightarrow> nat" where
  "le_value [] = 0"
| "le_value (b # bs) = b + 256 * le_value bs"

lemma le_value_digits: "le_value (map (\<lambda>i. n div 256 ^ i mod 256) [0..<k]) = n mod 256 ^ k"
proof (induction k arbitrary: n)
  case (Suc k)
  have "map (\<lambda>i. n div 256 ^ i mod 256) [0..<Suc k] =
          n mod 256 # map (\<lambda>i. (n div 256) div 256 ^ i mod 256) [0..<k]"
    by (simp add: upt_conv_Cons map_Suc_upt[symmetric] comp_def div_mult2_eq del: upt_Suc)
  thus ?case by (simp add: Suc.IH mod_mult2_eq del: upt_Suc)
qed simp

lemma u64_to_le_bytes_inj:
  assumes "u64_to_le_bytes m = u64_to_le_bytes n" "m \<le> U64_MAX" "n \<le> U64_MAX"
  shows "m = n"
proof -
  have "m mod 256 ^ 8 = n mod 256 ^ 8"
    using assms(1) unfolding u64_to_le_bytes_def by (metis le_value_digits)
  thus ?thesis using assms(2,3) by simp
qed

lemma part_bytes_append:
  assumes "part_bytes p @ xs = part_bytes q @ ys" "length p \<le> U64_MAX" "length q \<le> U64_MAX"
  shows "p = q \<and> xs = ys"
proof -
  have len8: "length (u64_to_le_bytes n) = 8" for n by (simp add: u64_to_le_bytes_def)
  have eq: "u64_to_le_bytes (length p) = u64_to_le_bytes (length q)"
    "map of_char p @ xs = (map of_char q @ ys :: nat list)"
    using assms(1) len8 by (simp_all add: part_bytes_def append_eq_append_conv)
  have "length p = length q" using u64_to_le_bytes_inj[OF eq(1) assms(2,3)] .
  hence "map of_char p = (map of_char q :: nat list) \<and> xs = ys" using eq(2) by simp
  thus ?thesis using inj_map_eq_map[of "of_char :: char \<Rightarrow> nat"] by (simp add: inj_def)
qed

lemma fingerprint_preimage_inj:
  assumes "fingerprint_preimage ps = fingerprint_preimage qs" "length ps = length qs"
    and "\<forall>p \<in> set ps \<union> set qs. length p \<le> U64_MAX"
  shows "ps = qs"
  using assms(2,1,3)
proof (induction ps qs rule: list_induct2)
  case (Cons p ps q qs)
  have "p = q \<and> fingerprint_preimage ps = fingerprint_preimage qs"
    using Cons.prems by (intro part_bytes_append) (simp_all add: fingerprint_preimage_def)
  thus ?case using Cons.IH Cons.prems(2) by simp
qed simp

section \<open>Characters\<close>

definition is_char :: "string \<Rightarrow> bool" where
  "is_char ch \<longleftrightarrow> ch \<noteq> [] \<and> \<not> is_continuation (hd ch) \<and> list_all is_continuation (tl ch)"

lemma utf8_chars_are_chars:
  "s = [] \<or> \<not> is_continuation (hd s) \<Longrightarrow> list_all is_char (utf8_chars s)"
proof (induction s rule: utf8_chars.induct)
  case (2 c cs)
  have "dropWhile is_continuation cs = [] \<or> \<not> is_continuation (hd (dropWhile is_continuation cs))"
    using hd_dropWhile by blast
  thus ?case using 2 by (auto simp: is_char_def list_all_iff dest: set_takeWhileD)
qed simp

lemma takeWhile_char:
  assumes "list_all is_char chs" "list_all is_continuation cs"
  shows "takeWhile is_continuation (cs @ concat chs) = cs \<and> dropWhile is_continuation (cs @ concat chs) = concat chs"
proof (cases chs)
  case Nil
  thus ?thesis using assms(2) by (auto simp: list_all_iff takeWhile_eq_all_conv)
next
  case (Cons ch rest)
  then obtain c ds where "ch = c # ds" "\<not> is_continuation c"
    using assms(1) by (cases ch) (auto simp: is_char_def)
  thus ?thesis using assms(2) Cons
    by (auto simp: list_all_iff takeWhile_append dropWhile_append takeWhile_eq_all_conv)
qed

lemma utf8_chars_concat: "list_all is_char chs \<Longrightarrow> utf8_chars (concat chs) = chs"
proof (induction chs)
  case (Cons ch chs)
  obtain c cs where "ch = c # cs" "list_all is_continuation cs"
    using Cons.prems by (cases ch) (auto simp: is_char_def)
  thus ?case using takeWhile_char[of chs cs] Cons by simp
qed simp

lemma replacement_char_facts: "is_char replacement_char" "\<not> is_control replacement_char"
  by (simp_all add: is_char_def replacement_char_def is_continuation_def is_control_def less_eq_char_def less_char_def)

section \<open>Properties\<close>

lemma length_kept_rows:
  "length ok = length rows \<Longrightarrow> length (filter snd (zip (map snd rows) ok)) = length (kept_rows rows ok)"
  "length ok = length rows \<Longrightarrow> length (filter (\<lambda>p. \<not> snd p) (zip (map snd rows) ok)) = length (dropped_rows rows ok)"
  "length ok = length rows \<Longrightarrow> length (kept_rows rows ok) + length (dropped_rows rows ok) = length rows"
  by (induction ok rows rule: list_induct2) (auto simp: kept_rows_def dropped_rows_def)

lemma ticket_count_rows:
  "length ok = length rows \<Longrightarrow>
   ticket_count t True (zip (map snd rows) ok) = length (filter (\<lambda>p. snd p = t) (kept_rows rows ok))"
  "length ok = length rows \<Longrightarrow>
   ticket_count t False (zip (map snd rows) ok) = length (filter (\<lambda>p. snd p = t) (dropped_rows rows ok))"
  by (induction ok rows rule: list_induct2) (auto simp: kept_rows_def dropped_rows_def)

text \<open>A salvage pass that returns accounts for every row.\<close>

lemma tolerant_insert_accounts:
  assumes "sqlite_laws sq visible inside"
    and "insert_logs_tolerant sq sha256 render b w = (Inr out, w')"
  shows "\<exists>ok. length ok = wb_len (lwb_records b) \<and>
           inside w' = inside w @ map (\<lambda>(r, t). row_of sha256 render b r) (kept_rows (batch_rows b) ok) \<and>
           so_kept out = length (kept_rows (batch_rows b) ok) \<and>
           so_dropped out = length (dropped_rows (batch_rows b) ok) \<and>
           so_kept out + so_dropped out = wb_len (lwb_records b) \<and>
           (\<forall>t. t \<noteq> 0 \<longrightarrow> by_ticket_of out t =
              (length (filter (\<lambda>p. snd p = t) (kept_rows (batch_rows b) ok)),
               length (filter (\<lambda>p. snd p = t) (dropped_rows (batch_rows b) ok))))"
proof -
  obtain ok where ok: "insert_result True (batch_rows b) empty_outcome ok out"
    "inside w' = inside w @ map (\<lambda>(r, t). row_of sha256 render b r) (kept_rows (batch_rows b) ok)"
    using insert_logs_inner_Inr[OF assms(1) assms(2)[unfolded insert_logs_tolerant_def]] by blast
  hence len: "length ok = length (batch_rows b)"
    and out: "out = tally True (zip (map snd (batch_rows b)) ok) empty_outcome"
    by (auto simp: insert_result_def)
  have "by_ticket_of empty_outcome t = (0, 0)" for t by (simp add: by_ticket_of_def empty_outcome_def)
  thus ?thesis
    using ok(2) len tally_totals[of True "zip (map snd (batch_rows b)) ok" empty_outcome]
      length_kept_rows[OF len] ticket_count_rows[OF len]
    unfolding out by (intro exI[of _ ok]) (simp add: tally_by_ticket empty_outcome_def)
qed

text \<open>A strict pass that returns has inserted every record, in order.\<close>

lemma strict_insert_complete:
  assumes "sqlite_laws sq visible inside" "insert_logs sq sha256 render b w = (Inr n, w')"
  shows "n = wb_len (lwb_records b) \<and>
         inside w' = inside w @ map (row_of sha256 render b) (wb_records (lwb_records b))"
proof -
  obtain out where run: "insert_logs_inner sq sha256 render b False w = (Inr out, w')" and n: "n = so_kept out"
    using assms(2) by (auto simp: insert_logs_def io_bind_Inr_iff)
  obtain ok where ok: "insert_result False (batch_rows b) empty_outcome ok out"
    "inside w' = inside w @ map (\<lambda>(r, t). row_of sha256 render b r) (kept_rows (batch_rows b) ok)"
    using insert_logs_inner_Inr[OF assms(1) run] by blast
  hence all: "list_all id ok" "length ok = length (batch_rows b)"
    and out: "out = tally False (zip (map snd (batch_rows b)) ok) empty_outcome"
    by (auto simp: insert_result_def)
  note kept = kept_rows_all[OF all]
  show ?thesis
    using ok(2) n tally_totals[of False "zip (map snd (batch_rows b)) ok" empty_outcome]
      length_kept_rows(1)[OF all(2)] kept
    unfolding out by (simp add: empty_outcome_def map_batch_rows)
qed

lemma fingerprint_preimage_unambiguous:
  assumes "length ps = length qs" "\<forall>p \<in> set ps \<union> set qs. length p \<le> U64_MAX"
  shows "fingerprint_preimage ps = fingerprint_preimage qs \<longleftrightarrow> ps = qs"
  using fingerprint_preimage_inj[OF _ assms] by blast

lemma resource_id_identifies:
  assumes "\<And>x. list_all (\<lambda>b. b < 256) (sha256 x)"
    and "\<forall>p \<in> set (resource_parts render r) \<union> set (resource_parts render r'). length p \<le> U64_MAX"
  shows "((\<forall>k. last_attr (res_attributes r) k = last_attr (res_attributes r') k) \<and>
           res_schema_url r = res_schema_url r' \<longrightarrow> resource_id sha256 render r = resource_id sha256 render r') \<and>
         (resource_id sha256 render r = resource_id sha256 render r' \<longrightarrow>
           resource_parts render r = resource_parts render r' \<or>
           (let x = fingerprint_preimage (resource_parts render r);
                y = fingerprint_preimage (resource_parts render r')
            in x \<noteq> y \<and> sha256 x = sha256 y))"
proof (intro conjI impI)
  assume same: "(\<forall>k. last_attr (res_attributes r) k = last_attr (res_attributes r') k) \<and>
           res_schema_url r = res_schema_url r'"
  hence "resource_get r k = resource_get r' k" for k by (simp add: resource_get_def last_attr_def)
  moreover have "attributes_json (res_attributes r) = attributes_json (res_attributes r')"
    using same by (intro attributes_json_cong) blast
  ultimately have "resource_parts render r = resource_parts render r'"
    using same by (simp add: resource_parts_def service_name_def host_name_def str_attribute_def
        write_attributes_json_into_def)
  thus "resource_id sha256 render r = resource_id sha256 render r'" by (simp add: resource_id_def)
next
  let ?x = "fingerprint_preimage (resource_parts render r)"
  let ?y = "fingerprint_preimage (resource_parts render r')"
  assume "resource_id sha256 render r = resource_id sha256 render r'"
  hence "hex_decode (hex_encode (sha256 ?x)) = hex_decode (hex_encode (sha256 ?y))"
    by (simp add: resource_id_def fingerprint_into_def)
  hence "sha256 ?x = sha256 ?y" using assms(1) by (simp add: hex_decode_encode list_all_iff)
  moreover have "length (resource_parts render r) = length (resource_parts render r')"
    by (simp add: resource_parts_def Let_def)
  ultimately show "resource_parts render r = resource_parts render r' \<or>
           (let x = ?x; y = ?y in x \<noteq> y \<and> sha256 x = sha256 y)"
    using fingerprint_preimage_inj[OF _ _ assms(2)] by (auto simp: Let_def)
qed

lemma sanitized_preview_safe:
  assumes "value = [] \<or> \<not> is_continuation (hd value)"
  shows "length (utf8_chars (sanitized_preview value)) = min 200 (length (utf8_chars value)) \<and>
         list_all (\<lambda>c. \<not> is_control c) (utf8_chars (sanitized_preview value))"
proof -
  define chs where "chs = map (\<lambda>c. if is_control c then replacement_char else c)
                              (take LOG_PREVIEW_CHARS (utf8_chars value))"
  have "list_all is_char (take LOG_PREVIEW_CHARS (utf8_chars value))"
    using utf8_chars_are_chars[OF assms] by (auto simp: list_all_iff dest: in_set_takeD)
  hence "list_all is_char chs" "list_all (\<lambda>c. \<not> is_control c) chs"
    by (auto simp: chs_def list_all_iff replacement_char_facts)
  moreover have "sanitized_preview value = concat chs" by (simp add: sanitized_preview_def chs_def)
  ultimately show ?thesis
    by (simp add: utf8_chars_concat) (simp add: chs_def LOG_PREVIEW_CHARS_def)
qed

subsection \<open>Witnesses\<close>

text \<open>A stand-in digest and renderer, and a batch of three records over two tickets whose
  second record the sample database rejects.\<close>

definition sample_sha :: "u8 list \<Rightarrow> u8 list" where
  "sample_sha bytes = [sum_list bytes mod 256, length bytes mod 256]"

definition sample_render :: "json \<Rightarrow> string" where
  "sample_render j = (case j of JObject [] \<Rightarrow> ''{}'' | _ \<Rightarrow> ''{..}'')"

definition sample_log :: "int \<Rightarrow> LogRecord" where
  "sample_log t = (default_record sample_render)\<lparr>time_unix_nano := t\<rparr>"

definition sample_batch :: LogWriteBatch where
  "sample_batch =
     \<lparr>lwb_origin = origin_a, lwb_records = from_vec [sample_log 5, sample_log 0, sample_log 7],
      lwb_commit_seqs = [3, 4],
      lwb_segments = [\<lparr>seg_commit_seq = 3, seg_records = 2, seg_complete = True\<rparr>,
                      \<lparr>seg_commit_seq = 4, seg_records = 1, seg_complete = True\<rparr>]\<rparr>"

definition healthy_batch :: LogWriteBatch where
  "healthy_batch = sample_batch\<lparr>lwb_records := from_vec [sample_log 5, sample_log 6, sample_log 7]\<rparr>"

lemma timestamp_log_row [simp]: "timestamp_of (log_row render rid r) = time_unix_nano r"
  by (simp add: timestamp_of_def log_row_def Let_def)

lemma time_sample_log [simp]: "time_unix_nano (sample_log t) = t"
  by (simp add: sample_log_def)

lemma sample_resolve:
  "resolve_resource sample_sqlite sha256 render r w = (Inr (resource_id sha256 render r), w)"
  by (cases w) (simp add: resolve_resource_def Let_def io_bind_def io_sql_def sample_sqlite_def sample_execute_def)

lemma sample_insert_inner:
  "insert_logs_inner sample_sqlite sha256 render b tolerant w =
   insert_rows sample_sqlite (row_of sha256 render b) tolerant (batch_rows b) empty_outcome w"
  by (cases w) (simp add: insert_logs_inner_def io_bind_def io_sql_def sample_resolve row_of_def batch_rows_def,
      simp add: sample_sqlite_def)

lemma sample_insert_row:
  "sq_execute sample_sqlite SqlInsertLogEvent (row_of sha256 render b r) (c, p) =
     (if time_unix_nano r = 0 then (Inl (SqliteFailure ConstraintViolation), (c, p))
      else (Inr 1, (c, p @ [row_of sha256 render b r])))"
  by (simp add: sample_sqlite_def sample_execute_def row_of_def)

lemma sample_rows:
  "batch_rows sample_batch = [(sample_log 5, 3), (sample_log 0, 3), (sample_log 7, 4)]"
  "batch_rows healthy_batch = [(sample_log 5, 3), (sample_log 6, 3), (sample_log 7, 4)]"
  by (simp_all add: batch_rows_def batch_tickets_def sample_batch_def healthy_batch_def from_vec_def
      into_records_def wb_len_def numeral_2_eq_2)

lemmas sample_run = sample_insert_inner sample_insert_row sample_rows insert_logs_tolerant_def insert_logs_def
  io_bind_def count_row_def empty_outcome_def by_ticket_of_def

lemma sample_tolerant_run:
  "\<exists>out w'. insert_logs_tolerant sample_sqlite sample_sha sample_render sample_batch ([], []) = (Inr out, w') \<and>
     so_kept out = 2"
  by (simp add: sample_run)

lemma sample_strict_run:
  "\<exists>n w'. insert_logs sample_sqlite sample_sha sample_render healthy_batch ([], []) = (Inr n, w')"
  by (simp add: sample_run)

definition sample_resource :: "Attribute list \<Rightarrow> Resource" where
  "sample_resource attrs = \<lparr>res_id = [], res_attributes = attrs, res_schema_url = ''s''\<rparr>"

end
