(* ===== verification/Maintenance_Ops.thy ===== *)
theory Maintenance_Ops
  imports Sqlite_Iface
begin

text \<open>
  Database maintenance (\<open>otel-sqlite-storage/src/maintenance.rs\<close>): checkpoints, analysis,
  vacuuming, retention pruning, the search-index rebuild and the size quota.

  The database path is part of the world: file sizes are read with \<open>sq_file_size\<close> and
  \<open>sq_wal_size\<close>.  \<open>SqlDropFts\<close>, \<open>SqlCreateFts\<close> and \<open>SqlPopulateFts\<close> are the three texts of
  \<open>rebuild_fts\<close>; \<open>SqlIncrementalVacuum\<close> is prepared and stepped until done.
\<close>

section \<open>Operations\<close>

text \<open>\<open>let tx = conn.transaction()?; ...; tx.commit()?\<close>: an early return drops the
  transaction, which rolls it back.\<close>

definition in_transaction :: "'w sqlite \<Rightarrow> ('w, 'a) io \<Rightarrow> ('w, 'a) io" where
  "in_transaction sq work w =
     (case sq_begin sq w of
        (Inl e, w1) \<Rightarrow> (Inl (Sqlite e), w1)
      | (Inr _, w1) \<Rightarrow>
          (case work w1 of
             (Inl e, w2) \<Rightarrow> (Inl e, sq_rollback sq w2)
           | (Inr a, w2) \<Rightarrow>
               (case sq_commit sq w2 of
                  (Inl e, w3) \<Rightarrow> (Inl (Sqlite e), sq_rollback sq w3)
                | (Inr _, w3) \<Rightarrow> (Inr a, w3))))"

definition execute_batch :: "'w sqlite \<Rightarrow> Sql \<Rightarrow> ('w, unit) io" where
  "execute_batch sq sql = io_bind (io_sql (sq_execute sq sql [])) (\<lambda>_. io_return ())"

definition checkpoint :: "'w sqlite \<Rightarrow> CheckpointMode \<Rightarrow> ('w, unit) io" where
  "checkpoint sq mode = execute_batch sq (SqlCheckpoint mode)"

definition PRUNE_BATCH_ROWS :: usize where
  "PRUNE_BATCH_ROWS = 5000"

definition analyze :: "'w sqlite \<Rightarrow> ('w, unit) io" where
  "analyze sq = execute_batch sq SqlAnalyze"

definition INCREMENTAL_AUTO_VACUUM :: i64 where
  "INCREMENTAL_AUTO_VACUUM = 2"

definition auto_vacuum_mode :: "'w sqlite \<Rightarrow> 'w \<Rightarrow> i64 \<times> 'w" where
  "auto_vacuum_mode sq w =
     (case sq_query_int sq SqlAutoVacuum w of (Inr m, w') \<Rightarrow> (m, w') | (Inl _, w') \<Rightarrow> (0, w'))"

definition convert_to_incremental_vacuum :: "'w sqlite \<Rightarrow> ('w, unit) io" where
  "convert_to_incremental_vacuum sq = execute_batch sq SqlConvertVacuum"

definition incremental_vacuum :: "'w sqlite \<Rightarrow> ('w, unit) io" where
  "incremental_vacuum sq = execute_batch sq SqlIncrementalVacuum"

definition vacuum :: "'w sqlite \<Rightarrow> ('w, unit) io" where
  "vacuum sq w =
     (case auto_vacuum_mode sq w of (mode, w1) \<Rightarrow>
        if mode = INCREMENTAL_AUTO_VACUUM then incremental_vacuum sq w1
        else convert_to_incremental_vacuum sq w1)"

record PruneReport =
  pr_log_events :: usize
  pr_resources :: usize

definition pr_total :: "PruneReport \<Rightarrow> usize" where
  "pr_total r = pr_log_events r"

definition dimensions_removed :: "PruneReport \<Rightarrow> usize" where
  "dimensions_removed r = pr_resources r"

text \<open>\<open>i64::saturating_sub\<close>.\<close>

definition i64_saturating_sub :: "i64 \<Rightarrow> i64 \<Rightarrow> i64" where
  "i64_saturating_sub a b = max I64_MIN (min I64_MAX (a - b))"

definition retention_cutoff :: "i64 \<Rightarrow> duration \<Rightarrow> i64" where
  "retention_cutoff now_unix_nano window =
     i64_saturating_sub now_unix_nano (if int window \<le> I64_MAX then int window else I64_MAX)"

definition prune_batch :: "'w sqlite \<Rightarrow> i64 \<Rightarrow> ('w, usize) io" where
  "prune_batch sq cutoff =
     in_transaction sq (io_sql (sq_execute sq SqlDeleteExpired [SInt cutoff, SInt (int PRUNE_BATCH_ROWS)]))"

partial_function (option) prune_loop ::
  "'w sqlite \<Rightarrow> i64 \<Rightarrow> usize \<Rightarrow> 'w \<Rightarrow> ((StorageError + usize) \<times> 'w) option" where
  "prune_loop sq cutoff log_events w =
     (case prune_batch sq cutoff w of
        (Inl e, w1) \<Rightarrow> Some (Inl e, w1)
      | (Inr deleted, w1) \<Rightarrow>
          if deleted < PRUNE_BATCH_ROWS then Some (Inr (log_events + deleted), w1)
          else prune_loop sq cutoff (log_events + deleted) w1)"

definition collect_orphan_dimensions :: "'w sqlite \<Rightarrow> PruneReport \<Rightarrow> ('w, PruneReport) io" where
  "collect_orphan_dimensions sq report =
     io_bind (io_sql (sq_execute sq SqlDeleteOrphans [])) (\<lambda>n. io_return (report\<lparr>pr_resources := n\<rparr>))"

definition prune_sweep :: "'w sqlite \<Rightarrow> PruneReport \<Rightarrow> ('w, PruneReport) io" where
  "prune_sweep sq report =
     (if pr_total report > 0 then in_transaction sq (collect_orphan_dimensions sq report)
      else io_return report)"

definition prune ::
  "'w sqlite \<Rightarrow> duration option \<Rightarrow> i64 \<Rightarrow> 'w \<Rightarrow> ((StorageError + PruneReport) \<times> 'w) option" where
  "prune sq window now_unix_nano w =
     map_option
       (\<lambda>(r, w1). case r of
           Inl e \<Rightarrow> (Inl e, w1)
         | Inr n \<Rightarrow> prune_sweep sq \<lparr>pr_log_events = n, pr_resources = 0\<rparr> w1)
       (case window of
          None \<Rightarrow> Some (Inr 0, w)
        | Some d \<Rightarrow> prune_loop sq (retention_cutoff now_unix_nano d) 0 w)"

definition rebuild_fts :: "'w sqlite \<Rightarrow> ('w, usize) io" where
  "rebuild_fts sq =
     in_transaction sq
       (io_bind (execute_batch sq SqlDropFts) (\<lambda>_.
        io_bind (execute_batch sq SqlCreateFts) (\<lambda>_.
        io_sql (sq_execute sq SqlPopulateFts []))))"

section \<open>The size quota\<close>

record QuotaReport =
  qr_log_events :: usize
  qr_bytes_before :: u64
  qr_bytes_after :: u64

definition MAX_QUOTA_ROUNDS :: nat where
  "MAX_QUOTA_ROUNDS = 8"

definition try_checkpoint_truncate :: "'w sqlite \<Rightarrow> 'w \<Rightarrow> bool \<times> 'w" where
  "try_checkpoint_truncate sq w =
     (case checkpoint sq Truncate w of (Inr _, w') \<Rightarrow> (True, w') | (Inl _, w') \<Rightarrow> (False, w'))"

definition file_size :: "'w sqlite \<Rightarrow> 'w \<Rightarrow> u64" where
  "file_size sq w = (case sq_file_size sq w of Some n \<Rightarrow> n | None \<Rightarrow> 0)"

definition wal_file_size :: "'w sqlite \<Rightarrow> 'w \<Rightarrow> u64" where
  "wal_file_size sq w = (case sq_wal_size sq w of Some n \<Rightarrow> n | None \<Rightarrow> 0)"

definition database_bytes :: "'w sqlite \<Rightarrow> 'w \<Rightarrow> u64" where
  "database_bytes sq w = saturating_add (file_size sq w) (wal_file_size sq w)"

definition prune_oldest_batch :: "'w sqlite \<Rightarrow> ('w, usize) io" where
  "prune_oldest_batch sq =
     in_transaction sq (io_sql (sq_execute sq SqlDeleteOldest [SInt (int PRUNE_BATCH_ROWS)]))"

text \<open>The body of the eviction loop after a batch was deleted: fold the WAL, reclaim pages,
  fold again.  \<open>Inr False\<close> is a \<open>break\<close>.\<close>

definition reclaim :: "'w sqlite \<Rightarrow> ('w, bool) io" where
  "reclaim sq w =
     (case try_checkpoint_truncate sq w of
        (False, w1) \<Rightarrow> (Inr False, w1)
      | (True, w1) \<Rightarrow> io_bind (incremental_vacuum sq)
          (\<lambda>_ w2. case try_checkpoint_truncate sq w2 of (ok, w3) \<Rightarrow> (Inr ok, w3)) w1)"

fun quota_rounds :: "'w sqlite \<Rightarrow> u64 \<Rightarrow> nat \<Rightarrow> usize \<Rightarrow> ('w, usize) io" where
  "quota_rounds sq quota_bytes 0 log_events w = (Inr log_events, w)"
| "quota_rounds sq quota_bytes (Suc rounds) log_events w =
     (if file_size sq w \<le> quota_bytes then (Inr log_events, w)
      else case prune_oldest_batch sq w of
             (Inl e, w1) \<Rightarrow> (Inl e, w1)
           | (Inr deleted, w1) \<Rightarrow>
               if deleted = 0 then (Inr (log_events + deleted), w1)
               else case reclaim sq w1 of
                      (Inl e, w2) \<Rightarrow> (Inl e, w2)
                    | (Inr False, w2) \<Rightarrow> (Inr (log_events + deleted), w2)
                    | (Inr True, w2) \<Rightarrow> quota_rounds sq quota_bytes rounds (log_events + deleted) w2)"

definition ensure_incremental :: "'w sqlite \<Rightarrow> ('w, unit) io" where
  "ensure_incremental sq w =
     (case auto_vacuum_mode sq w of (mode, w1) \<Rightarrow>
        if mode \<noteq> INCREMENTAL_AUTO_VACUUM then convert_to_incremental_vacuum sq w1 else (Inr (), w1))"

definition quota_sweep :: "'w sqlite \<Rightarrow> usize \<Rightarrow> ('w, unit) io" where
  "quota_sweep sq log_events =
     (if log_events > 0
      then io_bind (in_transaction sq (collect_orphan_dimensions sq \<lparr>pr_log_events = 0, pr_resources = 0\<rparr>))
             (\<lambda>_. io_return ())
      else io_return ())"

definition enforce_size_quota :: "'w sqlite \<Rightarrow> u64 \<Rightarrow> ('w, QuotaReport) io" where
  "enforce_size_quota sq quota_bytes w =
     (let before = database_bytes sq w
      in case try_checkpoint_truncate sq w of
           (False, w1) \<Rightarrow> (Inr \<lparr>qr_log_events = 0, qr_bytes_before = before, qr_bytes_after = database_bytes sq w1\<rparr>, w1)
         | (True, w1) \<Rightarrow>
             io_bind (ensure_incremental sq) (\<lambda>_.
             io_bind (quota_rounds sq quota_bytes MAX_QUOTA_ROUNDS 0) (\<lambda>n.
             io_bind (quota_sweep sq n) (\<lambda>_ w2.
               (Inr \<lparr>qr_log_events = n, qr_bytes_before = before, qr_bytes_after = database_bytes sq w2\<rparr>, w2)))) w1)"

section \<open>Transactions\<close>

definition keeps_visible :: "('w \<Rightarrow> sqlval list list) \<Rightarrow> ('w, 'a) io \<Rightarrow> bool" where
  "keeps_visible visible m \<longleftrightarrow> (\<forall>w r w'. m w = (r, w') \<longrightarrow> visible w' = visible w)"

lemma keeps_visibleD: "keeps_visible visible m \<Longrightarrow> m w = (r, w') \<Longrightarrow> visible w' = visible w"
  by (simp add: keeps_visible_def)

lemma keeps_visible_bind [intro]:
  "keeps_visible visible m \<Longrightarrow> (\<And>a. keeps_visible visible (f a)) \<Longrightarrow> keeps_visible visible (io_bind m f)"
  unfolding keeps_visible_def io_bind_def by (fastforce split: prod.splits sum.splits)

lemma keeps_visible_return [intro, simp]: "keeps_visible visible (io_return a)"
  by (simp add: keeps_visible_def)

lemma in_transaction_cases:
  assumes laws: "sqlite_laws sq visible inside" and keeps: "keeps_visible visible work"
    and run: "in_transaction sq work w = (res, w')"
  obtains (failed) e where "res = Inl e" "visible w' = visible w"
  | (finished) a w1 w2 where "res = Inr a" "inside w1 = visible w" "work w1 = (Inr a, w2)" "visible w' = inside w2"
proof -
  obtain r1 w1 where b: "sq_begin sq w = (r1, w1)" by fastforce
  obtain r2 w2 where k: "work w1 = (r2, w2)" by fastforce
  obtain r3 w3 where c: "sq_commit sq w2 = (r3, w3)" by fastforce
  have "visible w1 = visible w" "inside w1 = visible w" using sqlite_lawsD(1)[OF laws b] by simp_all
  moreover have "visible w2 = visible w1" using keeps_visibleD[OF keeps k] .
  ultimately show ?thesis
    using run b k c sqlite_lawsD(8)[OF laws] sqlite_lawsD(6)[OF laws, of w2] sqlite_lawsD(7)[OF laws, of w2]
    by (auto simp: in_transaction_def split: sum.splits intro: failed finished)
qed

definition db_laws :: "'w sqlite \<Rightarrow> ('w \<Rightarrow> sqlval list list) \<Rightarrow> ('w \<Rightarrow> sqlval list list) \<Rightarrow> bool" where
  "db_laws sq visible inside \<longleftrightarrow> sqlite_laws sq visible inside \<and> delete_laws sq visible inside"

lemma db_lawsD:
  "db_laws sq visible inside \<Longrightarrow> sqlite_laws sq visible inside"
  "db_laws sq visible inside \<Longrightarrow> delete_laws sq visible inside"
  by (simp_all add: db_laws_def)

lemma sample_db_laws: "db_laws sample_sqlite fst snd"
  by (simp add: db_laws_def sample_sqlite_laws sample_delete_laws)

lemma execute_keeps: "db_laws sq visible inside \<Longrightarrow> keeps_log_rows sql \<Longrightarrow> keeps_visible visible (io_sql (sq_execute sq sql ps))"
  unfolding keeps_visible_def io_sql_def
  by (auto split: prod.splits sum.splits dest: delete_lawsD(4)[OF db_lawsD(2)])

lemma execute_batch_keeps: "db_laws sq visible inside \<Longrightarrow> keeps_log_rows sql \<Longrightarrow> keeps_visible visible (execute_batch sq sql)"
  unfolding execute_batch_def by (intro keeps_visible_bind) (simp_all add: execute_keeps)

lemma expired_keeps:
  "db_laws sq visible inside \<Longrightarrow> keeps_visible visible (io_sql (sq_execute sq SqlDeleteExpired [SInt c, SInt (int n)]))"
  unfolding keeps_visible_def io_sql_def
  by (auto split: prod.splits sum.splits dest: delete_lawsD(1,3)[OF db_lawsD(2)])

lemma oldest_keeps:
  "db_laws sq visible inside \<Longrightarrow> keeps_visible visible (io_sql (sq_execute sq SqlDeleteOldest [SInt (int n)]))"
  unfolding keeps_visible_def io_sql_def
  by (auto split: prod.splits sum.splits dest: delete_lawsD(2,3)[OF db_lawsD(2)])

lemma prune_batch_Inl: "db_laws sq visible inside \<Longrightarrow> prune_batch sq cutoff w = (Inl e, w') \<Longrightarrow> visible w' = visible w"
  unfolding prune_batch_def by (erule in_transaction_cases[OF db_lawsD(1) expired_keeps, rotated 2]) simp_all

lemma prune_batch_Inr:
  assumes "db_laws sq visible inside" "prune_batch sq cutoff w = (Inr n, w')"
  obtains gone where "deletes PRUNE_BATCH_ROWS (\<lambda>r. timestamp_of r < cutoff) n (visible w) gone (visible w')"
  using assms(2) unfolding prune_batch_def
  by (elim in_transaction_cases[OF db_lawsD(1)[OF assms(1)] expired_keeps[OF assms(1)]])
    (auto dest: delete_lawsD(1)[OF db_lawsD(2)[OF assms(1)]])

text \<open>Pruning deletes only expired rows, terminates, and leaves none when it succeeds.\<close>

definition pruned :: "i64 \<Rightarrow> sqlval list list \<Rightarrow> sqlval list list \<Rightarrow> nat \<Rightarrow> bool" where
  "pruned cutoff rows rows' n \<longleftrightarrow>
     (\<exists>gone. mset rows = mset rows' + gone \<and> size gone = n \<and> (\<forall>r \<in># gone. timestamp_of r < cutoff))"

lemma pruned_refl [simp]: "pruned cutoff rows rows 0"
  by (auto simp: pruned_def)

lemma pruned_trans: "pruned cutoff a b n \<Longrightarrow> pruned cutoff b c m \<Longrightarrow> pruned cutoff a c (n + m)"
  unfolding pruned_def
proof (elim exE conjE)
  fix g h
  assume "mset a = mset b + g" "size g = n" "\<forall>r \<in># g. timestamp_of r < cutoff"
    "mset b = mset c + h" "size h = m" "\<forall>r \<in># h. timestamp_of r < cutoff"
  thus "\<exists>gone. mset a = mset c + gone \<and> size gone = n + m \<and> (\<forall>r \<in># gone. timestamp_of r < cutoff)"
    by (intro exI[of _ "h + g"]) auto
qed

lemma deletes_pruned:
  assumes "deletes limit (\<lambda>r. timestamp_of r < cutoff) n rows gone rows'"
  shows "pruned cutoff rows rows' n"
    and "length (filter (\<lambda>r. timestamp_of r < cutoff) rows') + n =
         length (filter (\<lambda>r. timestamp_of r < cutoff) rows)"
proof -
  show "pruned cutoff rows rows' n" using assms by (auto simp: pruned_def deletes_def)
  let ?P = "\<lambda>r. timestamp_of r < cutoff"
  have "filter_mset ?P (mset rows) = filter_mset ?P (mset rows') + gone"
    using assms by (auto simp: deletes_def filter_mset_eq_conv)
  hence "size (mset (filter ?P rows)) = size (mset (filter ?P rows')) + n"
    using assms by (simp add: deletes_def)
  thus "length (filter ?P rows') + n = length (filter ?P rows)" by (simp only: size_mset)
qed

lemma prune_loop_correct:
  assumes laws: "db_laws sq visible inside"
  shows "\<exists>res w' n. prune_loop sq cutoff acc w = Some (res, w') \<and> pruned cutoff (visible w) (visible w') n \<and>
     (\<forall>k. res = Inr k \<longrightarrow> k = acc + n \<and> filter (\<lambda>r. timestamp_of r < cutoff) (visible w') = [])"
proof (induction "length (filter (\<lambda>r. timestamp_of r < cutoff) (visible w))" arbitrary: acc w rule: less_induct)
  case less
  let ?P = "\<lambda>r. timestamp_of r < cutoff"
  obtain r w1 where b: "prune_batch sq cutoff w = (r, w1)" by fastforce
  show ?case
  proof (cases r)
    case (Inl e)
    thus ?thesis using b prune_batch_Inl[OF laws]
      by (subst prune_loop.simps) (auto intro!: exI[of _ 0])
  next
    case (Inr d)
    then obtain gone where del: "deletes PRUNE_BATCH_ROWS ?P d (visible w) gone (visible w1)"
      using prune_batch_Inr[OF laws] b by blast
    note del = del deletes_pruned[OF del]
    show ?thesis
    proof (cases "d < PRUNE_BATCH_ROWS")
      case True
      hence "length (filter ?P (visible w1)) = 0" using del(1,3) by (simp add: deletes_def)
      thus ?thesis using b Inr True del(2)
        by (subst prune_loop.simps) (auto intro!: exI[of _ d])
    next
      case False
      hence "length (filter ?P (visible w1)) < length (filter ?P (visible w))"
        using del(3) by (simp add: PRUNE_BATCH_ROWS_def)
      from less[OF this, of "acc + d"] obtain res w' n where rest:
        "prune_loop sq cutoff (acc + d) w1 = Some (res, w')" "pruned cutoff (visible w1) (visible w') n"
        "\<forall>k. res = Inr k \<longrightarrow> k = acc + d + n \<and> filter ?P (visible w') = []" by blast
      have "prune_loop sq cutoff acc w = Some (res, w')"
        using b Inr False rest(1) by (subst prune_loop.simps) simp
      thus ?thesis using pruned_trans[OF del(2) rest(2)] rest(3) by (intro exI[of _ res] exI[of _ w'] exI[of _ "d + n"]) auto
    qed
  qed
qed

lemma in_transaction_keeps:
  assumes "db_laws sq visible inside" "keeps_visible visible work"
    and "\<And>w a w'. work w = (Inr a, w') \<Longrightarrow> inside w' = inside w"
  shows "keeps_visible visible (in_transaction sq work)"
  unfolding keeps_visible_def
  by (auto elim!: in_transaction_cases[OF db_lawsD(1)[OF assms(1)] assms(2)] dest: assms(3))

lemma collect_orphans_keeps:
  assumes "db_laws sq visible inside"
  shows "keeps_visible visible (in_transaction sq (collect_orphan_dimensions sq report))"
proof (rule in_transaction_keeps[OF assms])
  show "keeps_visible visible (collect_orphan_dimensions sq report)"
    unfolding collect_orphan_dimensions_def
    by (intro keeps_visible_bind execute_keeps[OF assms]) simp_all
  show "collect_orphan_dimensions sq report w = (Inr a, w') \<Longrightarrow> inside w' = inside w" for w a w'
    by (auto simp: collect_orphan_dimensions_def io_bind_Inr_iff
        dest: delete_lawsD(4)[OF db_lawsD(2)[OF assms], rotated])
qed

text \<open>Eviction: some rows are gone, and none of them is newer than a row that stays.\<close>

definition evicted :: "sqlval list list \<Rightarrow> sqlval list list \<Rightarrow> nat \<Rightarrow> bool" where
  "evicted rows rows' n \<longleftrightarrow>
     (\<exists>gone. mset rows = mset rows' + gone \<and> size gone = n \<and>
        (\<forall>d \<in># gone. \<forall>r \<in> set rows'. timestamp_of d \<le> timestamp_of r))"

lemma evicted_refl [simp]: "evicted rows rows 0"
  by (auto simp: evicted_def)

lemma evicted_trans:
  assumes "evicted a b n" "evicted b c m"
  shows "evicted a c (n + m)"
proof -
  obtain g where g: "mset a = mset b + g" "size g = n" "\<forall>d \<in># g. \<forall>r \<in> set b. timestamp_of d \<le> timestamp_of r"
    using assms(1) unfolding evicted_def by blast
  obtain h where h: "mset b = mset c + h" "size h = m" "\<forall>d \<in># h. \<forall>r \<in> set c. timestamp_of d \<le> timestamp_of r"
    using assms(2) unfolding evicted_def by blast
  have "set c \<subseteq> set b" using h(1) by (metis mset_subset_eq_add_left set_mset_mono set_mset_mset)
  thus ?thesis unfolding evicted_def using g h by (intro exI[of _ "h + g"]) auto
qed

lemma prune_oldest_batch_cases:
  assumes laws: "db_laws sq visible inside" and run: "prune_oldest_batch sq w = (res, w')"
  obtains (failed) e where "res = Inl e" "visible w' = visible w"
  | (deleted) n where "res = Inr n" "n = min PRUNE_BATCH_ROWS (length (visible w))" "evicted (visible w) (visible w') n"
  using run unfolding prune_oldest_batch_def
proof (rule in_transaction_cases[OF db_lawsD(1)[OF laws] oldest_keeps[OF laws]])
  fix a w1 w2
  assume a: "res = Inr a" "inside w1 = visible w" "visible w' = inside w2"
    "io_sql (sq_execute sq SqlDeleteOldest [SInt (int PRUNE_BATCH_ROWS)]) w1 = (Inr a, w2)"
  hence "\<exists>gone. deletes PRUNE_BATCH_ROWS (\<lambda>r. True) a (inside w1) gone (inside w2) \<and>
             (\<forall>d \<in># gone. \<forall>r \<in> set (inside w2). timestamp_of d \<le> timestamp_of r)"
    using delete_lawsD(2)[OF db_lawsD(2)[OF laws], of PRUNE_BATCH_ROWS w1 a w2] by simp
  thus thesis using a(1-3) by (intro deleted[of a]) (auto simp: deletes_def evicted_def)
qed (rule failed)

lemma keeps_maintenance:
  assumes "db_laws sq visible inside"
  shows "keeps_visible visible (checkpoint sq m)" "keeps_visible visible (incremental_vacuum sq)"
    "keeps_visible visible (convert_to_incremental_vacuum sq)" "keeps_visible visible (analyze sq)"
  unfolding checkpoint_def incremental_vacuum_def convert_to_incremental_vacuum_def analyze_def
  by (rule execute_batch_keeps[OF assms], simp)+

lemma try_checkpoint_keeps:
  "db_laws sq visible inside \<Longrightarrow> try_checkpoint_truncate sq w = (ok, w') \<Longrightarrow> visible w' = visible w"
  by (auto simp: try_checkpoint_truncate_def split: prod.splits sum.splits
      dest: keeps_visibleD[OF keeps_maintenance(1)])

lemma reclaim_keeps:
  assumes "db_laws sq visible inside"
  shows "keeps_visible visible (reclaim sq)"
  unfolding keeps_visible_def reclaim_def io_bind_def
  using try_checkpoint_keeps[OF assms] keeps_visibleD[OF keeps_maintenance(2)[OF assms]]
  by (fastforce split: prod.splits sum.splits bool.splits)

lemma quota_rounds_evicts:
  assumes laws: "db_laws sq visible inside" and "quota_rounds sq quota rounds acc w = (res, w')"
  shows "\<exists>n \<le> rounds * PRUNE_BATCH_ROWS. evicted (visible w) (visible w') n \<and> (\<forall>k. res = Inr k \<longrightarrow> k = acc + n)"
  using assms(2)
proof (induction rounds arbitrary: acc w)
  case 0
  thus ?case by auto
next
  case (Suc rounds)
  show ?case
  proof (cases "file_size sq w \<le> quota")
    case True
    thus ?thesis using Suc.prems by auto
  next
    case False
    obtain r w1 where p: "prune_oldest_batch sq w = (r, w1)" by fastforce
    obtain r2 w2 where c: "reclaim sq w1 = (r2, w2)" by fastforce
    note keep = keeps_visibleD[OF reclaim_keeps[OF laws] c]
    show ?thesis using laws p
    proof (cases rule: prune_oldest_batch_cases)
      case (failed e)
      thus ?thesis using Suc.prems False p by auto
    next
      case (deleted d)
      have ev: "evicted (visible w) (visible w2) d" using deleted(3) keep by (simp add: evicted_def)
      show ?thesis
      proof (cases "d \<noteq> 0 \<and> r2 = Inr True")
        case True
        hence "quota_rounds sq quota rounds (acc + d) w2 = (res, w')"
          using Suc.prems False p c deleted(1) by simp
        from Suc.IH[OF this] obtain n where n: "n \<le> rounds * PRUNE_BATCH_ROWS" "evicted (visible w2) (visible w') n"
          "\<forall>k. res = Inr k \<longrightarrow> k = acc + d + n" by blast
        show ?thesis using evicted_trans[OF ev n(2)] n(1,3) deleted(2)
          by (intro exI[of _ "d + n"]) (auto simp: add.assoc)
      next
        case stop: False
        hence "evicted (visible w) (visible w') d \<and> (\<forall>k. res = Inr k \<longrightarrow> k = acc + d)"
          using Suc.prems False p c deleted ev by (auto split: if_splits sum.splits bool.splits)
        thus ?thesis using deleted(2) by (intro exI[of _ d]) auto
      qed
    qed
  qed
qed

lemma auto_vacuum_keeps:
  "db_laws sq visible inside \<Longrightarrow> auto_vacuum_mode sq w = (m, w') \<Longrightarrow> visible w' = visible w"
  by (auto simp: auto_vacuum_mode_def split: prod.splits sum.splits dest: delete_lawsD(5)[OF db_lawsD(2)])

lemma vacuum_keeps:
  assumes "db_laws sq visible inside"
  shows "keeps_visible visible (vacuum sq)" "keeps_visible visible (ensure_incremental sq)"
  unfolding keeps_visible_def vacuum_def ensure_incremental_def
  using auto_vacuum_keeps[OF assms] keeps_maintenance(2,3)[OF assms, THEN keeps_visibleD]
  by (fastforce split: prod.splits if_splits)+

lemma rebuild_fts_keeps:
  assumes "db_laws sq visible inside"
  shows "keeps_visible visible (rebuild_fts sq)"
  unfolding rebuild_fts_def
proof (rule in_transaction_keeps[OF assms])
  let ?work = "io_bind (execute_batch sq SqlDropFts) (\<lambda>_. io_bind (execute_batch sq SqlCreateFts)
                 (\<lambda>_. io_sql (sq_execute sq SqlPopulateFts [])))"
  show "keeps_visible visible ?work"
    by (intro keeps_visible_bind execute_keeps[OF assms] execute_batch_keeps[OF assms]) simp_all
  note rows = delete_lawsD(4)[OF db_lawsD(2)[OF assms], rotated]
  show "?work w = (Inr a, w') \<Longrightarrow> inside w' = inside w" for w a w'
    by (auto simp: io_bind_Inr_iff execute_batch_def dest!: rows)
qed

lemma quota_sweep_keeps: "db_laws sq visible inside \<Longrightarrow> keeps_visible visible (quota_sweep sq n)"
  by (auto simp: quota_sweep_def intro!: keeps_visible_bind collect_orphans_keeps)

lemma prune_sweep_keeps: "db_laws sq visible inside \<Longrightarrow> keeps_visible visible (prune_sweep sq report)"
  by (auto simp: prune_sweep_def intro: collect_orphans_keeps)

lemma prune_sweep_report: "prune_sweep sq report w = (Inr rep, w') \<Longrightarrow> pr_log_events rep = pr_log_events report"
  by (auto simp: prune_sweep_def in_transaction_def collect_orphan_dimensions_def io_bind_def io_sql_def
      split: if_splits prod.splits sum.splits)

lemma pruned_count:
  assumes "pruned cutoff rows rows' n" "filter (\<lambda>r. timestamp_of r < cutoff) rows' = []"
  shows "n = length (filter (\<lambda>r. timestamp_of r < cutoff) rows)"
    and "mset rows' = mset (filter (\<lambda>r. \<not> timestamp_of r < cutoff) rows)"
proof -
  let ?P = "\<lambda>r. timestamp_of r < cutoff"
  obtain gone where gone: "mset rows = mset rows' + gone" "size gone = n" "\<forall>r \<in># gone. ?P r"
    using assms(1) unfolding pruned_def by blast
  have "filter_mset ?P (mset rows') = {#}" using assms(2) by (metis mset_filter mset.simps(1))
  moreover have "filter_mset ?P gone = gone" "filter_mset (\<lambda>r. \<not> ?P r) gone = {#}"
    using gone(3) by (auto simp: filter_mset_eq_conv)
  moreover have "filter_mset (\<lambda>r. \<not> ?P r) (mset rows') = mset rows'"
    using assms(2) by (auto simp: filter_mset_eq_conv filter_empty_conv)
  ultimately have "mset (filter ?P rows) = gone" "mset (filter (\<lambda>r. \<not> ?P r) rows) = mset rows'"
    using gone(1) by simp_all
  thus "n = length (filter ?P rows)" "mset rows' = mset (filter (\<lambda>r. \<not> ?P r) rows)"
    using gone(2) by (metis size_mset, simp)
qed

section \<open>Properties\<close>

text \<open>
  C22: Retention pruning terminates, whatever the backlog, and deletes only log rows older
  than the cutoff.  When it succeeds, the rows left are exactly those at or after the
  cutoff, and the report counts the deleted rows.
\<close>

theorem prune_correct:
  assumes "db_laws sq visible inside" "cutoff = retention_cutoff now window"
  shows "\<exists>res w' n. prune sq (Some window) now w = Some (res, w') \<and>
           pruned cutoff (visible w) (visible w') n \<and>
           (\<forall>report. res = Inr report \<longrightarrow>
              pr_log_events report = length (filter (\<lambda>r. timestamp_of r < cutoff) (visible w)) \<and>
              mset (visible w') = mset (filter (\<lambda>r. \<not> timestamp_of r < cutoff) (visible w)))"
proof -
  obtain res w1 n where loop: "prune_loop sq cutoff 0 w = Some (res, w1)" "pruned cutoff (visible w) (visible w1) n"
    "\<forall>k. res = Inr k \<longrightarrow> k = 0 + n \<and> filter (\<lambda>r. timestamp_of r < cutoff) (visible w1) = []"
    using prune_loop_correct[OF assms(1)] by blast
  show ?thesis
  proof (cases res)
    case (Inl e)
    thus ?thesis using loop assms(2) by (intro exI[of _ "Inl e"] exI[of _ w1] exI[of _ n]) (simp add: prune_def)
  next
    case (Inr k)
    obtain res2 w2 where sw: "prune_sweep sq \<lparr>pr_log_events = k, pr_resources = 0\<rparr> w1 = (res2, w2)" by fastforce
    have "visible w2 = visible w1" using keeps_visibleD[OF prune_sweep_keeps[OF assms(1)] sw] .
    moreover have "k = n" "filter (\<lambda>r. timestamp_of r < cutoff) (visible w1) = []" using loop(3) Inr by simp_all
    moreover note pruned_count[OF loop(2) this(2)]
    moreover have "prune sq (Some window) now w = Some (res2, w2)"
      using loop(1) Inr sw assms(2) by (simp add: prune_def)
    ultimately show ?thesis
      using loop(2) sw by (intro exI[of _ res2] exI[of _ w2] exI[of _ n]) (auto dest: prune_sweep_report)
  qed
qed

lemma quota_evicts_oldest_first:
  assumes "db_laws sq visible inside" "enforce_size_quota sq quota w = (res, w')"
  shows "\<exists>n \<le> 40000. evicted (visible w) (visible w') n \<and> (\<forall>report. res = Inr report \<longrightarrow> qr_log_events report = n)"
proof -
  obtain ok w1 where c: "try_checkpoint_truncate sq w = (ok, w1)" by fastforce
  obtain r2 w2 where v: "ensure_incremental sq w1 = (r2, w2)" by fastforce
  obtain r3 w3 where q: "quota_rounds sq quota MAX_QUOTA_ROUNDS 0 w2 = (r3, w3)" by fastforce
  have vis: "visible w1 = visible w" "visible w2 = visible w1"
    using try_checkpoint_keeps[OF assms(1) c] keeps_visibleD[OF vacuum_keeps(2)[OF assms(1)] v] by simp_all
  obtain n where n: "n \<le> MAX_QUOTA_ROUNDS * PRUNE_BATCH_ROWS" "evicted (visible w2) (visible w3) n"
    "\<forall>k. r3 = Inr k \<longrightarrow> k = 0 + n"
    using quota_rounds_evicts[OF assms(1) q] by blast
  have sweep: "quota_sweep sq k x = (r, y) \<Longrightarrow> visible y = visible x" for k x r y
    using keeps_visibleD[OF quota_sweep_keeps[OF assms(1)]] .
  show ?thesis
  proof (cases "ok \<and> (\<exists>u. r2 = Inr u)")
    case True
    hence "visible w' = visible w3 \<and> (\<forall>report. res = Inr report \<longrightarrow> qr_log_events report = n)"
      using assms(2) c v q n(3)
      by (auto simp: enforce_size_quota_def Let_def io_bind_def split: prod.splits sum.splits dest: sweep)
    thus ?thesis using n(1,2) vis by (intro exI[of _ n]) (simp add: MAX_QUOTA_ROUNDS_def PRUNE_BATCH_ROWS_def)
  next
    case False
    hence "visible w' = visible w \<and> (\<forall>report. res = Inr report \<longrightarrow> qr_log_events report = 0)"
      using assms(2) c v vis
      by (cases ok; cases r2) (auto simp: enforce_size_quota_def Let_def io_bind_def)
    thus ?thesis by (intro exI[of _ 0]) simp
  qed
qed

text \<open>A database on which no call fails.\<close>

definition never_fails :: "'w sqlite \<Rightarrow> bool" where
  "never_fails sq \<longleftrightarrow>
     (\<forall>w. \<exists>u w'. sq_begin sq w = (Inr u, w')) \<and> (\<forall>sql ps w. \<exists>n w'. sq_execute sq sql ps w = (Inr n, w')) \<and>
     (\<forall>w. \<exists>u w'. sq_commit sq w = (Inr u, w'))"

lemma never_fails_calls:
  assumes "never_fails sq"
  obtains w1 where "execute_batch sq sql w = (Inr (), w1)"
proof -
  obtain n w1 where "sq_execute sq sql [] w = (Inr n, w1)" using assms unfolding never_fails_def by blast
  thus thesis by (intro that[of w1]) (simp add: execute_batch_def io_bind_def io_sql_def)
qed

lemma never_fails_transaction:
  assumes "never_fails sq"
  obtains n w1 where "in_transaction sq (io_sql (sq_execute sq sql ps)) w = (Inr n, w1)"
proof -
  obtain u w1 where b: "sq_begin sq w = (Inr u, w1)" using assms unfolding never_fails_def by blast
  obtain n w2 where x: "sq_execute sq sql ps w1 = (Inr n, w2)" using assms unfolding never_fails_def by blast
  obtain v w3 where "sq_commit sq w2 = (Inr v, w3)" using assms unfolding never_fails_def by blast
  thus thesis using b x by (intro that[of n w3]) (simp add: in_transaction_def io_sql_def)
qed

lemma never_fails_reclaim:
  assumes "never_fails sq"
  obtains w1 where "reclaim sq w = (Inr True, w1)"
proof -
  obtain w1 where 1: "execute_batch sq (SqlCheckpoint Truncate) w = (Inr (), w1)" by (rule never_fails_calls[OF assms])
  obtain w2 where 2: "execute_batch sq SqlIncrementalVacuum w1 = (Inr (), w2)" by (rule never_fails_calls[OF assms])
  obtain w3 where "execute_batch sq (SqlCheckpoint Truncate) w2 = (Inr (), w3)" by (rule never_fails_calls[OF assms])
  thus thesis using 1 2
    by (intro that[of w3])
      (simp add: reclaim_def try_checkpoint_truncate_def checkpoint_def incremental_vacuum_def io_bind_def)
qed

lemma min_chunk:
  fixes d :: nat
  assumes "a = b + d" "d = min p a"
  shows "d + min (r * p) b = min (Suc r * p) a"
proof (cases "a \<le> p")
  case True
  hence "d = a" using assms(2) by (simp only: min_absorb2)
  thus ?thesis using assms(1) True by simp
next
  case False
  hence "d = p" using assms(2) by (simp only: min_absorb1 nat_le_linear)
  thus ?thesis using assms(1) by simp
qed

lemma quota_rounds_blind:
  assumes laws: "db_laws sq visible inside" and nf: "never_fails sq" and big: "\<And>w. quota < file_size sq w"
  shows "\<exists>w'. quota_rounds sq quota rounds acc w =
           (Inr (acc + min (rounds * PRUNE_BATCH_ROWS) (length (visible w))), w')"
proof (induction rounds arbitrary: acc w)
  case (Suc rounds)
  obtain d w1 where p: "prune_oldest_batch sq w = (Inr d, w1)"
    unfolding prune_oldest_batch_def by (rule never_fails_transaction[OF nf])
  obtain w2 where c: "reclaim sq w1 = (Inr True, w2)" by (rule never_fails_reclaim[OF nf])
  have d: "d = min PRUNE_BATCH_ROWS (length (visible w))" "evicted (visible w) (visible w1) d"
    using laws p by (auto elim: prune_oldest_batch_cases)
  obtain gone where "mset (visible w) = mset (visible w1) + gone" "size gone = d"
    using d(2) unfolding evicted_def by blast
  hence "length (visible w) = length (visible w1) + d" by (metis size_mset size_union)
  moreover have "visible w2 = visible w1" using keeps_visibleD[OF reclaim_keeps[OF laws] c] .
  ultimately have len: "length (visible w) = length (visible w2) + d" by simp
  show ?case
  proof (cases "d = 0")
    case True
    hence "visible w = []" using d(1) by (simp add: PRUNE_BATCH_ROWS_def min_def split: if_splits)
    thus ?thesis using p True big[of w] by (simp add: not_le)
  next
    case False
    obtain w' where "quota_rounds sq quota rounds (acc + d) w2 =
        (Inr (acc + d + min (rounds * PRUNE_BATCH_ROWS) (length (visible w2))), w')" using Suc.IH by blast
    moreover have "d + min (rounds * PRUNE_BATCH_ROWS) (length (visible w2)) =
        min (Suc rounds * PRUNE_BATCH_ROWS) (length (visible w))"
      using min_chunk[OF len d(1)] .
    moreover have "quota_rounds sq quota (Suc rounds) acc w = quota_rounds sq quota rounds (acc + d) w2"
      using p c False big[of w] by (simp add: not_le)
    ultimately show ?thesis by (metis add.assoc)
  qed
qed simp

text \<open>
  C23: Eviction is not stopped by a checkpoint that does nothing.  \<open>PRAGMA wal_checkpoint\<close>
  reports a blocked checkpoint in a result row, not as an error, and the code ignores the
  row.  On a database where no call fails and the main file stays above the quota, one
  enforcement deletes eight full batches, up to 40000 rows.
\<close>

theorem quota_evicts_without_progress:
  assumes "db_laws sq visible inside" "never_fails sq" "\<And>w. quota < file_size sq w"
    and "\<And>w. sq_query_int sq SqlAutoVacuum w = (Inr INCREMENTAL_AUTO_VACUUM, w)"
  shows "\<exists>report w'. enforce_size_quota sq quota w = (Inr report, w') \<and>
           qr_log_events report = min 40000 (length (visible w))"
proof -
  obtain w1 where c: "execute_batch sq (SqlCheckpoint Truncate) w = (Inr (), w1)" by (rule never_fails_calls[OF assms(2)])
  have ck: "try_checkpoint_truncate sq w = (True, w1)" using c by (simp add: try_checkpoint_truncate_def checkpoint_def)
  have vis: "visible w1 = visible w" using try_checkpoint_keeps[OF assms(1) ck] .
  obtain w2 where q: "quota_rounds sq quota MAX_QUOTA_ROUNDS 0 w1 = (Inr (min 40000 (length (visible w))), w2)"
    using quota_rounds_blind[OF assms(1-3), of MAX_QUOTA_ROUNDS 0 w1] vis
    by (auto simp: MAX_QUOTA_ROUNDS_def PRUNE_BATCH_ROWS_def)
  have "\<exists>u w3. quota_sweep sq (min 40000 (length (visible w))) w2 = (Inr u, w3)"
  proof -
    obtain u w3 where b: "sq_begin sq w2 = (Inr u, w3)" using assms(2) unfolding never_fails_def by blast
    obtain n w4 where x: "sq_execute sq SqlDeleteOrphans [] w3 = (Inr n, w4)" using assms(2) unfolding never_fails_def by blast
    obtain v w5 where "sq_commit sq w4 = (Inr v, w5)" using assms(2) unfolding never_fails_def by blast
    thus ?thesis using b x
      by (simp add: quota_sweep_def in_transaction_def collect_orphan_dimensions_def io_bind_def io_sql_def)
  qed
  then obtain u w3 where s: "quota_sweep sq (min 40000 (length (visible w))) w2 = (Inr u, w3)" by blast
  have e: "ensure_incremental sq w1 = (Inr (), w1)"
    using assms(4) by (simp add: ensure_incremental_def auto_vacuum_mode_def)
  show ?thesis using ck e q s by (simp add: enforce_size_quota_def io_bind_def)
qed

lemma retention_cutoff_saturates:
  assumes "I64_MIN \<le> now" "now \<le> I64_MAX" "window \<le> window'"
  shows "I64_MIN \<le> retention_cutoff now window \<and> retention_cutoff now window \<le> now \<and>
         (I64_MIN \<le> now - int window \<and> int window \<le> I64_MAX \<longrightarrow> retention_cutoff now window = now - int window) \<and>
         retention_cutoff now window' \<le> retention_cutoff now window"
  using assms by (auto simp: retention_cutoff_def i64_saturating_sub_def min_def max_def)

subsection \<open>Witnesses\<close>

definition sample_rows_at :: "int list \<Rightarrow> sqlval list list" where
  "sample_rows_at ts = map (\<lambda>t. [SText ''r'', SInt t]) ts"

lemma delete_first_numeral [simp]:
  "delete_first (numeral n) P [] = []"
  "delete_first (numeral n) P (x # xs) =
     (if P x then delete_first (pred_numeral n) P xs else x # delete_first (numeral n) P xs)"
  by (simp_all add: numeral_eq_Suc)

theorem prune_correct_witness:
  "\<exists>report w'. prune sample_sqlite (Some 10) 15 (sample_rows_at [3, 7, 4], []) = Some (Inr report, w') \<and>
     pr_log_events report = 2"
proof -
  define w where "w = (sample_rows_at [3, 7, 4], [] :: sqlval list list)"
  have cutoff: "retention_cutoff 15 10 = 5" by (simp add: retention_cutoff_def i64_saturating_sub_def)
  obtain res w' where run: "prune sample_sqlite (Some 10) 15 w = Some (res, w')"
    and counts: "\<forall>report. res = Inr report \<longrightarrow> pr_log_events report = 2"
    using prune_correct[OF sample_db_laws cutoff[symmetric], of w]
    by (auto simp: w_def sample_rows_at_def timestamp_of_def)
  have "prune_batch sample_sqlite 5 w = (Inr 2, (sample_rows_at [7], sample_rows_at [7]))"
    by (simp add: prune_batch_def in_transaction_def io_sql_def sample_sqlite_def sample_execute_def w_def
        sample_rows_at_def timestamp_of_def PRUNE_BATCH_ROWS_def)
  hence "prune_loop sample_sqlite 5 0 w = Some (Inr 2, (sample_rows_at [7], sample_rows_at [7]))"
    by (subst prune_loop.simps) (simp add: PRUNE_BATCH_ROWS_def)
  hence "\<exists>report. res = Inr report" using run cutoff
    by (auto simp: prune_def prune_sweep_def pr_total_def in_transaction_def collect_orphan_dimensions_def
        io_bind_def io_sql_def sample_sqlite_def sample_execute_def)
  thus ?thesis using run counts unfolding w_def by blast
qed

definition stuck_sqlite :: "(sqlval list list \<times> sqlval list list) sqlite" where
  "stuck_sqlite = sample_sqlite\<lparr>sq_file_size := \<lambda>_. Some 9000,
     sq_execute := \<lambda>sql ps w. (if sql = SqlInsertLogEvent then (Inr 1, (fst w, snd w @ [ps])) else sample_execute sql ps w)\<rparr>"

lemma stuck_db_laws: "db_laws stuck_sqlite fst snd"
proof -
  have "sqlite_laws stuck_sqlite fst snd"
    by (auto simp: sqlite_laws_def stuck_sqlite_def sample_sqlite_def sample_execute_def split: if_splits)
  moreover have "delete_laws stuck_sqlite fst snd"
    using sample_delete_laws
    by (simp add: delete_laws_def stuck_sqlite_def sample_sqlite_def) auto
  ultimately show ?thesis by (simp add: db_laws_def)
qed

lemma stuck_never_fails: "never_fails stuck_sqlite"
proof -
  have "sql \<noteq> SqlInsertLogEvent \<Longrightarrow> \<exists>n w'. sample_execute sql ps w = (Inr n, w')" for sql ps w
    by (simp add: sample_execute_def split: Sql.splits list.splits sqlval.splits)
  thus ?thesis by (simp add: never_fails_def stuck_sqlite_def sample_sqlite_def)
qed

theorem quota_evicts_without_progress_witness:
  "\<exists>report w'. enforce_size_quota stuck_sqlite 5000 (sample_rows_at [3, 7, 4], []) = (Inr report, w') \<and>
     qr_log_events report = 3"
  using quota_evicts_without_progress[OF stuck_db_laws stuck_never_fails, of 5000 "(sample_rows_at [3, 7, 4], [])"]
  by (simp add: stuck_sqlite_def file_size_def sample_sqlite_def INCREMENTAL_AUTO_VACUUM_def sample_rows_at_def numeral_3_eq_3)

end
