(* ===== verification/Migrations.thy ===== *)
theory Migrations
  imports Maintenance_Ops
begin

text \<open>
  Opening and migrating the database (\<open>otel-sqlite-storage/src/sqlite.rs\<close>,
  \<open>migration.rs\<close>, and \<open>bootstrap\<close> of \<open>writer.rs\<close>).

  A migration script is the statement \<open>SqlMigration\<close> of its version; its text is data the
  build includes.  Creating the parent directory, opening the file and restricting its
  permissions are one call, the parameter \<open>open_file\<close>.
\<close>

section \<open>Operations\<close>

record Migration =
  mig_version :: string
  mig_description :: string
  mig_disable_foreign_keys :: bool

definition MIGRATIONS :: "Migration list" where
  "MIGRATIONS =
     [\<lparr>mig_version = ''000'', mig_description = ''Canonical OTLP SQLite schema: logs, resources, contentless FTS5, metrics and read-side views'', mig_disable_foreign_keys = False\<rparr>,
      \<lparr>mig_version = ''001'', mig_description = ''Incrementally maintained log search index: triggers keep FTS5 consistent with inserts and retention prunes'', mig_disable_foreign_keys = False\<rparr>,
      \<lparr>mig_version = ''002'', mig_description = ''Metric retention access path: timestamp index for age-based data-point prunes'', mig_disable_foreign_keys = False\<rparr>,
      \<lparr>mig_version = ''003'', mig_description = ''Mapping fidelity: scope attributes/schema URL on log events and scopes, metric metadata, exemplar persistence columns exposed on the read-side views'', mig_disable_foreign_keys = False\<rparr>,
      \<lparr>mig_version = ''004'', mig_description = ''Metric identity includes is_monotonic and aggregation_temporality in the dimension UNIQUE constraint (table rebuild)'', mig_disable_foreign_keys = True\<rparr>,
      \<lparr>mig_version = ''005'', mig_description = ''Logs-only sink: drop metric tables, views and indexes'', mig_disable_foreign_keys = False\<rparr>]"

record SchemaStatus =
  ss_latest_known :: string
  ss_applied :: "string list"
  ss_pending :: "string list"
  ss_newer_than_binary :: bool
  ss_is_otel_schema :: bool

definition latest_schema_version :: string where
  "latest_schema_version = (if MIGRATIONS = [] then [] else mig_version (last MIGRATIONS))"

definition table_exists :: "'w sqlite \<Rightarrow> string \<Rightarrow> ('w, bool) io" where
  "table_exists sq name = io_bind (io_sql (sq_query_int sq (SqlTableCount name))) (\<lambda>count. io_return (count > 0))"

definition read_applied_versions :: "'w sqlite \<Rightarrow> ('w, string list) io" where
  "read_applied_versions sq =
     io_bind (table_exists sq ''schema_migrations'') (\<lambda>found.
       if \<not> found then io_return [] else io_sql (sq_query_text sq SqlReadVersions))"

definition inspect_schema :: "'w sqlite \<Rightarrow> ('w, SchemaStatus) io" where
  "inspect_schema sq =
     io_bind (read_applied_versions sq) (\<lambda>versions.
       let applied = sort versions;
           newer = (applied \<noteq> [] \<and> last applied > latest_schema_version);
           pending = map mig_version (filter (\<lambda>m. mig_version m \<notin> set applied) MIGRATIONS)
       in io_bind (table_exists sq ''log_event'') (\<lambda>otel.
          io_return \<lparr>ss_latest_known = latest_schema_version, ss_applied = applied, ss_pending = pending,
                     ss_newer_than_binary = newer, ss_is_otel_schema = otel\<rparr>))"

definition foreign_keys :: "'w sqlite \<Rightarrow> bool \<Rightarrow> ('w, unit) io" where
  "foreign_keys sq on = execute_batch sq (SqlPragma ''foreign_keys'' (if on then ''ON'' else ''OFF''))"

definition run_script :: "'w sqlite \<Rightarrow> Migration \<Rightarrow> ('w, nat) io" where
  "run_script sq m =
     in_transaction sq
       (io_bind (execute_batch sq (SqlMigration (mig_version m))) (\<lambda>_.
        io_sql (sq_execute sq SqlStampMigration [SText (mig_version m), SText (mig_description m)])))"

definition apply_migration :: "'w sqlite \<Rightarrow> Migration \<Rightarrow> ('w, unit) io" where
  "apply_migration sq m =
     io_bind (if mig_disable_foreign_keys m then foreign_keys sq False else io_return ()) (\<lambda>_.
     io_bind (run_script sq m) (\<lambda>_.
     if mig_disable_foreign_keys m then foreign_keys sq True else io_return ()))"

fun migrate_each :: "'w sqlite \<Rightarrow> string list \<Rightarrow> string option \<Rightarrow> Migration list \<Rightarrow> ('w, unit) io" where
  "migrate_each sq applied target [] = io_return ()"
| "migrate_each sq applied target (m # ms) =
     (if mig_version m \<in> set applied then migrate_each sq applied target ms
      else if (case target of Some t \<Rightarrow> mig_version m > t | None \<Rightarrow> False) then migrate_each sq applied target ms
      else io_bind (apply_migration sq m) (\<lambda>_. migrate_each sq applied target ms))"

text \<open>\<open>applied.iter().max()\<close> on a list of versions.\<close>

fun max_version :: "string list \<Rightarrow> string option" where
  "max_version [] = None"
| "max_version (v # vs) = (case max_version vs of None \<Rightarrow> Some v | Some u \<Rightarrow> Some (max v u))"

definition newer_message :: "string \<Rightarrow> string" where
  "newer_message newest_applied =
     ''database schema version '' @ newest_applied @ '' is newer than the newest supported version '' @
     latest_schema_version @ ''; upgrade this binary before opening it''"

definition migrate_inner :: "'w sqlite \<Rightarrow> string option \<Rightarrow> ('w, unit) io" where
  "migrate_inner sq target =
     io_bind (execute_batch sq SqlCreateMigrations) (\<lambda>_.
     io_bind (read_applied_versions sq) (\<lambda>applied.
       case max_version applied of
         Some newest \<Rightarrow>
           if newest > latest_schema_version then (\<lambda>w. (Inl (StartupFailed (newer_message newest)), w))
           else migrate_each sq applied target MIGRATIONS
       | None \<Rightarrow> migrate_each sq applied target MIGRATIONS))"

definition migrate :: "'w sqlite \<Rightarrow> ('w, unit) io" where
  "migrate sq = migrate_inner sq None"

definition migrate_up_to :: "'w sqlite \<Rightarrow> string \<Rightarrow> ('w, unit) io" where
  "migrate_up_to sq target = migrate_inner sq (Some target)"

text \<open>A best-effort pragma: its error is only logged.\<close>

definition best_effort :: "('w, unit) io \<Rightarrow> ('w, unit) io" where
  "best_effort m w = (case m w of (_, w') \<Rightarrow> (Inr (), w'))"

definition tuning_pragmas :: "(string \<times> string) list" where
  "tuning_pragmas = [(''cache_size'', ''-64000''), (''temp_store'', ''MEMORY''),
                     (''mmap_size'', ''268435456''), (''journal_size_limit'', ''67108864'')]"

fun apply_pragmas :: "'w sqlite \<Rightarrow> (string \<times> string) list \<Rightarrow> ('w, unit) io" where
  "apply_pragmas sq [] = io_return ()"
| "apply_pragmas sq ((pragma, value) # rest) =
     io_bind (best_effort (execute_batch sq (SqlPragma pragma value))) (\<lambda>_. apply_pragmas sq rest)"

definition sqlite_open :: "'w sqlite \<Rightarrow> ('w, unit) io \<Rightarrow> SyncMode \<Rightarrow> ('w, unit) io" where
  "sqlite_open sq open_file synchronous =
     io_bind open_file (\<lambda>_.
     io_bind (best_effort (execute_batch sq (SqlPragma ''auto_vacuum'' ''INCREMENTAL''))) (\<lambda>_.
     io_bind (io_sql (sq_query_text sq SqlJournalModeWal)) (\<lambda>_.
     io_bind (execute_batch sq (SqlPragma ''synchronous'' (sync_as_str synchronous))) (\<lambda>_.
     io_bind (execute_batch sq (SqlPragma ''foreign_keys'' ''ON'')) (\<lambda>_.
     io_bind (execute_batch sq (SqlPragma ''busy_timeout'' ''5000'')) (\<lambda>_.
       apply_pragmas sq tuning_pragmas))))))"

definition bootstrap :: "'w sqlite \<Rightarrow> ('w, unit) io \<Rightarrow> SyncMode \<Rightarrow> ('w, unit) io" where
  "bootstrap sq open_file synchronous =
     io_bind (sqlite_open sq open_file synchronous) (\<lambda>_. migrate sq)"

section \<open>The schema and its stamps\<close>

text \<open>
  What the properties assume of SQLite during a migration.  \<open>db\<close> is what every reader sees, \<open>tx\<close>
  what is seen inside the open transaction: the content of the database apart from the table
  \<open>schema_migrations\<close>, the versions stamped in that table, in no particular order, and whether the
  connection enforces foreign keys.  The script of a version has the effect \<open>script\<close> on the content,
  which may depend on the enforcement; only the stamping statement adds a stamp; reading
  returns the stamps; a table that does not exist has none; transactions are atomic.
\<close>

record 's schema_view =
  sv_content :: 's
  sv_stamps :: "string multiset"
  sv_foreign_keys :: bool

definition migration_laws ::
  "'w sqlite \<Rightarrow> ('w \<Rightarrow> 's schema_view) \<Rightarrow> ('w \<Rightarrow> 's schema_view) \<Rightarrow> (bool \<Rightarrow> string \<Rightarrow> 's \<Rightarrow> 's) \<Rightarrow> bool" where
  "migration_laws sq db tx script \<longleftrightarrow>
     (\<forall>w r w'. sq_begin sq w = (r, w') \<longrightarrow> db w' = db w \<and> tx w' = db w) \<and>
     (\<forall>v w w' n. sq_execute sq (SqlMigration v) [] w = (Inr n, w') \<longrightarrow> db w' = db w \<and>
        tx w' = (tx w)\<lparr>sv_content := script (sv_foreign_keys (tx w)) v (sv_content (tx w))\<rparr>) \<and>
     (\<forall>v d w w' n. sq_execute sq SqlStampMigration [SText v, SText d] w = (Inr n, w') \<longrightarrow> db w' = db w \<and>
        tx w' = (tx w)\<lparr>sv_stamps := add_mset v (sv_stamps (tx w))\<rparr>) \<and>
     (\<forall>v w w' n. sq_execute sq (SqlPragma ''foreign_keys'' v) [] w = (Inr n, w') \<longrightarrow>
        db w' = (db w)\<lparr>sv_foreign_keys := (v = ''ON'')\<rparr>) \<and>
     (\<forall>w w' r. sq_execute sq SqlCreateMigrations [] w = (r, w') \<longrightarrow> db w' = db w) \<and>
     (\<forall>sql ps w w' e. sq_execute sq sql ps w = (Inl e, w') \<longrightarrow> db w' = db w) \<and>
     (\<forall>w w' u. sq_commit sq w = (Inr u, w') \<longrightarrow> db w' = tx w) \<and>
     (\<forall>w w' e. sq_commit sq w = (Inl e, w') \<longrightarrow> db w' = db w) \<and>
     (\<forall>w. db (sq_rollback sq w) = db w) \<and>
     (\<forall>sql w w' r. sq_query_int sq sql w = (r, w') \<longrightarrow> db w' = db w) \<and>
     (\<forall>sql w w' r. sq_query_text sq sql w = (r, w') \<longrightarrow> db w' = db w) \<and>
     (\<forall>w w' vs. sq_query_text sq SqlReadVersions w = (Inr vs, w') \<longrightarrow> mset vs = sv_stamps (db w)) \<and>
     (\<forall>w w' n. sq_query_int sq (SqlTableCount ''schema_migrations'') w = (Inr n, w') \<longrightarrow> n > 0 \<or> sv_stamps (db w) = {#})"

lemma migration_lawsD:
  assumes "migration_laws sq db tx script"
  shows "sq_begin sq w = (r, w') \<Longrightarrow> db w' = db w \<and> tx w' = db w"
    and "sq_execute sq (SqlMigration v) [] w = (Inr n, w') \<Longrightarrow> db w' = db w \<and>
           tx w' = (tx w)\<lparr>sv_content := script (sv_foreign_keys (tx w)) v (sv_content (tx w))\<rparr>"
    and "sq_execute sq SqlStampMigration [SText v, SText d] w = (Inr n, w') \<Longrightarrow> db w' = db w \<and>
           tx w' = (tx w)\<lparr>sv_stamps := add_mset v (sv_stamps (tx w))\<rparr>"
    and "sq_execute sq (SqlPragma ''foreign_keys'' v) [] w = (Inr n, w') \<Longrightarrow> db w' = (db w)\<lparr>sv_foreign_keys := (v = ''ON'')\<rparr>"
    and "sq_execute sq SqlCreateMigrations [] w = (r1, w') \<Longrightarrow> db w' = db w"
    and "sq_execute sq sql ps w = (Inl e, w') \<Longrightarrow> db w' = db w"
    and "sq_commit sq w = (Inr u, w') \<Longrightarrow> db w' = tx w"
    and "sq_commit sq w = (Inl e, w') \<Longrightarrow> db w' = db w"
    and "db (sq_rollback sq w) = db w"
    and "sq_query_int sq sql w = (r2, w') \<Longrightarrow> db w' = db w"
    and "sq_query_text sq sql w = (r3, w') \<Longrightarrow> db w' = db w"
    and "sq_query_text sq SqlReadVersions w = (Inr vs, w') \<Longrightarrow> mset vs = sv_stamps (db w)"
    and "sq_query_int sq (SqlTableCount ''schema_migrations'') w = (Inr k, w') \<Longrightarrow> k > 0 \<or> sv_stamps (db w) = {#}"
  by (insert assms; unfold migration_laws_def; elim conjE; meson)+

text \<open>Errors that come from SQLite itself.\<close>

definition sql_errors :: "('w, 'a) io \<Rightarrow> bool" where
  "sql_errors m \<longleftrightarrow> (\<forall>w e w'. m w = (Inl e, w') \<longrightarrow> (\<exists>x. e = Sqlite x))"

lemma sql_errorsD: "sql_errors m \<Longrightarrow> m w = (Inl e, w') \<Longrightarrow> \<exists>x. e = Sqlite x"
  unfolding sql_errors_def by blast

lemma sql_errors_intros [intro, simp]:
  "sql_errors (io_return a)" "sql_errors (Pair (Inr a))" "sql_errors (io_sql q)"
  by (auto simp: sql_errors_def)

lemma sql_errors_bind [intro]: "sql_errors m \<Longrightarrow> (\<And>a. sql_errors (f a)) \<Longrightarrow> sql_errors (io_bind m f)"
  unfolding sql_errors_def io_bind_Inl_iff by blast

lemma sql_errors_ops [simp]:
  "sql_errors (execute_batch sq sql)" "sql_errors (read_applied_versions sq)" "sql_errors (apply_migration sq m)"
proof -
  show b: "sql_errors (execute_batch sq sql)" for sql unfolding execute_batch_def by (intro sql_errors_bind) simp_all
  have t: "sql_errors (table_exists sq n)" for n unfolding table_exists_def by (intro sql_errors_bind) simp_all
  show "sql_errors (read_applied_versions sq)" unfolding read_applied_versions_def using t by (intro sql_errors_bind) simp_all
  have "sql_errors (in_transaction sq work)" if "sql_errors work" for work :: "('a, 'b) io"
    using sql_errorsD[OF that] by (auto simp: sql_errors_def in_transaction_def split: prod.splits sum.splits)
  moreover have "sql_errors (io_bind (execute_batch sq sql) (\<lambda>_. io_sql q))" for sql q and q' :: "('a, 'b) io"
    using b by (intro sql_errors_bind) simp_all
  ultimately have "sql_errors (run_script sq m)" unfolding run_script_def by blast
  thus "sql_errors (apply_migration sq m)"
    unfolding apply_migration_def foreign_keys_def using b by (intro sql_errors_bind) (simp_all del: io_simps split: if_split)
qed

lemma sql_errors_migrate_each: "sql_errors (migrate_each sq applied target ms)"
  by (induction ms) (auto intro: sql_errors_bind)

lemma read_applied_view:
  assumes "migration_laws sq db tx script" "read_applied_versions sq w = (r, w')"
  shows "db w' = db w" and "r = Inr vs \<Longrightarrow> mset vs = sv_stamps (db w)"
proof -
  obtain n w1 where n: "sq_query_int sq (SqlTableCount ''schema_migrations'') w = (n, w1)" by fastforce
  obtain t w2 where t: "sq_query_text sq SqlReadVersions w1 = (t, w2)" by fastforce
  note L = migration_lawsD[OF assms(1)]
  have d: "db w1 = db w" "db w2 = db w" using L(10)[OF n] L(11)[OF t] by simp_all
  show "db w' = db w"
    using assms(2) n t d by (auto simp: read_applied_versions_def table_exists_def io_bind_def io_sql_def split: sum.splits if_splits)
  show "mset vs = sv_stamps (db w)" if "r = Inr vs"
    using assms(2) that n t d L(12)[of w1 vs w2] L(13)[of w _ w1]
    by (auto simp: read_applied_versions_def table_exists_def io_bind_def io_sql_def split: sum.splits if_splits)
qed

text \<open>The effect of running migrations and stamping them: a migration that asks for it runs
  without foreign keys, any other with them.\<close>

definition script_effect :: "(bool \<Rightarrow> string \<Rightarrow> 's \<Rightarrow> 's) \<Rightarrow> Migration list \<Rightarrow> 's \<Rightarrow> 's" where
  "script_effect script ms = fold (\<lambda>m. script (\<not> mig_disable_foreign_keys m) (mig_version m)) ms"

definition migrated :: "(bool \<Rightarrow> string \<Rightarrow> 's \<Rightarrow> 's) \<Rightarrow> Migration list \<Rightarrow> 's schema_view \<Rightarrow> 's schema_view \<Rightarrow> bool" where
  "migrated script ms v v' \<longleftrightarrow>
     sv_content v' = script_effect script ms (sv_content v) \<and> sv_stamps v' = sv_stamps v + mset (map mig_version ms)"

lemma migrated_Nil [simp]: "migrated script [] v v' \<longleftrightarrow> sv_content v' = sv_content v \<and> sv_stamps v' = sv_stamps v"
  by (simp add: migrated_def script_effect_def)

lemma migrated_Cons: "migrated script [m] v v1 \<Longrightarrow> migrated script ms v1 v' \<Longrightarrow> migrated script (m # ms) v v'"
  by (simp add: migrated_def script_effect_def)

lemma run_script_view:
  assumes "migration_laws sq db tx script" "run_script sq m w = (r, w')"
  shows "(\<exists>n. r = Inr n \<and> db w' = (db w)\<lparr>sv_content := script (sv_foreign_keys (db w)) (mig_version m) (sv_content (db w)),
            sv_stamps := add_mset (mig_version m) (sv_stamps (db w))\<rparr>) \<or>
         (\<exists>e. r = Inl e \<and> db w' = db w)"
proof -
  note L = migration_lawsD[OF assms(1)]
  obtain r1 w1 where b: "sq_begin sq w = (r1, w1)" by fastforce
  obtain r2 w2 where x: "sq_execute sq (SqlMigration (mig_version m)) [] w1 = (r2, w2)" by fastforce
  obtain r3 w3 where y: "sq_execute sq SqlStampMigration [SText (mig_version m), SText (mig_description m)] w2 = (r3, w3)"
    by fastforce
  obtain r4 w4 where c: "sq_commit sq w3 = (r4, w4)" by fastforce
  have 1: "db w1 = db w" "tx w1 = db w" using L(1)[OF b] by simp_all
  have db2: "db w2 = db w" using x L(2)[of "mig_version m" w1 _ w2] L(6)[of _ _ w1 _ w2] 1(1) by (cases r2) auto
  have tx2: "tx w2 = (db w)\<lparr>sv_content := script (sv_foreign_keys (db w)) (mig_version m) (sv_content (db w))\<rparr>" if "r2 = Inr n" for n
    using L(2)[OF x[unfolded that]] 1(2) by simp
  have db3: "db w3 = db w"
    using y L(3)[of "mig_version m" "mig_description m" w2 _ w3] L(6)[of _ _ w2 _ w3] db2 by (cases r3) auto
  have tx3: "tx w3 = (tx w2)\<lparr>sv_stamps := add_mset (mig_version m) (sv_stamps (tx w2))\<rparr>" if "r3 = Inr n" for n
    using L(3)[OF y[unfolded that]] by simp
  have "db w4 = tx w3" if "r4 = Inr u" for u using L(7)[OF c[unfolded that]] .
  moreover have "db (sq_rollback sq w4) = db w" if "r4 = Inl e" for e using L(8)[OF c[unfolded that]] L(9) db3 by simp
  moreover have "db (sq_rollback sq w2) = db w" "db (sq_rollback sq w3) = db w" using L(9) db2 db3 by simp_all
  ultimately show ?thesis
    using assms(2) b x y c 1(1) tx2 tx3
    by (auto simp: run_script_def in_transaction_def execute_batch_def io_bind_def io_sql_def split: sum.splits)
qed

lemma foreign_keys_view:
  assumes "migration_laws sq db tx script" "foreign_keys sq on w = (r, w')"
  shows "(r = Inr () \<and> db w' = (db w)\<lparr>sv_foreign_keys := on\<rparr>) \<or> (\<exists>e. r = Inl e \<and> db w' = db w)"
proof -
  let ?sql = "SqlPragma ''foreign_keys'' (if on then ''ON'' else ''OFF'')"
  obtain q w1 where q: "sq_execute sq ?sql [] w = (q, w1)" by fastforce
  show ?thesis
    using assms(2) q migration_lawsD(4)[OF assms(1), of "if on then ''ON'' else ''OFF''" w _ w1]
      migration_lawsD(6)[OF assms(1), of ?sql "[]" w _ w1]
    by (cases q) (auto simp: foreign_keys_def execute_batch_def io_bind_def io_sql_def)
qed

lemma apply_migration_view:
  assumes laws: "migration_laws sq db tx script" and run: "apply_migration sq m w = (r, w')" and fk: "sv_foreign_keys (db w)"
  shows "(r = Inr () \<and> migrated script [m] (db w) (db w') \<and> sv_foreign_keys (db w')) \<or>
         (\<exists>e. r = Inl e \<and> (migrated script [] (db w) (db w') \<or> migrated script [m] (db w) (db w')))"
proof (cases "mig_disable_foreign_keys m")
  case False
  thus ?thesis using run run_script_view[OF laws, of m w] fk
    by (cases "run_script sq m w") (auto simp: apply_migration_def io_bind_def migrated_def script_effect_def)
next
  case True
  obtain r1 w1 where 1: "foreign_keys sq False w = (r1, w1)" by fastforce
  obtain r2 w2 where 2: "run_script sq m w1 = (r2, w2)" by fastforce
  obtain r3 w3 where 3: "foreign_keys sq True w2 = (r3, w3)" by fastforce
  show ?thesis
    using run True 1 2 3 foreign_keys_view[OF laws 1] run_script_view[OF laws 2] foreign_keys_view[OF laws 3]
    by (auto simp: apply_migration_def io_bind_def migrated_def script_effect_def)
qed

definition pending_migrations :: "string set \<Rightarrow> Migration list \<Rightarrow> Migration list" where
  "pending_migrations applied ms = filter (\<lambda>m. mig_version m \<notin> applied) ms"

lemma migrate_each_view:
  assumes laws: "migration_laws sq db tx script" and "migrate_each sq applied None ms w = (r, w')" "sv_foreign_keys (db w)"
  shows "\<exists>k \<le> length (pending_migrations (set applied) ms).
           migrated script (take k (pending_migrations (set applied) ms)) (db w) (db w') \<and>
           (r = Inr () \<longrightarrow> k = length (pending_migrations (set applied) ms) \<and> sv_foreign_keys (db w'))"
  using assms(2,3)
proof (induction ms arbitrary: w)
  case Nil
  thus ?case by (simp add: pending_migrations_def)
next
  case (Cons m ms)
  let ?pending = "pending_migrations (set applied)"
  show ?case
  proof (cases "mig_version m \<in> set applied")
    case True
    thus ?thesis using Cons by (simp add: pending_migrations_def)
  next
    case False
    obtain r1 w1 where 1: "apply_migration sq m w = (r1, w1)" by fastforce
    have p: "?pending (m # ms) = m # ?pending ms" using False by (simp add: pending_migrations_def)
    note a = apply_migration_view[OF laws 1 Cons.prems(2)]
    show ?thesis
    proof (cases r1)
      case (Inl e)
      hence "r = Inl e" "w' = w1" using Cons.prems(1) False 1 by (simp_all add: io_bind_def)
      moreover have "migrated script (take 0 (?pending (m # ms))) (db w) (db w1) \<or>
          migrated script (take 1 (?pending (m # ms))) (db w) (db w1)" using a Inl p by simp
      ultimately show ?thesis using p by (metis One_nat_def Inl_Inr_False le0 le_add2 length_Cons add.commute plus_1_eq_Suc)
    next
      case (Inr u)
      hence "migrate_each sq applied None ms w1 = (r, w')" "sv_foreign_keys (db w1)" "migrated script [m] (db w) (db w1)"
        using Cons.prems(1) False 1 a by (auto simp: io_bind_def)
      from Cons.IH[OF this(1,2)] migrated_Cons[OF this(3)] p show ?thesis
        by (metis Suc_le_mono length_Cons take_Suc_Cons)
    qed
  qed
qed

lemma max_version_None [simp]: "max_version vs = None \<longleftrightarrow> vs = []"
  by (cases vs) (auto split: option.splits)

lemma max_version_Some: "max_version vs = Some m \<Longrightarrow> m \<in> set vs \<and> (\<forall>v \<in> set vs. v \<le> m)"
proof (induction vs arbitrary: m)
  case (Cons v vs)
  show ?case
  proof (cases "max_version vs")
    case None
    thus ?thesis using Cons.prems by auto
  next
    case (Some u)
    hence "m = max v u" using Cons.prems by simp
    thus ?thesis using Cons.IH[OF Some] by (auto simp: max_def)
  qed
qed simp

lemma max_version_gt: "(\<exists>v \<in> set vs. v > l) \<longleftrightarrow> (\<exists>m. max_version vs = Some m \<and> m > l)"
proof (cases "max_version vs")
  case (Some m)
  thus ?thesis using max_version_Some[OF Some] by (auto intro: order.strict_trans2)
qed simp

lemma sorted_le_last: "sorted xs \<Longrightarrow> v \<in> set xs \<Longrightarrow> v \<le> last xs"
  by (induction xs) auto

text \<open>A database that carries a stamp this binary does not know.\<close>

definition stamped_newer :: "'s schema_view \<Rightarrow> bool" where
  "stamped_newer v \<longleftrightarrow> (\<exists>u \<in># sv_stamps v. u > ''005'')"

lemma latest_is_005: "latest_schema_version = ''005''"
  by (simp add: latest_schema_version_def MIGRATIONS_def)

lemma migrate_cases:
  assumes laws: "migration_laws sq db tx script" and run: "migrate sq w = (r, w')"
  obtains (failed) x where "r = Inl (Sqlite x)" "db w' = db w"
  | (refused) v where "r = Inl (StartupFailed (newer_message v))" "db w' = db w" "stamped_newer (db w)"
  | (applied) vs w1 where "db w1 = db w" "\<not> stamped_newer (db w)" "set vs = set_mset (sv_stamps (db w))"
      "migrate_each sq vs None MIGRATIONS w1 = (r, w')"
proof -
  obtain r1 w1 where 1: "execute_batch sq SqlCreateMigrations w = (r1, w1)" by fastforce
  obtain r2 w2 where 2: "read_applied_versions sq w1 = (r2, w2)" by fastforce
  have s1: "db w1 = db w"
    using 1 migration_lawsD(5)[OF laws] by (fastforce simp: execute_batch_def io_bind_def io_sql_def split: prod.splits sum.splits)
  have s2: "db w2 = db w" using read_applied_view(1)[OF laws 2] s1 by simp
  show thesis
  proof (cases "\<exists>u vs. r1 = Inr u \<and> r2 = Inr vs")
    case False
    hence "\<exists>e. r = Inl e \<and> db w' = db w \<and> ((r1 = Inl e) \<or> (r2 = Inl e))" using run 1 2 s1 s2
      by (cases r1; cases r2) (auto simp: migrate_def migrate_inner_def io_bind_def)
    thus thesis using sql_errorsD[OF sql_errors_ops(1)] sql_errorsD[OF sql_errors_ops(2)] 1 2 failed by metis
  next
    case True
    then obtain vs where vs: "r1 = Inr ()" "r2 = Inr vs" by auto
    hence "mset vs = sv_stamps (db w)" using read_applied_view(2)[OF laws 2] s1 by simp
    hence set: "set vs = set_mset (sv_stamps (db w))" by (metis set_mset_mset)
    hence newer: "stamped_newer (db w) \<longleftrightarrow> (\<exists>m. max_version vs = Some m \<and> m > latest_schema_version)"
      unfolding stamped_newer_def latest_is_005 using max_version_gt[of vs "''005''"] by simp
    show thesis
    proof (cases "stamped_newer (db w)")
      case True
      then obtain m where m: "max_version vs = Some m" "m > latest_schema_version" using newer by blast
      hence "r = Inl (StartupFailed (newer_message m))" "w' = w2"
        using run 1 2 vs by (simp_all add: migrate_def migrate_inner_def io_bind_def)
      thus thesis using refused s2 True by simp
    next
      case False
      hence "migrate_each sq vs None MIGRATIONS w2 = (r, w')"
        using run 1 2 vs newer by (auto simp: migrate_def migrate_inner_def io_bind_def split: option.splits if_splits)
      thus thesis using applied s2 False set by blast
    qed
  qed
qed

section \<open>Properties\<close>

text \<open>
  C24: Migration is resumable and complete.  On a connection that enforces foreign keys, as
  opening leaves it, and however the migration ends, there is a prefix of the pending migrations such
  that exactly these have run their scripts, in order and each once, and exactly these are newly
  stamped: no script without its stamp and no stamp without its script.  A migration that asks for it
  ran without foreign keys, the others with them.  A migration that succeeds has run all
  pending ones, so that every version this binary knows is stamped, and foreign keys are enforced
  again.  A database stamped by a newer binary is refused and left as it was.
\<close>

theorem migrate_resumable:
  assumes "migration_laws sq db tx script" "migrate sq w = (r, w')" "sv_foreign_keys (db w)"
  shows "(let pending = pending_migrations (set_mset (sv_stamps (db w))) MIGRATIONS
          in \<exists>k \<le> length pending. migrated script (take k pending) (db w) (db w') \<and>
               (r = Inr () \<longrightarrow> k = length pending \<and> sv_foreign_keys (db w') \<and>
                  set (map mig_version MIGRATIONS) \<subseteq> set_mset (sv_stamps (db w')))) \<and>
         (stamped_newer (db w) \<longrightarrow> (\<exists>e. r = Inl e) \<and> db w' = db w)"
  using assms(1,2)
proof (cases rule: migrate_cases)
  case (applied vs w1)
  let ?pending = "pending_migrations (set_mset (sv_stamps (db w))) MIGRATIONS"
  obtain k where k: "k \<le> length ?pending" "migrated script (take k ?pending) (db w) (db w')"
    "r = Inr () \<longrightarrow> k = length ?pending \<and> sv_foreign_keys (db w')"
    using migrate_each_view[OF assms(1) applied(4)] assms(3) applied(1,3) by auto
  have "set (map mig_version MIGRATIONS) \<subseteq> set_mset (sv_stamps (db w) + mset (map mig_version ?pending))"
    by (auto simp: pending_migrations_def)
  hence "r = Inr () \<longrightarrow> set (map mig_version MIGRATIONS) \<subseteq> set_mset (sv_stamps (db w'))"
    using k(2,3) by (simp add: migrated_def)
  thus ?thesis using k applied(2) unfolding Let_def by blast
qed (auto simp: Let_def intro: exI[of _ 0])

text \<open>
  C25: The read-only preflight predicts the migration.  \<open>inspect_schema\<close> changes nothing; it reports the
  stamps in ascending order and flags a database as newer exactly when it carries a stamp beyond
  \<open>005\<close>.  Its pending list is exactly what a successful migration then runs and stamps.  A flagged
  database is never migrated: the migration refuses it, unless SQLite fails before, and
  leaves it as it was; and the migration refuses no other database.
\<close>

theorem inspect_predicts_migrate:
  assumes laws: "migration_laws sq db tx script" and fk: "sv_foreign_keys (db w)"
    and ins: "inspect_schema sq w = (Inr status, w1)" and mig: "migrate sq w1 = (r, w2)"
  shows "db w1 = db w \<and> ss_latest_known status = ''005'' \<and>
         sorted (ss_applied status) \<and> mset (ss_applied status) = sv_stamps (db w) \<and>
         (ss_newer_than_binary status \<longleftrightarrow> stamped_newer (db w)) \<and>
         (r = Inr () \<longrightarrow> (\<exists>ms. ss_pending status = map mig_version ms \<and> set ms \<subseteq> set MIGRATIONS \<and> migrated script ms (db w) (db w2))) \<and>
         (ss_newer_than_binary status \<longrightarrow>
            ((\<exists>m. r = Inl (StartupFailed m)) \<or> (\<exists>x. r = Inl (Sqlite x))) \<and> db w2 = db w) \<and>
         ((\<exists>m. r = Inl (StartupFailed m)) \<longrightarrow> ss_newer_than_binary status)"
proof -
  have sort_Nil: "sort xs = [] \<longleftrightarrow> xs = []" for xs :: "string list" by (metis length_0_conv length_sort)
  obtain vs w0 where rd: "read_applied_versions sq w = (Inr vs, w0)"
    and status: "ss_applied status = sort vs" "ss_pending status = map mig_version (pending_migrations (set vs) MIGRATIONS)"
      "ss_newer_than_binary status \<longleftrightarrow> vs \<noteq> [] \<and> last (sort vs) > latest_schema_version"
      "ss_latest_known status = latest_schema_version"
    and te: "\<exists>b. table_exists sq ''log_event'' w0 = (Inr b, w1)"
    using ins by (auto simp: inspect_schema_def Let_def io_bind_Inr_iff pending_migrations_def sort_Nil)
  have vs: "mset vs = sv_stamps (db w)" using read_applied_view(2)[OF laws rd] by simp
  hence set: "set vs = set_mset (sv_stamps (db w))" by (metis set_mset_mset)
  have "db w0 = db w" using read_applied_view(1)[OF laws rd] .
  moreover have "db w1 = db w0"
    using te by (auto simp: table_exists_def io_bind_Inr_iff dest: migration_lawsD(10)[OF laws])
  ultimately have w1: "db w1 = db w" by simp
  have "vs \<noteq> [] \<and> last (sort vs) > l \<longleftrightarrow> (\<exists>v \<in> set vs. v > l)" for l
  proof
    assume "\<exists>v \<in> set vs. v > l"
    then obtain v where v: "v \<in> set (sort vs)" "v > l" by auto
    hence "sort vs \<noteq> []" by (auto simp: sort_Nil)
    moreover have "v \<le> last (sort vs)" using v(1) by (simp add: sorted_le_last)
    ultimately show "vs \<noteq> [] \<and> last (sort vs) > l" using v(2) by auto
  next
    assume a: "vs \<noteq> [] \<and> last (sort vs) > l"
    hence "sort vs \<noteq> []" by (simp add: sort_Nil)
    hence "last (sort vs) \<in> set vs" by (metis last_in_set set_sort)
    thus "\<exists>v \<in> set vs. v > l" using a by blast
  qed
  hence newer: "ss_newer_than_binary status \<longleftrightarrow> stamped_newer (db w)"
    using status(3) set by (simp add: stamped_newer_def latest_is_005)
  note facts = w1 newer status latest_is_005 vs
  show ?thesis using laws mig
  proof (cases rule: migrate_cases)
    case (applied us w3)
    have "set us = set vs" using applied(3) set w1 by simp
    then obtain k where "migrated script (take k (pending_migrations (set vs) MIGRATIONS)) (db w) (db w2)"
      "r = Inr () \<longrightarrow> k = length (pending_migrations (set vs) MIGRATIONS)"
      using migrate_each_view[OF laws applied(4)] fk applied(1) w1 by auto
    moreover have "set (pending_migrations (set vs) MIGRATIONS) \<subseteq> set MIGRATIONS" by (auto simp: pending_migrations_def)
    moreover have "\<nexists>m. r = Inl (StartupFailed m)" using sql_errorsD[OF sql_errors_migrate_each, of sq us None MIGRATIONS w3] applied(4) by fastforce
    ultimately show ?thesis using facts applied(2) by auto
  qed (use facts in auto)
qed

subsection \<open>Witnesses\<close>

text \<open>A database whose content is the list of the scripts that ran, with the enforcement they saw.\<close>

type_synonym script_log = "(string \<times> bool) list schema_view"

definition stamp_sqlite :: "(script_log \<times> script_log) sqlite" where
  "stamp_sqlite =
     \<lparr>sq_begin = \<lambda>w. (Inr (), (fst w, fst w)),
      sq_prepare = \<lambda>_ w. (Inr (), w),
      sq_execute = \<lambda>sql ps w.
        (Inr 0,
         case (sql, ps) of
           (SqlMigration v, []) \<Rightarrow> (fst w, (snd w)\<lparr>sv_content := sv_content (snd w) @ [(v, sv_foreign_keys (snd w))]\<rparr>)
         | (SqlStampMigration, [SText v, SText d]) \<Rightarrow> (fst w, (snd w)\<lparr>sv_stamps := add_mset v (sv_stamps (snd w))\<rparr>)
         | (SqlPragma name v, []) \<Rightarrow>
             (if name = ''foreign_keys'' then ((fst w)\<lparr>sv_foreign_keys := (v = ''ON'')\<rparr>, snd w) else w)
         | _ \<Rightarrow> w),
      sq_query_int = \<lambda>_ w. (Inr 1, w),
      sq_query_text = \<lambda>_ w. (Inr (sorted_list_of_multiset (sv_stamps (fst w))), w),
      sq_commit = \<lambda>w. (Inr (), (snd w, snd w)),
      sq_rollback = \<lambda>w. (fst w, fst w),
      sq_file_size = \<lambda>_. None, sq_wal_size = \<lambda>_. None\<rparr>"

definition log_script :: "bool \<Rightarrow> string \<Rightarrow> (string \<times> bool) list \<Rightarrow> (string \<times> bool) list" where
  "log_script fk v content = content @ [(v, fk)]"

definition stamped_at :: "string list \<Rightarrow> script_log" where
  "stamped_at vs = \<lparr>sv_content = [], sv_stamps = mset vs, sv_foreign_keys = True\<rparr>"

lemma stamp_sqlite_laws: "migration_laws stamp_sqlite fst snd log_script"
  unfolding migration_laws_def stamp_sqlite_def log_script_def by auto

lemma stamped_at_simps [simp]:
  "sorted_list_of_multiset (sv_stamps (stamped_at vs)) = sort vs" "sv_foreign_keys (stamped_at vs)"
  by (simp_all add: stamped_at_def)

theorem migrate_resumable_witness:
  "sv_content (fst (snd (migrate stamp_sqlite (stamped_at [''000'', ''001''], stamped_at [])))) =
     [(''002'', True), (''003'', True), (''004'', False), (''005'', True)]"
proof -
  let ?w = "(stamped_at [''000'', ''001''], stamped_at [])"
  obtain r w' where run: "migrate stamp_sqlite ?w = (r, w')" by (rule prod.exhaust)
  have ok: "r = Inr ()"
    using run by (auto simp: migrate_def migrate_inner_def MIGRATIONS_def latest_schema_version_def max_def
        apply_migration_def foreign_keys_def run_script_def in_transaction_def execute_batch_def
        read_applied_versions_def table_exists_def io_bind_def io_sql_def stamp_sqlite_def)
  have pend: "pending_migrations (set_mset (sv_stamps (fst ?w))) MIGRATIONS = drop 2 MIGRATIONS"
    by (simp add: pending_migrations_def MIGRATIONS_def stamped_at_def)
  have "migrated log_script (drop 2 MIGRATIONS) (fst ?w) (fst w')"
    using migrate_resumable[OF stamp_sqlite_laws run] ok unfolding pend by auto
  thus ?thesis using run by (simp add: migrated_def script_effect_def log_script_def MIGRATIONS_def stamped_at_def)
qed

theorem inspect_predicts_migrate_witness:
  "\<exists>status w1 r w2. inspect_schema stamp_sqlite (stamped_at [''000'', ''006''], stamped_at []) = (Inr status, w1) \<and>
     migrate stamp_sqlite w1 = (r, w2) \<and> ss_newer_than_binary status \<and> (\<exists>e. r = Inl e) \<and> fst w2 = stamped_at [''000'', ''006'']"
proof -
  let ?w = "(stamped_at [''000'', ''006''], stamped_at [])"
  obtain status w1 where ins: "inspect_schema stamp_sqlite ?w = (Inr status, w1)"
    by (simp add: inspect_schema_def read_applied_versions_def table_exists_def io_bind_def io_sql_def stamp_sqlite_def)
  obtain r w2 where mig: "migrate stamp_sqlite w1 = (r, w2)" by (rule prod.exhaust)
  have "stamped_newer (fst ?w)" by (simp add: stamped_newer_def stamped_at_def less_list_code)
  hence "ss_newer_than_binary status" "(\<exists>e. r = Inl e) \<and> fst w2 = fst ?w"
    using inspect_predicts_migrate[OF stamp_sqlite_laws _ ins mig] by auto
  thus ?thesis using ins mig by (intro exI[of _ status] exI[of _ w1] exI[of _ r] exI[of _ w2]) simp
qed

end
