(* ===== verification/Commit_Ledger.thy ===== *)
theory Commit_Ledger
  imports Otel_Prelude
begin

text \<open>
  The commit-ticket ledger (\<open>crates/otel-sqlite-core/src/storage/commit.rs\<close>): the data it
  keeps, every operation on it, its invariant, its abstract specification, and
  the interleaving of its two-phase publication.
\<close>

section \<open>Data\<close>

record Watermark =
  wm_committed_through :: u64
  wm_closed :: bool

record TicketProgress =
  tp_committed :: u64
  tp_dropped :: u64

datatype TicketState =
    Unsettled TicketProgress
  | Completed
  | FailedTicket TicketProgress

datatype CommitOutcome =
    Committed
  | FailedOutcome u64 u64
  | Closed

datatype CommitLedgerClosed = CommitLedgerClosed

record Inner =
  settled_above :: "u64 fset"
  committed_through :: u64
  progress :: "u64 \<rightharpoonup> TicketProgress"
  failed :: "u64 fset"
  last_advance_ms :: u64
  closed :: bool

record CommitLedger =
  next_ticket :: u64
  inner :: Inner
  updates :: Watermark

definition default_progress :: TicketProgress where
  "default_progress = \<lparr>tp_committed = 0, tp_dropped = 0\<rparr>"

definition progress_of :: "Inner \<Rightarrow> u64 \<Rightarrow> TicketProgress" where
  "progress_of i ticket = (case progress i ticket of Some p \<Rightarrow> p | None \<Rightarrow> default_progress)"

definition is_settled :: "Inner \<Rightarrow> u64 \<Rightarrow> bool" where
  "is_settled i ticket \<longleftrightarrow> ticket \<le> committed_through i \<or> ticket |\<in>| settled_above i"

section \<open>Operations\<close>

definition new_ledger :: "u64 \<Rightarrow> CommitLedger" where
  "new_ledger now_ms =
     \<lparr>next_ticket = 0,
      inner = \<lparr>settled_above = {||}, committed_through = 0, progress = Map.empty,
               failed = {||}, last_advance_ms = now_ms, closed = False\<rparr>,
      updates = \<lparr>wm_committed_through = 0, wm_closed = False\<rparr>\<rparr>"

definition issue :: "CommitLedger \<Rightarrow> u64 \<times> CommitLedger" where
  "issue l = (wrapping_add (next_ticket l) 1,
              l\<lparr>next_ticket := wrapping_add (next_ticket l) 1\<rparr>)"

definition note_committed_inner :: "u64 \<Rightarrow> u64 \<Rightarrow> Inner \<Rightarrow> Inner" where
  "note_committed_inner ticket records i =
     (if ticket = 0 \<or> records = 0 then i
      else if is_settled i ticket then i
      else let p = progress_of i ticket
           in i\<lparr>progress := (progress i)(ticket \<mapsto>
                  p\<lparr>tp_committed := saturating_add (tp_committed p) records\<rparr>)\<rparr>)"

definition note_committed :: "u64 \<Rightarrow> u64 \<Rightarrow> CommitLedger \<Rightarrow> CommitLedger" where
  "note_committed ticket records l = l\<lparr>inner := note_committed_inner ticket records (inner l)\<rparr>"

definition note_dropped_inner :: "u64 \<Rightarrow> u64 \<Rightarrow> Inner \<Rightarrow> Inner" where
  "note_dropped_inner ticket records i =
     (if ticket = 0 \<or> records = 0 then i
      else if is_settled i ticket then i
      else let p = progress_of i ticket
           in i\<lparr>progress := (progress i)(ticket \<mapsto>
                  p\<lparr>tp_dropped := saturating_add (tp_dropped p) records\<rparr>)\<rparr>)"

definition note_dropped :: "u64 \<Rightarrow> u64 \<Rightarrow> CommitLedger \<Rightarrow> CommitLedger" where
  "note_dropped ticket records l = l\<lparr>inner := note_dropped_inner ticket records (inner l)\<rparr>"

text \<open>The \<open>while inner.settled_above.remove(&next)\<close> loop of \<open>settle\<close>.\<close>

function absorb :: "u64 \<Rightarrow> u64 \<Rightarrow> u64 fset \<Rightarrow> u64 \<times> u64 fset" where
  "absorb through nxt parked =
     (if nxt |\<in>| parked
      then absorb nxt (wrapping_add nxt 1) (parked |-| {|nxt|})
      else (through, parked))"
  by pat_completeness auto
termination
  by (relation "measure (\<lambda>(_, _, parked). fcard parked)") (auto intro: fcard_fminus1_less simp del: fcard_fminus_finsert)

declare absorb.simps [simp del]

text \<open>The part of \<open>settle\<close> that runs under the mutex; \<open>None\<close> is the early return of an
  already settled ticket, which publishes nothing.\<close>

definition settle_locked :: "u64 \<Rightarrow> u64 \<Rightarrow> bool \<Rightarrow> Inner \<Rightarrow> (Inner \<times> Watermark) option" where
  "settle_locked now_ms ticket voided i =
     (if is_settled i ticket then None
      else
        let p = progress_of i ticket;
            has_failed = (\<not> voided \<and> tp_dropped p > 0);
            i1 = (if has_failed then i\<lparr>failed := finsert ticket (failed i)\<rparr> else i);
            i2 = (if \<not> has_failed then i1\<lparr>progress := (progress i1)(ticket := None)\<rparr> else i1);
            i3 = (if ticket = wrapping_add (committed_through i2) 1
                  then case absorb ticket (wrapping_add ticket 1) (settled_above i2) of
                         (through, parked) \<Rightarrow>
                           i2\<lparr>committed_through := through, settled_above := parked,
                              last_advance_ms := now_ms\<rparr>
                  else if ticket > committed_through i2
                  then i2\<lparr>settled_above := finsert ticket (settled_above i2)\<rparr>
                  else i2)
        in Some (i3, \<lparr>wm_committed_through = committed_through i3, wm_closed = closed i3\<rparr>))"

definition settle :: "u64 \<Rightarrow> u64 \<Rightarrow> bool \<Rightarrow> CommitLedger \<Rightarrow> CommitLedger" where
  "settle now_ms ticket voided l =
     (if ticket = 0 then l
      else case settle_locked now_ms ticket voided (inner l) of
             None \<Rightarrow> l
           | Some (i, w) \<Rightarrow> l\<lparr>inner := i, updates := w\<rparr>)"

definition complete :: "u64 \<Rightarrow> u64 \<Rightarrow> CommitLedger \<Rightarrow> CommitLedger" where
  "complete now_ms ticket l = settle now_ms ticket False l"

definition void :: "u64 \<Rightarrow> u64 \<Rightarrow> CommitLedger \<Rightarrow> CommitLedger" where
  "void now_ms ticket l = settle now_ms ticket True l"

definition state_inner :: "Inner \<Rightarrow> u64 \<Rightarrow> TicketState" where
  "state_inner i ticket =
     (if ticket = 0 then Completed
      else if ticket |\<in>| failed i then FailedTicket (progress_of i ticket)
      else if is_settled i ticket then Completed
      else Unsettled (progress_of i ticket))"

definition state :: "CommitLedger \<Rightarrow> u64 \<Rightarrow> TicketState" where
  "state l ticket = state_inner (inner l) ticket"

definition close_locked :: "Inner \<Rightarrow> Inner \<times> Watermark" where
  "close_locked i = (i\<lparr>closed := True\<rparr>,
                     \<lparr>wm_committed_through = committed_through i, wm_closed = True\<rparr>)"

definition close :: "CommitLedger \<Rightarrow> CommitLedger" where
  "close l = (case close_locked (inner l) of (i, w) \<Rightarrow> l\<lparr>inner := i, updates := w\<rparr>)"

definition watermark :: "CommitLedger \<Rightarrow> Watermark" where
  "watermark l = updates l"

definition outstanding_tickets :: "CommitLedger \<Rightarrow> u64" where
  "outstanding_tickets l =
     next_ticket l - committed_through (inner l) - fcard (settled_above (inner l))"

section \<open>Waiting\<close>

text \<open>
  A waiter subscribes to the watch channel and loops: it looks at the ledger, and
  suspends on \<open>changed()\<close> when it has no answer.  \<open>wait_poll\<close> and \<open>wait_watermark_poll\<close> are
  one turn of the two loops; the loops run over the sequence of wake-ups, each
  carrying the ledger as the waiter finds it, or the end of the channel.  A result
  \<open>None\<close> means that the waiter is still suspended after the given wake-ups.
\<close>

datatype wakeup = Changed CommitLedger | SenderDropped

definition wait_poll :: "CommitLedger \<Rightarrow> u64 \<Rightarrow> CommitOutcome option" where
  "wait_poll l ticket =
     (case state l ticket of
        Completed \<Rightarrow> Some Committed
      | FailedTicket p \<Rightarrow> Some (FailedOutcome (tp_committed p) (tp_dropped p))
      | Unsettled p \<Rightarrow> (if wm_closed (watermark l) then Some Closed else None))"

fun wait_loop :: "u64 \<Rightarrow> CommitLedger \<Rightarrow> wakeup list \<Rightarrow> CommitOutcome option" where
  "wait_loop ticket l wakes =
     (case wait_poll l ticket of
        Some r \<Rightarrow> Some r
      | None \<Rightarrow> (case wakes of
                   [] \<Rightarrow> None
                 | SenderDropped # _ \<Rightarrow> Some Closed
                 | Changed l' # ws \<Rightarrow> wait_loop ticket l' ws))"

definition wait :: "u64 \<Rightarrow> CommitLedger \<Rightarrow> wakeup list \<Rightarrow> CommitOutcome option" where
  "wait ticket l wakes = (if ticket = 0 then Some Committed else wait_loop ticket l wakes)"

definition wait_watermark_poll :: "CommitLedger \<Rightarrow> u64 \<Rightarrow> Watermark option" where
  "wait_watermark_poll l ticket =
     (let w = watermark l
      in if wm_committed_through w \<ge> ticket \<or> wm_closed w then Some w else None)"

fun wait_watermark_loop :: "u64 \<Rightarrow> CommitLedger \<Rightarrow> wakeup list \<Rightarrow> Watermark option" where
  "wait_watermark_loop ticket l wakes =
     (case wait_watermark_poll l ticket of
        Some w \<Rightarrow> Some w
      | None \<Rightarrow> (case wakes of
                   [] \<Rightarrow> None
                 | SenderDropped # _ \<Rightarrow>
                     Some \<lparr>wm_committed_through = wm_committed_through (watermark l), wm_closed = True\<rparr>
                 | Changed l' # ws \<Rightarrow> wait_watermark_loop ticket l' ws))"

definition wait_watermark :: "u64 \<Rightarrow> CommitLedger \<Rightarrow> wakeup list \<Rightarrow> Watermark option" where
  "wait_watermark ticket l wakes =
     (if ticket = 0 then Some (watermark l) else wait_watermark_loop ticket l wakes)"

definition committed :: "u64 \<Rightarrow> CommitLedger \<Rightarrow> wakeup list \<Rightarrow> (CommitLedgerClosed + unit) option" where
  "committed ticket l wakes =
     map_option (\<lambda>r. case r of
                       Committed \<Rightarrow> Inr ()
                     | FailedOutcome _ _ \<Rightarrow> Inl CommitLedgerClosed
                     | Closed \<Rightarrow> Inl CommitLedgerClosed) (wait ticket l wakes)"

declare wait_loop.simps [simp del] wait_watermark_loop.simps [simp del]

section \<open>Invariant\<close>

text \<open>The settled tickets: those below the watermark and those parked above it.\<close>

definition settled_tickets :: "Inner \<Rightarrow> u64 set" where
  "settled_tickets i = {1..committed_through i} \<union> fset (settled_above i)"

definition inner_inv :: "Inner \<Rightarrow> bool" where
  "inner_inv i \<longleftrightarrow>
     committed_through i \<le> U64_MAX \<and>
     (\<forall>t. t |\<in>| settled_above i \<longrightarrow> committed_through i + 1 < t \<and> t \<le> U64_MAX) \<and>
     (\<forall>t. t |\<in>| failed i \<longrightarrow>
        t \<noteq> 0 \<and> is_settled i t \<and> progress i t \<noteq> None \<and> tp_dropped (progress_of i t) > 0) \<and>
     (\<forall>t. progress i t \<noteq> None \<longrightarrow> t \<noteq> 0 \<and> (is_settled i t \<longrightarrow> t |\<in>| failed i)) \<and>
     (\<forall>t. tp_committed (progress_of i t) \<le> U64_MAX \<and> tp_dropped (progress_of i t) \<le> U64_MAX)"

definition ledger_inv :: "CommitLedger \<Rightarrow> bool" where
  "ledger_inv l \<longleftrightarrow>
     inner_inv (inner l) \<and>
     updates l = \<lparr>wm_committed_through = committed_through (inner l), wm_closed = closed (inner l)\<rparr>"

text \<open>Every settled ticket has been issued: what the callers keep by settling only
  tickets that \<open>issue\<close> returned.\<close>

definition issued_inv :: "CommitLedger \<Rightarrow> bool" where
  "issued_inv l \<longleftrightarrow> next_ticket l \<le> U64_MAX \<and> settled_tickets (inner l) \<subseteq> {1..next_ticket l}"

lemma is_settled_iff: "t \<noteq> 0 \<Longrightarrow> is_settled i t \<longleftrightarrow> t \<in> settled_tickets i"
  by (auto simp: is_settled_def settled_tickets_def)

lemma is_settled_0 [simp]: "is_settled i 0"
  by (simp add: is_settled_def)

lemma default_progress_simps [simp]:
  "tp_committed default_progress = 0" "tp_dropped default_progress = 0"
  by (simp_all add: default_progress_def)

lemma progress_of_Some [simp]: "progress i t = Some p \<Longrightarrow> progress_of i t = p"
  by (simp add: progress_of_def)

lemma progress_of_None [simp]: "progress i t = None \<Longrightarrow> progress_of i t = default_progress"
  by (simp add: progress_of_def)

text \<open>The absorbing loop moves the watermark to the end of the contiguous run of parked
  tickets and removes exactly that run.\<close>

lemma absorb_spec:
  assumes "absorb c nxt s = (c', s')" "nxt = wrapping_add c 1" "c \<le> U64_MAX"
    and "\<forall>t. t |\<in>| s \<longrightarrow> c < t \<and> t \<le> U64_MAX"
  shows "c \<le> c' \<and> c' \<le> U64_MAX \<and> {1..c'} \<union> fset s' = {1..c} \<union> fset s \<and>
         (\<forall>t. t |\<in>| s' \<longrightarrow> c' + 1 < t \<and> t \<le> U64_MAX)"
  using assms
proof (induction c nxt s rule: absorb.induct)
  case (1 c nxt s)
  show ?case
  proof (cases "nxt |\<in>| s")
    case True
    with "1.prems" have nxt: "nxt = c + 1" "c + 1 \<le> U64_MAX"
      by (auto simp: wrapping_add_def split: if_splits)
    have run: "absorb nxt (wrapping_add nxt 1) (s |-| {|nxt|}) = (c', s')"
      using "1.prems"(1) True by (subst (asm) absorb.simps) simp
    have parked: "\<forall>t. t |\<in>| s |-| {|nxt|} \<longrightarrow> nxt < t \<and> t \<le> U64_MAX"
      using "1.prems"(4) nxt(1) by (auto simp: order.strict_iff_order Suc_le_eq)
    have "nxt \<le> c' \<and> c' \<le> U64_MAX \<and> {1..c'} \<union> fset s' = {1..nxt} \<union> fset (s |-| {|nxt|}) \<and>
          (\<forall>t. t |\<in>| s' \<longrightarrow> c' + 1 < t \<and> t \<le> U64_MAX)"
      using "1.IH"[OF True run refl _ parked] nxt by simp
    moreover have "{1..nxt} \<union> fset (s |-| {|nxt|}) = {1..c} \<union> fset s"
      using True nxt(1) by (auto simp: le_Suc_eq)
    ultimately show ?thesis using nxt(1) by simp
  next
    case False
    hence "c' = c" "s' = s"
      using "1.prems"(1) by (simp_all add: absorb.simps[of c nxt s])
    moreover have "c + 1 < t" if "t |\<in>| s" for t
    proof -
      have "c < t" "t \<le> U64_MAX" "t \<noteq> nxt" using "1.prems"(4) that False by auto
      moreover from this have "nxt = c + 1" using "1.prems"(2) by (simp add: wrapping_add_def)
      ultimately show ?thesis by simp
    qed
    ultimately show ?thesis using "1.prems"(3,4) by auto
  qed
qed

text \<open>What \<open>settle_locked\<close> does to an unsettled ticket.\<close>

lemma settle_locked_settled: "is_settled i t \<Longrightarrow> settle_locked now t v i = None"
  by (simp add: settle_locked_def)

definition ticket_fails :: "Inner \<Rightarrow> u64 \<Rightarrow> bool \<Rightarrow> bool" where
  "ticket_fails i t v \<longleftrightarrow> \<not> v \<and> tp_dropped (progress_of i t) > 0"

definition settle_post :: "u64 \<Rightarrow> u64 \<Rightarrow> bool \<Rightarrow> Inner \<Rightarrow> Inner \<Rightarrow> bool" where
  "settle_post now t v i i' \<longleftrightarrow>
     settled_tickets i' = insert t (settled_tickets i) \<and>
     committed_through i \<le> committed_through i' \<and> committed_through i' \<le> U64_MAX \<and>
     (\<forall>u. u |\<in>| settled_above i' \<longrightarrow> committed_through i' + 1 < u \<and> u \<le> U64_MAX) \<and>
     failed i' = (if ticket_fails i t v then finsert t (failed i) else failed i) \<and>
     progress i' = (if ticket_fails i t v then progress i else (progress i)(t := None)) \<and>
     closed i' = closed i \<and>
     last_advance_ms i' = (if t = committed_through i + 1 then now else last_advance_ms i)"

abbreviation published :: "Inner \<Rightarrow> Watermark" where
  "published i \<equiv> \<lparr>wm_committed_through = committed_through i, wm_closed = closed i\<rparr>"

lemma settle_locked_unsettled:
  assumes "\<not> is_settled i t" "inner_inv i" "t \<le> U64_MAX"
  obtains i' where "settle_locked now t v i = Some (i', published i')" "settle_post now t v i i'"
proof -
  define base where "base = (if ticket_fails i t v then i\<lparr>failed := finsert t (failed i)\<rparr>
                             else i\<lparr>progress := (progress i)(t := None)\<rparr>)"
  have base: "committed_through base = committed_through i" "settled_above base = settled_above i"
    "failed base = (if ticket_fails i t v then finsert t (failed i) else failed i)"
    "progress base = (if ticket_fails i t v then progress i else (progress i)(t := None))"
    "closed base = closed i" "last_advance_ms base = last_advance_ms i"
    by (simp_all add: base_def)
  have below: "committed_through i < t" "wrapping_add (committed_through i) 1 = committed_through i + 1"
    using assms by (auto simp: is_settled_def wrapping_add_exact)
  show ?thesis
  proof (cases "t = committed_through i + 1")
    case True
    obtain c' s' where ab: "absorb t (wrapping_add t 1) (settled_above i) = (c', s')"
      by (cases "absorb t (wrapping_add t 1) (settled_above i)")
    have sp: "t \<le> c' \<and> c' \<le> U64_MAX \<and> {1..c'} \<union> fset s' = {1..t} \<union> fset (settled_above i) \<and>
          (\<forall>u. u |\<in>| s' \<longrightarrow> c' + 1 < u \<and> u \<le> U64_MAX)"
      using assms True by (intro absorb_spec[OF ab refl]) (auto simp: inner_inv_def)
    have seg: "{1..t} = insert t {1..committed_through i}" using True by auto
    let ?i' = "base\<lparr>committed_through := c', settled_above := s', last_advance_ms := now\<rparr>"
    have eq: "settle_locked now t v i = Some (?i', published ?i')"
      using assms(1) True below ab
      by (simp add: settle_locked_def ticket_fails_def[symmetric] base_def Let_def)
    have "{1..c'} \<union> fset s' = insert t ({1..committed_through i} \<union> fset (settled_above i))"
      using sp seg by auto
    moreover have "committed_through i \<le> c'" using sp True by simp
    ultimately have "settle_post now t v i ?i'"
      using sp True by (simp add: settle_post_def settled_tickets_def base)
    thus ?thesis by (rule that[OF eq])
  next
    case False
    let ?i' = "base\<lparr>settled_above := finsert t (settled_above i)\<rparr>"
    have eq: "settle_locked now t v i = Some (?i', published ?i')"
      using assms(1) False below
      by (simp add: settle_locked_def ticket_fails_def[symmetric] base_def Let_def)
    have parked: "\<forall>u. u |\<in>| finsert t (settled_above i) \<longrightarrow> committed_through i + 1 < u \<and> u \<le> U64_MAX"
      using assms(2,3) False below(1) unfolding inner_inv_def by auto
    have "committed_through i \<le> U64_MAX" using assms(2) by (simp add: inner_inv_def)
    hence "settle_post now t v i ?i'"
      using parked False by (simp add: settle_post_def settled_tickets_def base)
    thus ?thesis by (rule that[OF eq])
  qed
qed

lemma settle_postD:
  assumes "settle_post now t v i i'"
  shows "settled_tickets i' = insert t (settled_tickets i)"
    and "progress i' = (if ticket_fails i t v then progress i else (progress i)(t := None))"
    and "failed i' = (if ticket_fails i t v then finsert t (failed i) else failed i)"
    and "closed i' = closed i" "committed_through i \<le> committed_through i'"
  using assms unfolding settle_post_def by blast+

lemma settle_post_progress_of:
  assumes "settle_post now t v i i'"
  shows "progress_of i' = (if ticket_fails i t v then progress_of i
                           else (progress_of i)(t := default_progress))"
  by (rule ext) (simp add: progress_of_def settle_postD(2)[OF assms])

lemma settle_post_is_settled:
  assumes "settle_post now t v i i'" "t \<noteq> 0"
  shows "is_settled i' u \<longleftrightarrow> u = t \<or> is_settled i u"
  using settle_postD(1)[OF assms(1)] assms(2) by (cases "u = 0") (auto simp: is_settled_iff)

lemma inner_invD:
  assumes "inner_inv i"
  shows "committed_through i \<le> U64_MAX"
    and "t |\<in>| settled_above i \<Longrightarrow> committed_through i + 1 < t \<and> t \<le> U64_MAX"
    and "t |\<in>| failed i \<Longrightarrow> t \<noteq> 0 \<and> is_settled i t \<and> progress i t \<noteq> None \<and> tp_dropped (progress_of i t) > 0"
    and "progress i t \<noteq> None \<Longrightarrow> t \<noteq> 0"
    and "progress i t \<noteq> None \<Longrightarrow> is_settled i t \<Longrightarrow> t |\<in>| failed i"
    and "tp_committed (progress_of i t) \<le> U64_MAX" "tp_dropped (progress_of i t) \<le> U64_MAX"
  using assms unfolding inner_inv_def by blast+

lemma inner_inv_settle_post:
  assumes "\<not> is_settled i t" "inner_inv i" "settle_post now t v i i'"
  shows "inner_inv i'"
proof -
  have t0: "t \<noteq> 0" using assms(1) by (metis is_settled_0)
  note settled = settle_post_is_settled[OF assms(3) t0]
  note prog = settle_post_progress_of[OF assms(3)]
  note D = inner_invD[OF assms(2)] and P = settle_postD[OF assms(3)]
  have nf: "t |\<notin>| failed i" using assms(1) D(3) by blast
  have pt: "progress i t \<noteq> None" if "ticket_fails i t v"
    using that by (auto simp: ticket_fails_def progress_of_def split: option.splits)
  have bounds: "committed_through i' \<le> U64_MAX \<and>
      (\<forall>u. u |\<in>| settled_above i' \<longrightarrow> committed_through i' + 1 < u \<and> u \<le> U64_MAX)"
    using assms(3) unfolding settle_post_def by blast
  have fl: "u \<noteq> 0 \<and> is_settled i' u \<and> progress i' u \<noteq> None \<and> tp_dropped (progress_of i' u) > 0"
    if "u |\<in>| failed i'" for u
  proof (cases "u = t")
    case True
    hence "ticket_fails i t v" using that nf P(3) by (auto split: if_splits)
    thus ?thesis using True t0 settled pt P(2) prog by (simp add: ticket_fails_def)
  next
    case False
    hence "u |\<in>| failed i" using that P(3) by (auto split: if_splits)
    from D(3)[OF this] False show ?thesis using settled P(2) prog by simp
  qed
  have pr: "u \<noteq> 0 \<and> (is_settled i' u \<longrightarrow> u |\<in>| failed i')" if "progress i' u \<noteq> None" for u
    using that t0 D(4,5)[of u] P(2,3) settled[of u] by (auto split: if_splits)
  have "tp_committed (progress_of i' u) \<le> U64_MAX \<and> tp_dropped (progress_of i' u) \<le> U64_MAX" for u
    using D(6,7)[of u] prog by simp
  with bounds fl pr show ?thesis unfolding inner_inv_def by blast
qed

section \<open>Abstract specification\<close>

text \<open>
  What the ledger promises: a set of settled tickets, the settled tickets that lost
  records, and the recorded progress of each ticket.  The watermark is a function of the
  settled set: the end of its longest prefix \<open>1, 2, ..., n\<close>.
\<close>

record ticket_spec =
  sp_settled :: "u64 set"
  sp_failed :: "u64 set"
  sp_progress :: "u64 \<Rightarrow> TicketProgress"
  sp_closed :: bool

definition spec_settle :: "u64 \<Rightarrow> bool \<Rightarrow> ticket_spec \<Rightarrow> ticket_spec" where
  "spec_settle t v a =
     (if t = 0 \<or> t \<in> sp_settled a then a
      else if \<not> v \<and> tp_dropped (sp_progress a t) > 0
      then a\<lparr>sp_settled := insert t (sp_settled a), sp_failed := insert t (sp_failed a)\<rparr>
      else a\<lparr>sp_settled := insert t (sp_settled a),
             sp_progress := (sp_progress a)(t := default_progress)\<rparr>)"

definition spec_note :: "(u64 \<Rightarrow> TicketProgress \<Rightarrow> TicketProgress) \<Rightarrow> u64 \<Rightarrow> u64 \<Rightarrow> ticket_spec \<Rightarrow> ticket_spec" where
  "spec_note bump t n a =
     (if t = 0 \<or> n = 0 \<or> t \<in> sp_settled a then a
      else a\<lparr>sp_progress := (sp_progress a)(t := bump n (sp_progress a t))\<rparr>)"

definition bump_committed :: "u64 \<Rightarrow> TicketProgress \<Rightarrow> TicketProgress" where
  "bump_committed n p = p\<lparr>tp_committed := saturating_add (tp_committed p) n\<rparr>"

definition bump_dropped :: "u64 \<Rightarrow> TicketProgress \<Rightarrow> TicketProgress" where
  "bump_dropped n p = p\<lparr>tp_dropped := saturating_add (tp_dropped p) n\<rparr>"

definition spec_state :: "ticket_spec \<Rightarrow> u64 \<Rightarrow> TicketState" where
  "spec_state a t =
     (if t = 0 then Completed
      else if t \<in> sp_failed a then FailedTicket (sp_progress a t)
      else if t \<in> sp_settled a then Completed
      else Unsettled (sp_progress a t))"

definition spec_watermark :: "ticket_spec \<Rightarrow> u64" where
  "spec_watermark a = (LEAST n. Suc n \<notin> sp_settled a)"

definition abs_inner :: "Inner \<Rightarrow> ticket_spec" where
  "abs_inner i = \<lparr>sp_settled = settled_tickets i, sp_failed = fset (failed i),
                  sp_progress = progress_of i, sp_closed = closed i\<rparr>"

definition abs_ledger :: "CommitLedger \<Rightarrow> ticket_spec" where
  "abs_ledger l = abs_inner (inner l)"

lemma abs_inner_simps [simp]:
  "sp_settled (abs_inner i) = settled_tickets i" "sp_failed (abs_inner i) = fset (failed i)"
  "sp_progress (abs_inner i) = progress_of i" "sp_closed (abs_inner i) = closed i"
  by (simp_all add: abs_inner_def)

lemma committed_through_is_prefix:
  assumes "inner_inv i"
  shows "committed_through i = spec_watermark (abs_inner i)"
  unfolding spec_watermark_def
proof (rule Least_equality[symmetric])
  show "Suc (committed_through i) \<notin> sp_settled (abs_inner i)"
    using assms by (force simp: settled_tickets_def inner_inv_def)
  show "committed_through i \<le> n" if "Suc n \<notin> sp_settled (abs_inner i)" for n
    using that by (force simp: settled_tickets_def)
qed

lemma state_inner_spec: "state_inner i t = spec_state (abs_inner i) t"
  by (simp add: state_inner_def spec_state_def is_settled_iff)

lemma note_committed_spec:
  "abs_inner (note_committed_inner t n i) = spec_note bump_committed t n (abs_inner i)"
proof -
  have "progress_of (i\<lparr>progress := (progress i)(t \<mapsto> p)\<rparr>) = (progress_of i)(t := p)" for p
    by (auto simp: progress_of_def)
  thus ?thesis
    by (auto simp: note_committed_inner_def spec_note_def abs_inner_def bump_committed_def Let_def
        is_settled_iff settled_tickets_def)
qed

lemma note_dropped_spec:
  "abs_inner (note_dropped_inner t n i) = spec_note bump_dropped t n (abs_inner i)"
proof -
  have "progress_of (i\<lparr>progress := (progress i)(t \<mapsto> p)\<rparr>) = (progress_of i)(t := p)" for p
    by (auto simp: progress_of_def)
  thus ?thesis
    by (auto simp: note_dropped_inner_def spec_note_def abs_inner_def bump_dropped_def Let_def
        is_settled_iff settled_tickets_def)
qed

lemma settle_locked_spec:
  assumes "inner_inv i" "0 < t" "t \<le> U64_MAX"
  shows "abs_inner (case settle_locked now t v i of None \<Rightarrow> i | Some (i', w) \<Rightarrow> i')
           = spec_settle t v (abs_inner i)"
proof (cases "is_settled i t")
  case True
  thus ?thesis using assms(2) by (simp add: settle_locked_settled spec_settle_def is_settled_iff)
next
  case False
  obtain i' where i': "settle_locked now t v i = Some (i', published i')" "settle_post now t v i i'"
    by (rule settle_locked_unsettled[OF False assms(1,3)])
  thus ?thesis using False assms(2)
    by (simp add: spec_settle_def abs_inner_def is_settled_iff settle_postD[OF i'(2)]
        settle_post_progress_of[OF i'(2)] ticket_fails_def)
qed

section \<open>Histories\<close>

text \<open>
  Every call on the ledger as a value, so that a history of the pipeline is a list of
  calls.  The first component of a settling call is the clock reading it takes.
\<close>

datatype ledger_op =
    Issue
  | NoteCommitted u64 u64
  | NoteDropped u64 u64
  | Complete u64 u64
  | Void u64 u64
  | Close

fun apply_op :: "ledger_op \<Rightarrow> CommitLedger \<Rightarrow> CommitLedger" where
  "apply_op Issue l = snd (issue l)"
| "apply_op (NoteCommitted t n) l = note_committed t n l"
| "apply_op (NoteDropped t n) l = note_dropped t n l"
| "apply_op (Complete now t) l = complete now t l"
| "apply_op (Void now t) l = void now t l"
| "apply_op Close l = close l"

fun op_ticket :: "ledger_op \<Rightarrow> u64" where
  "op_ticket (NoteCommitted t n) = t"
| "op_ticket (NoteDropped t n) = t"
| "op_ticket (Complete now t) = t"
| "op_ticket (Void now t) = t"
| "op_ticket _ = 0"

abbreviation op_u64 :: "ledger_op \<Rightarrow> bool" where
  "op_u64 op \<equiv> op_ticket op \<le> U64_MAX"

definition run_ops :: "ledger_op list \<Rightarrow> CommitLedger \<Rightarrow> CommitLedger" where
  "run_ops ops l = fold apply_op ops l"

lemma run_ops_simps [simp]:
  "run_ops [] l = l"
  "run_ops (op # ops) l = run_ops ops (apply_op op l)"
  "run_ops (ops @ ops') l = run_ops ops' (run_ops ops l)"
  by (simp_all add: run_ops_def)

fun spec_op :: "ledger_op \<Rightarrow> ticket_spec \<Rightarrow> ticket_spec" where
  "spec_op Issue a = a"
| "spec_op (NoteCommitted t n) a = spec_note bump_committed t n a"
| "spec_op (NoteDropped t n) a = spec_note bump_dropped t n a"
| "spec_op (Complete now t) a = spec_settle t False a"
| "spec_op (Void now t) a = spec_settle t True a"
| "spec_op Close a = a\<lparr>sp_closed := True\<rparr>"

definition spec_new :: ticket_spec where
  "spec_new = \<lparr>sp_settled = {}, sp_failed = {}, sp_progress = (\<lambda>_. default_progress), sp_closed = False\<rparr>"

subsection \<open>Invariant preservation\<close>

lemma new_ledger_inv [inv_intros]: "ledger_inv (new_ledger now)"
  by (simp add: ledger_inv_def new_ledger_def inner_inv_def progress_of_def)

lemma inner_inv_progress_upd:
  assumes "inner_inv i" "\<not> is_settled i t" "t \<noteq> 0" "tp_committed p \<le> U64_MAX" "tp_dropped p \<le> U64_MAX"
  shows "inner_inv (i\<lparr>progress := (progress i)(t \<mapsto> p)\<rparr>)"
proof -
  let ?i = "i\<lparr>progress := (progress i)(t \<mapsto> p)\<rparr>"
  have st: "is_settled ?i u \<longleftrightarrow> is_settled i u" for u by (simp add: is_settled_def)
  have pr: "progress_of ?i u = (if u = t then p else progress_of i u)" for u
    by (simp add: progress_of_def)
  note D = inner_invD[OF assms(1)]
  have nf: "t |\<notin>| failed i" using assms(2) D(3) by blast
  have "u \<noteq> 0 \<and> is_settled ?i u \<and> progress ?i u \<noteq> None \<and> tp_dropped (progress_of ?i u) > 0"
    if "u |\<in>| failed ?i" for u
    using D(3)[of u] that nf st pr by auto
  moreover have "u \<noteq> 0 \<and> (is_settled ?i u \<longrightarrow> u |\<in>| failed ?i)" if "progress ?i u \<noteq> None" for u
    using D(4,5)[of u] that st[of u] assms(2,3) by (cases "u = t") auto
  moreover have "tp_committed (progress_of ?i u) \<le> U64_MAX \<and> tp_dropped (progress_of ?i u) \<le> U64_MAX" for u
    using D(6,7) assms(4,5) pr by simp
  ultimately show ?thesis
    using D(1,2) unfolding inner_inv_def by simp
qed

lemma note_committed_inv [inv_intros]:
  "ledger_inv l \<Longrightarrow> ledger_inv (note_committed t n l)"
  by (auto simp: ledger_inv_def note_committed_def note_committed_inner_def Let_def
      intro!: inner_inv_progress_upd inner_invD)

lemma note_dropped_inv [inv_intros]:
  "ledger_inv l \<Longrightarrow> ledger_inv (note_dropped t n l)"
  by (auto simp: ledger_inv_def note_dropped_def note_dropped_inner_def Let_def
      intro!: inner_inv_progress_upd inner_invD)

lemma settle_inv [inv_intros]:
  assumes "ledger_inv l" "t \<le> U64_MAX"
  shows "ledger_inv (settle now t v l)"
proof (cases "is_settled (inner l) t")
  case True
  thus ?thesis using assms(1) by (simp add: settle_def settle_locked_settled)
next
  case False
  have i: "inner_inv (inner l)" using assms(1) by (simp add: ledger_inv_def)
  obtain i' where "settle_locked now t v (inner l) = Some (i', published i')"
    "settle_post now t v (inner l) i'"
    by (rule settle_locked_unsettled[OF False i assms(2)])
  with inner_inv_settle_post[OF False i] show ?thesis
    using assms(1) by (simp add: settle_def ledger_inv_def)
qed

lemma inner_inv_closed [simp]: "inner_inv (i\<lparr>closed := c\<rparr>) = inner_inv i"
  unfolding inner_inv_def is_settled_def progress_of_def by simp

lemma close_inv [inv_intros]: "ledger_inv l \<Longrightarrow> ledger_inv (close l)"
  by (simp add: ledger_inv_def close_def close_locked_def)

lemma issue_inv [inv_intros]: "ledger_inv l \<Longrightarrow> ledger_inv (snd (issue l))"
  by (simp add: issue_def ledger_inv_def)

lemma apply_op_inv [inv_intros]: "ledger_inv l \<Longrightarrow> op_u64 op \<Longrightarrow> ledger_inv (apply_op op l)"
  by (cases op) (auto simp: complete_def void_def intro: inv_intros)

lemma run_ops_inv:
  "ledger_inv l \<Longrightarrow> list_all op_u64 ops \<Longrightarrow> ledger_inv (run_ops ops l)"
  by (induction ops arbitrary: l) (auto intro: apply_op_inv)

subsection \<open>Refinement of the abstract ledger\<close>

lemma settle_spec:
  assumes "ledger_inv l" "t \<le> U64_MAX"
  shows "abs_ledger (settle now t v l) = spec_settle t v (abs_ledger l)"
proof (cases "t = 0")
  case True
  thus ?thesis by (simp add: settle_def spec_settle_def)
next
  case False
  have "inner (settle now t v l) = (case settle_locked now t v (inner l) of None \<Rightarrow> inner l | Some (i', w) \<Rightarrow> i')"
    using False by (simp add: settle_def split: option.split prod.split)
  thus ?thesis
    using settle_locked_spec[of "inner l" t now v] False assms by (simp add: abs_ledger_def ledger_inv_def)
qed

lemma apply_op_spec:
  assumes "ledger_inv l" "op_u64 op"
  shows "abs_ledger (apply_op op l) = spec_op op (abs_ledger l)"
proof (cases op)
  case Issue
  thus ?thesis by (simp add: issue_def abs_ledger_def)
next
  case (NoteCommitted t n)
  thus ?thesis by (simp add: note_committed_def abs_ledger_def note_committed_spec)
next
  case (NoteDropped t n)
  thus ?thesis by (simp add: note_dropped_def abs_ledger_def note_dropped_spec)
next
  case (Complete now t)
  thus ?thesis using assms settle_spec by (simp add: complete_def)
next
  case (Void now t)
  thus ?thesis using assms settle_spec by (simp add: void_def)
next
  case Close
  thus ?thesis
    by (auto simp: close_def close_locked_def abs_ledger_def abs_inner_def settled_tickets_def
        progress_of_def)
qed

lemma run_ops_spec:
  "ledger_inv l \<Longrightarrow> list_all op_u64 ops \<Longrightarrow>
   abs_ledger (run_ops ops l) = fold spec_op ops (abs_ledger l)"
  by (induction ops arbitrary: l) (auto simp: apply_op_spec apply_op_inv)

lemma abs_new_ledger: "abs_ledger (new_ledger now) = spec_new"
  by (auto simp: abs_ledger_def abs_inner_def new_ledger_def spec_new_def settled_tickets_def progress_of_def)

lemma ledger_observers:
  assumes "ledger_inv l"
  shows "state l t = spec_state (abs_ledger l) t"
    and "watermark l = \<lparr>wm_committed_through = spec_watermark (abs_ledger l), wm_closed = sp_closed (abs_ledger l)\<rparr>"
  using assms committed_through_is_prefix
  by (simp_all add: state_def state_inner_spec abs_ledger_def watermark_def ledger_inv_def)

section \<open>The contract its clients use\<close>

text \<open>
  Seen from one ticket the ledger is a small automaton: notes accumulate while the
  ticket is unsettled, the first settling call decides its verdict, and nothing changes
  the verdict afterwards.  The locale states that every call acts on its own ticket only,
  by this automaton; the writer, the batcher and the ingress handlers rely on nothing
  else.
\<close>

fun ticket_step :: "ledger_op \<Rightarrow> TicketState \<Rightarrow> TicketState" where
  "ticket_step (NoteCommitted t n) (Unsettled p) = Unsettled (if n = 0 then p else bump_committed n p)"
| "ticket_step (NoteDropped t n) (Unsettled p) = Unsettled (if n = 0 then p else bump_dropped n p)"
| "ticket_step (Complete now t) (Unsettled p) = (if tp_dropped p > 0 then FailedTicket p else Completed)"
| "ticket_step (Void now t) (Unsettled p) = Completed"
| "ticket_step op s = s"

fun unsettled :: "TicketState \<Rightarrow> bool" where
  "unsettled (Unsettled p) = True"
| "unsettled s = False"

fun is_settling :: "ledger_op \<Rightarrow> bool" where
  "is_settling (Complete now t) = True"
| "is_settling (Void now t) = True"
| "is_settling op = False"

fun noted_committed :: "ledger_op \<Rightarrow> u64" where
  "noted_committed (NoteCommitted t n) = n"
| "noted_committed op = 0"

fun noted_dropped :: "ledger_op \<Rightarrow> u64" where
  "noted_dropped (NoteDropped t n) = n"
| "noted_dropped op = 0"

locale ticket_ledger =
  fixes inv :: "'l \<Rightarrow> bool"
    and st :: "'l \<Rightarrow> u64 \<Rightarrow> TicketState"
    and app :: "ledger_op \<Rightarrow> 'l \<Rightarrow> 'l"
  assumes inv_app: "inv l \<Longrightarrow> op_u64 op \<Longrightarrow> inv (app op l)"
    and st_app: "inv l \<Longrightarrow> op_u64 op \<Longrightarrow> t \<noteq> 0 \<Longrightarrow>
                 st (app op l) t = (if op_ticket op = t then ticket_step op (st l t) else st l t)"
begin

lemma inv_run: "inv l \<Longrightarrow> list_all op_u64 ops \<Longrightarrow> inv (fold app ops l)"
  by (induction ops arbitrary: l) (auto intro: inv_app)

lemma st_run:
  "inv l \<Longrightarrow> list_all op_u64 ops \<Longrightarrow> t \<noteq> 0 \<Longrightarrow>
   st (fold app ops l) t = fold ticket_step (filter (\<lambda>op. op_ticket op = t) ops) (st l t)"
  by (induction ops arbitrary: l) (auto simp: st_app inv_app)

lemma settled_fixed: "\<not> unsettled s \<Longrightarrow> ticket_step op s = s"
  by (cases "(op, s)" rule: ticket_step.cases) auto

lemma settled_run_fixed: "\<not> unsettled s \<Longrightarrow> fold ticket_step ops s = s"
  by (induction ops) (auto simp: settled_fixed)

lemma settled_forever:
  "inv l \<Longrightarrow> list_all op_u64 ops \<Longrightarrow> t \<noteq> 0 \<Longrightarrow> \<not> unsettled (st l t) \<Longrightarrow>
   st (fold app ops l) t = st l t"
  by (simp add: st_run settled_run_fixed)

lemma settling_settles: "is_settling op \<Longrightarrow> \<not> unsettled (ticket_step op s)"
  by (cases "(op, s)" rule: ticket_step.cases) auto

lemma unsettled_iff_no_settling:
  "unsettled s \<Longrightarrow> unsettled (fold ticket_step ops s) \<longleftrightarrow> \<not> list_ex is_settling ops"
proof (induction ops arbitrary: s)
  case (Cons op ops)
  show ?case
  proof (cases "is_settling op")
    case True
    thus ?thesis using settling_settles[OF True, of s] settled_run_fixed by auto
  next
    case False
    hence "unsettled (ticket_step op s)"
      using Cons.prems by (cases "(op, s)" rule: ticket_step.cases) auto
    thus ?thesis using Cons.IH False by simp
  qed
qed simp

text \<open>Progress is the sum of the notes, as long as the sums stay in range.\<close>

lemma progress_accumulates:
  assumes "\<not> list_ex is_settling ops"
    and "tp_committed p + sum_list (map noted_committed ops) \<le> U64_MAX"
    and "tp_dropped p + sum_list (map noted_dropped ops) \<le> U64_MAX"
  shows "fold ticket_step ops (Unsettled p) =
           Unsettled \<lparr>tp_committed = tp_committed p + sum_list (map noted_committed ops),
                      tp_dropped = tp_dropped p + sum_list (map noted_dropped ops)\<rparr>"
  using assms
proof (induction ops arbitrary: p)
  case (Cons op ops)
  show ?case
  proof (cases op)
    case (NoteCommitted t n)
    thus ?thesis using Cons.prems Cons.IH[of "if n = 0 then p else bump_committed n p"]
      by (simp add: bump_committed_def saturating_add_exact)
  next
    case (NoteDropped t n)
    thus ?thesis using Cons.prems Cons.IH[of "if n = 0 then p else bump_dropped n p"]
      by (simp add: bump_dropped_def saturating_add_exact)
  qed (use Cons in auto)
qed simp

end

lemma spec_state_unsettled: "unsettled (spec_state a t) \<Longrightarrow> t \<noteq> 0 \<and> t \<notin> sp_settled a \<and> t \<notin> sp_failed a"
  by (auto simp: spec_state_def split: if_splits)

lemma spec_op_step:
  assumes "sp_failed a \<subseteq> sp_settled a" "t \<noteq> 0"
  shows "spec_state (spec_op op a) t =
           (if op_ticket op = t then ticket_step op (spec_state a t) else spec_state a t)"
proof (cases "t \<in> sp_settled a")
  case True
  hence "\<not> unsettled (spec_state a t)" using spec_state_unsettled by blast
  hence "ticket_step op (spec_state a t) = spec_state a t"
    by (cases "(op, spec_state a t)" rule: ticket_step.cases) auto
  moreover have "spec_state (spec_op op a) t = spec_state a t"
    using True assms by (cases op) (auto simp: spec_state_def spec_settle_def spec_note_def)
  ultimately show ?thesis by simp
next
  case False
  hence "t \<notin> sp_failed a" using assms by auto
  thus ?thesis using False assms(2)
    by (cases op) (auto simp: spec_state_def spec_settle_def spec_note_def)
qed

lemma abs_failed_settled: "ledger_inv l \<Longrightarrow> sp_failed (abs_ledger l) \<subseteq> sp_settled (abs_ledger l)"
  using inner_invD(3)[of "inner l"] is_settled_iff by (auto simp: ledger_inv_def abs_ledger_def)

interpretation ledger: ticket_ledger ledger_inv state apply_op
proof
  show "ledger_inv (apply_op op l)" if "ledger_inv l" "op_u64 op" for l op
    using that by (rule apply_op_inv)
  show "state (apply_op op l) t = (if op_ticket op = t then ticket_step op (state l t) else state l t)"
    if "ledger_inv l" "op_u64 op" "t \<noteq> 0" for l op t
    using that spec_op_step[OF abs_failed_settled[OF that(1)] that(3)]
    by (simp add: ledger_observers apply_op_inv apply_op_spec)
qed

section \<open>Waiting is truthful\<close>

fun snapshots :: "wakeup list \<Rightarrow> CommitLedger list" where
  "snapshots [] = []"
| "snapshots (SenderDropped # ws) = []"
| "snapshots (Changed l # ws) = l # snapshots ws"

lemma wait_loop_result:
  "wait_loop t l wakes = Some r \<Longrightarrow>
   (\<exists>l' \<in> set (l # snapshots wakes). wait_poll l' t = Some r) \<or> (r = Closed \<and> SenderDropped \<in> set wakes)"
  by (induction wakes arbitrary: l)
     (subst (asm) wait_loop.simps; auto split: option.splits wakeup.splits)+

lemma wait_loop_suspended:
  "wait_loop t l wakes = None \<Longrightarrow> l' \<in> set (l # snapshots wakes) \<Longrightarrow> wait_poll l' t = None"
  by (induction wakes arbitrary: l)
     (subst (asm) wait_loop.simps; auto split: option.splits wakeup.splits)+

lemma wait_watermark_loop_result:
  "wait_watermark_loop t l wakes = Some w \<Longrightarrow>
   (\<exists>l' \<in> set (l # snapshots wakes). wait_watermark_poll l' t = Some w) \<or> wm_closed w"
  by (induction wakes arbitrary: l)
     (subst (asm) wait_watermark_loop.simps; auto split: option.splits wakeup.splits)+

lemma wait_poll_cases:
  "wait_poll l t = Some r \<longleftrightarrow>
     (case r of
        Committed \<Rightarrow> state l t = Completed
      | FailedOutcome c d \<Rightarrow> (\<exists>p. state l t = FailedTicket p \<and> c = tp_committed p \<and> d = tp_dropped p)
      | Closed \<Rightarrow> unsettled (state l t) \<and> wm_closed (watermark l))"
  by (auto simp: wait_poll_def split: TicketState.splits CommitOutcome.splits)

lemma wait_poll_None: "wait_poll l t = None \<longleftrightarrow> unsettled (state l t) \<and> \<not> wm_closed (watermark l)"
  by (simp add: wait_poll_def split: TicketState.splits)

lemma covered_settled:
  assumes "ledger_inv l" "u \<le> wm_committed_through (watermark l)"
  shows "\<not> unsettled (state l u)"
  using assms by (auto simp: watermark_def ledger_inv_def state_def state_inner_def is_settled_def)

section \<open>Counting outstanding tickets\<close>

lemma issued_inv_new: "issued_inv (new_ledger now)"
  by (simp add: issued_inv_def new_ledger_def settled_tickets_def)

fun well_issued :: "u64 \<Rightarrow> ledger_op list \<Rightarrow> bool" where
  "well_issued n [] = True"
| "well_issued n (Issue # ops) = (n < U64_MAX \<and> well_issued (n + 1) ops)"
| "well_issued n (op # ops) = (op_ticket op \<le> n \<and> well_issued n ops)"

lemma next_ticket_settle [simp]: "next_ticket (settle now t v l) = next_ticket l"
  by (simp add: settle_def split: option.split prod.split)

lemma next_ticket_apply:
  "next_ticket (apply_op op l) = (if op = Issue then wrapping_add (next_ticket l) 1 else next_ticket l)"
  by (cases op) (simp_all add: issue_def note_committed_def note_dropped_def complete_def void_def
      close_def close_locked_def)

lemma spec_op_settled_subset: "sp_settled (spec_op op a) \<subseteq> insert (op_ticket op) (sp_settled a)"
  by (cases op) (auto simp: spec_settle_def spec_note_def)

lemma spec_op_keeps_0: "0 \<notin> sp_settled a \<Longrightarrow> 0 \<notin> sp_settled (spec_op op a)"
  by (cases op) (auto simp: spec_settle_def spec_note_def)

lemma issued_inv_apply:
  assumes "ledger_inv l" "issued_inv l" "op = Issue \<longrightarrow> next_ticket l < U64_MAX" "op_ticket op \<le> next_ticket l"
  shows "issued_inv (apply_op op l)"
proof -
  let ?n = "next_ticket l" and ?n' = "next_ticket (apply_op op l)"
  let ?s = "settled_tickets (inner l)" and ?s' = "settled_tickets (inner (apply_op op l))"
  have S: "?s \<subseteq> {1..?n}" "?n \<le> U64_MAX" using assms(2) by (simp_all add: issued_inv_def)
  have u: "op_u64 op" using S(2) assms(4) by linarith
  have sp: "?s' = sp_settled (spec_op op (abs_ledger l))" and s: "?s = sp_settled (abs_ledger l)"
    using apply_op_spec[OF assms(1) u] by (simp_all add: abs_ledger_def flip: abs_inner_simps(1))
  have "0 \<notin> ?s" using S(1) by force
  hence "0 \<notin> ?s'" unfolding sp s by (rule spec_op_keeps_0)
  moreover have "?s' \<subseteq> insert (op_ticket op) ?s" unfolding sp s by (rule spec_op_settled_subset)
  moreover have N: "?n \<le> ?n'" "?n' \<le> U64_MAX"
    using assms(3) S(2) by (auto simp: next_ticket_apply wrapping_add_exact)
  ultimately have "x \<in> {1..?n'}" if "x \<in> ?s'" for x
  proof -
    have "x \<le> ?n" using that \<open>?s' \<subseteq> insert (op_ticket op) ?s\<close> S(1) assms(4) by fastforce
    moreover have "x \<noteq> 0" using that \<open>0 \<notin> ?s'\<close> by metis
    ultimately show ?thesis using N(1) by simp
  qed
  with N(2) show ?thesis unfolding issued_inv_def by blast
qed

lemma well_issued_Cons:
  "well_issued n (op # ops) \<longleftrightarrow>
     (op = Issue \<longrightarrow> n < U64_MAX) \<and> op_ticket op \<le> n \<and> well_issued (if op = Issue then n + 1 else n) ops"
  by (cases op) simp_all

lemma well_issued_run:
  "well_issued (next_ticket l) ops \<Longrightarrow> ledger_inv l \<Longrightarrow> issued_inv l \<Longrightarrow>
   ledger_inv (run_ops ops l) \<and> issued_inv (run_ops ops l)"
proof (induction ops arbitrary: l)
  case (Cons op ops)
  have pre: "op = Issue \<longrightarrow> next_ticket l < U64_MAX" "op_ticket op \<le> next_ticket l"
    and tail: "well_issued (next_ticket (apply_op op l)) ops"
    using Cons.prems(1) by (auto simp: well_issued_Cons next_ticket_apply wrapping_add_exact split: if_splits)
  have "op_u64 op" using pre(2) Cons.prems(3) by (simp add: issued_inv_def)
  hence "ledger_inv (apply_op op l)" using Cons.prems(2) by (intro apply_op_inv)
  moreover have "issued_inv (apply_op op l)" using Cons.prems pre by (intro issued_inv_apply)
  ultimately show ?case using Cons.IH[OF tail] by simp
qed simp

lemma card_settled:
  assumes "inner_inv i"
  shows "card (settled_tickets i) = committed_through i + fcard (settled_above i)"
proof -
  have "{1..committed_through i} \<inter> fset (settled_above i) = {}"
    using inner_invD(2)[OF assms] by fastforce
  thus ?thesis by (simp add: settled_tickets_def card_Un_disjoint fcard.rep_eq)
qed

lemma outstanding_count:
  assumes "ledger_inv l" "issued_inv l"
  shows "outstanding_tickets l = card {t \<in> {1..next_ticket l}. unsettled (state l t)}"
proof -
  let ?s = "settled_tickets (inner l)"
  have i: "inner_inv (inner l)" using assms(1) by (simp add: ledger_inv_def)
  have "{t \<in> {1..next_ticket l}. unsettled (state l t)} = {1..next_ticket l} - ?s"
    using inner_invD(3)[OF i] is_settled_iff
    by (auto simp: state_def state_inner_def split: if_splits)
  moreover have "card ({1..next_ticket l} - ?s) = next_ticket l - card ?s"
    using assms(2) by (subst card_Diff_subset) (auto simp: issued_inv_def intro: finite_subset)
  ultimately show ?thesis by (simp add: outstanding_tickets_def card_settled[OF i])
qed

section \<open>Interleaved publication\<close>

text \<open>
  \<open>settle\<close> and \<open>close\<close> compute the watermark under the mutex and call
  \<open>updates.send_replace\<close> after releasing it.  Ingress handlers (\<open>void\<close>), the batcher
  (\<open>void\<close>, \<open>close\<close>) and the writer (\<open>complete\<close>, \<open>close\<close>) run concurrently, so between the two
  phases of one call another thread may run.  \<open>pending\<close> holds the watermarks computed and
  not yet published, one per thread inside such a call.
\<close>

record ledger_sys =
  sys_inner :: Inner
  sys_updates :: Watermark
  pending :: "Watermark list"

inductive ledger_step :: "ledger_sys \<Rightarrow> ledger_sys \<Rightarrow> bool" where
  lock_settle:
    "t \<noteq> 0 \<Longrightarrow> t \<le> U64_MAX \<Longrightarrow> settle_locked now t v (sys_inner s) = Some (i, w) \<Longrightarrow>
     ledger_step s (s\<lparr>sys_inner := i, pending := w # pending s\<rparr>)"
| lock_close:
    "close_locked (sys_inner s) = (i, w) \<Longrightarrow>
     ledger_step s (s\<lparr>sys_inner := i, pending := w # pending s\<rparr>)"
| lock_note_committed:
    "ledger_step s (s\<lparr>sys_inner := note_committed_inner t n (sys_inner s)\<rparr>)"
| lock_note_dropped:
    "ledger_step s (s\<lparr>sys_inner := note_dropped_inner t n (sys_inner s)\<rparr>)"
| publish:
    "pending s = ws @ w # ws' \<Longrightarrow>
     ledger_step s (s\<lparr>sys_updates := w, pending := ws @ ws'\<rparr>)"

inductive_simps ledger_step_iff: "ledger_step s s'"

definition sys_new :: "u64 \<Rightarrow> ledger_sys" where
  "sys_new now = \<lparr>sys_inner = inner (new_ledger now), sys_updates = updates (new_ledger now), pending = []\<rparr>"

abbreviation sys_reach :: "u64 \<Rightarrow> ledger_sys \<Rightarrow> bool" where
  "sys_reach now s \<equiv> ledger_step\<^sup>*\<^sup>* (sys_new now) s"

text \<open>A watermark that was true when it was computed stays a lower bound.\<close>

definition not_ahead :: "Inner \<Rightarrow> Watermark \<Rightarrow> bool" where
  "not_ahead i w \<longleftrightarrow> wm_committed_through w \<le> committed_through i \<and> (wm_closed w \<longrightarrow> closed i)"

definition sys_inv :: "ledger_sys \<Rightarrow> bool" where
  "sys_inv s \<longleftrightarrow> inner_inv (sys_inner s) \<and> not_ahead (sys_inner s) (sys_updates s) \<and>
                 list_all (not_ahead (sys_inner s)) (pending s)"

lemma not_ahead_mono:
  "not_ahead i w \<Longrightarrow> committed_through i \<le> committed_through i' \<Longrightarrow> (closed i \<longrightarrow> closed i') \<Longrightarrow> not_ahead i' w"
  by (auto simp: not_ahead_def)

lemma sys_inv_grow:
  assumes "sys_inv s" "inner_inv i" "committed_through (sys_inner s) \<le> committed_through i"
    and "closed (sys_inner s) \<longrightarrow> closed i" "list_all (not_ahead i) ws"
  shows "sys_inv (s\<lparr>sys_inner := i, pending := ws @ pending s\<rparr>)"
  using assms not_ahead_mono[OF _ assms(3,4)]
  by (auto simp: sys_inv_def list_all_iff)

lemma note_inner_frame:
  "committed_through (note_committed_inner t n i) = committed_through i"
  "closed (note_committed_inner t n i) = closed i"
  "committed_through (note_dropped_inner t n i) = committed_through i"
  "closed (note_dropped_inner t n i) = closed i"
  by (simp_all add: note_committed_inner_def note_dropped_inner_def Let_def)

lemma note_inner_inv:
  "inner_inv i \<Longrightarrow> inner_inv (note_committed_inner t n i)"
  "inner_inv i \<Longrightarrow> inner_inv (note_dropped_inner t n i)"
  by (auto simp: note_committed_inner_def note_dropped_inner_def Let_def
      intro!: inner_inv_progress_upd inner_invD)

lemma settle_locked_post:
  assumes "settle_locked now t v i = Some (i', w)" "inner_inv i" "t \<le> U64_MAX"
  shows "\<not> is_settled i t" "w = published i'" "settle_post now t v i i'"
proof -
  show ns: "\<not> is_settled i t" using assms(1) settle_locked_settled[of i t now v] by auto
  obtain i'' where "settle_locked now t v i = Some (i'', published i'')" "settle_post now t v i i''"
    by (rule settle_locked_unsettled[OF ns assms(2,3)])
  thus "w = published i'" "settle_post now t v i i'" using assms(1) by simp_all
qed

lemma sys_inv_step:
  assumes "ledger_step s s'" "sys_inv s"
  shows "sys_inv s'"
  using assms
proof (cases rule: ledger_step.cases)
  case (lock_settle t now v i w)
  have i: "inner_inv (sys_inner s)" using assms(2) by (simp add: sys_inv_def)
  note p = settle_locked_post[OF lock_settle(4) i lock_settle(3)]
  have "inner_inv i" using inner_inv_settle_post[OF p(1) i p(3)] .
  moreover have "not_ahead i w" using p(2) by (simp add: not_ahead_def)
  ultimately show ?thesis
    using sys_inv_grow[OF assms(2), of i "[w]"] settle_postD(4,5)[OF p(3)] lock_settle(1) by simp
next
  case (lock_close i w)
  hence "i = (sys_inner s)\<lparr>closed := True\<rparr>" "not_ahead i w"
    by (auto simp: close_locked_def not_ahead_def)
  thus ?thesis using sys_inv_grow[OF assms(2), of i "[w]"] assms(2) lock_close(1)
    by (simp add: sys_inv_def)
next
  case (lock_note_committed t n)
  thus ?thesis using sys_inv_grow[OF assms(2), of "note_committed_inner t n (sys_inner s)" "[]"] assms(2)
    by (simp add: sys_inv_def note_inner_frame note_inner_inv)
next
  case (lock_note_dropped t n)
  thus ?thesis using sys_inv_grow[OF assms(2), of "note_dropped_inner t n (sys_inner s)" "[]"] assms(2)
    by (simp add: sys_inv_def note_inner_frame note_inner_inv)
next
  case (publish ws w ws')
  thus ?thesis using assms(2) by (auto simp: sys_inv_def)
qed

lemma sys_inv_new: "sys_inv (sys_new now)"
  using new_ledger_inv[of now]
  by (simp add: sys_inv_def sys_new_def ledger_inv_def not_ahead_def)

lemma sys_reach_inv: "sys_reach now s \<Longrightarrow> sys_inv s"
  by (induction rule: rtranclp_induct) (auto intro: sys_inv_new sys_inv_step)

section \<open>Properties\<close>

text \<open>
  C3: The ledger implements its abstract specification for every history of calls: the
  tickets are settled, failed and in progress exactly as specified, and the published
  watermark is the end of the longest prefix of settled tickets, so it never skips an
  unsettled ticket and never lags behind a settled run.
\<close>

theorem ledger_refines_spec:
  assumes "list_all op_u64 ops"
  shows "abs_ledger (run_ops ops (new_ledger now)) = fold spec_op ops spec_new \<and>
         watermark (run_ops ops (new_ledger now)) =
           \<lparr>wm_committed_through = spec_watermark (fold spec_op ops spec_new),
            wm_closed = sp_closed (fold spec_op ops spec_new)\<rparr> \<and>
         (\<forall>t. state (run_ops ops (new_ledger now)) t = spec_state (fold spec_op ops spec_new) t)"
proof -
  have "ledger_inv (run_ops ops (new_ledger now))" by (rule run_ops_inv[OF new_ledger_inv assms])
  thus ?thesis
    using run_ops_spec[OF new_ledger_inv assms, of now] ledger_observers by (simp add: abs_new_ledger)
qed

theorem ledger_refines_spec_witness:
  "list_all op_u64 [Issue, Issue, Issue, Complete 7 3, Void 8 2, Complete 9 1] \<and>
   abs_ledger (run_ops [Issue, Issue, Issue, Complete 7 3, Void 8 2, Complete 9 1] (new_ledger 0)) =
     fold spec_op [Issue, Issue, Issue, Complete 7 3, Void 8 2, Complete 9 1] spec_new \<and>
   sp_settled (fold spec_op [Issue, Issue, Issue, Complete 7 3, Void 8 2, Complete 9 1] spec_new) = {1, 2, 3}"
  using ledger_refines_spec[of "[Issue, Issue, Issue, Complete 7 3, Void 8 2, Complete 9 1]" 0]
  by (auto simp: spec_settle_def spec_new_def)

lemma settled_verdict_final:
  assumes "ledger_inv l" "list_all op_u64 ops" "t \<noteq> 0" "\<not> unsettled (state l t)"
  shows "state (run_ops ops l) t = state l t"
  using ledger.settled_forever[OF assms] by (simp add: run_ops_def)

lemma sample_failed_ledger:
  "ledger_inv (run_ops [Issue, NoteDropped 1 2, Complete 5 1] (new_ledger 0))"
  "state (run_ops [Issue, NoteDropped 1 2, Complete 5 1] (new_ledger 0)) 1 =
     FailedTicket \<lparr>tp_committed = 0, tp_dropped = 2\<rparr>"
proof -
  show "ledger_inv (run_ops [Issue, NoteDropped 1 2, Complete 5 1] (new_ledger 0))"
    by (rule run_ops_inv[OF new_ledger_inv]) simp
  show "state (run_ops [Issue, NoteDropped 1 2, Complete 5 1] (new_ledger 0)) 1 =
     FailedTicket \<lparr>tp_committed = 0, tp_dropped = 2\<rparr>"
    by (simp add: new_ledger_def issue_def note_dropped_def note_dropped_inner_def is_settled_def
        progress_of_def default_progress_def complete_def settle_def settle_locked_def Let_def
        wrapping_add_def absorb.simps state_def state_inner_def saturating_add_def)
qed

lemma outstanding_tickets_exact:
  assumes "well_issued 0 ops"
  shows "outstanding_tickets (run_ops ops (new_ledger now)) =
           card {t \<in> {1..next_ticket (run_ops ops (new_ledger now))}.
                   unsettled (state (run_ops ops (new_ledger now)) t)}"
proof -
  have "well_issued (next_ticket (new_ledger now)) ops" using assms by (simp add: new_ledger_def)
  from well_issued_run[OF this new_ledger_inv issued_inv_new] show ?thesis
    by (intro outstanding_count) simp_all
qed

lemma wait_watermark_covers:
  assumes "wait_watermark t l wakes = Some w" "\<not> wm_closed w"
    and "\<forall>l' \<in> set (l # snapshots wakes). ledger_inv l'"
  shows "\<exists>l' \<in> set (l # snapshots wakes). \<forall>u. u \<le> t \<longrightarrow> \<not> unsettled (state l' u)"
proof (cases "t = 0")
  case True
  thus ?thesis by (auto simp: state_def state_inner_def)
next
  case False
  then obtain l' where l': "l' \<in> set (l # snapshots wakes)" "wait_watermark_poll l' t = Some w"
    using assms(1,2) wait_watermark_loop_result[of t l wakes w] by (auto simp: wait_watermark_def)
  hence "t \<le> wm_committed_through (watermark l')"
    using assms(2) by (auto simp: wait_watermark_poll_def Let_def split: if_splits)
  thus ?thesis using covered_settled[of l'] assms(3) l'(1) le_trans by blast
qed

text \<open>
  C15: \<open>wait\<close> reports what the ledger recorded and does not hang on an answer: \<open>Committed\<close>
  only for a ticket found completed, \<open>Failed\<close> with the recorded counts only for a failed
  one, \<open>Closed\<close> only for a ticket still unsettled on a closed pipeline; and it resolves as
  soon as one wake-up finds the ticket settled or the pipeline closed.
\<close>

theorem wait_truthful:
  assumes "t \<noteq> 0" "SenderDropped \<notin> set wakes"
  shows "(wait t l wakes = Some r \<longrightarrow>
            (\<exists>l' \<in> set (l # snapshots wakes).
               case r of
                 Committed \<Rightarrow> state l' t = Completed
               | FailedOutcome c d \<Rightarrow> (\<exists>p. state l' t = FailedTicket p \<and> c = tp_committed p \<and> d = tp_dropped p)
               | Closed \<Rightarrow> unsettled (state l' t) \<and> wm_closed (watermark l'))) \<and>
         ((\<exists>l' \<in> set (l # snapshots wakes). \<not> unsettled (state l' t) \<or> wm_closed (watermark l')) \<longrightarrow>
            wait t l wakes \<noteq> None)"
proof (intro conjI impI)
  assume "wait t l wakes = Some r"
  hence "\<exists>l' \<in> set (l # snapshots wakes). wait_poll l' t = Some r"
    using assms wait_loop_result[of t l wakes r] by (auto simp: wait_def)
  thus "\<exists>l' \<in> set (l # snapshots wakes).
          case r of
            Committed \<Rightarrow> state l' t = Completed
          | FailedOutcome c d \<Rightarrow> (\<exists>p. state l' t = FailedTicket p \<and> c = tp_committed p \<and> d = tp_dropped p)
          | Closed \<Rightarrow> unsettled (state l' t) \<and> wm_closed (watermark l')"
    by (simp only: wait_poll_cases)
next
  assume "\<exists>l' \<in> set (l # snapshots wakes). \<not> unsettled (state l' t) \<or> wm_closed (watermark l')"
  then obtain l' where l': "l' \<in> set (l # snapshots wakes)" "wait_poll l' t \<noteq> None"
    using wait_poll_None by blast
  show "wait t l wakes \<noteq> None"
    using wait_loop_suspended[OF _ l'(1), of t] l'(2) assms(1) by (auto simp: wait_def)
qed

theorem wait_truthful_witness:
  "wait 1 (run_ops [Issue] (new_ledger 0)) [Changed (run_ops [Issue, NoteDropped 1 2, Complete 5 1] (new_ledger 0))]
     \<noteq> None"
  using wait_truthful[of 1 "[Changed (run_ops [Issue, NoteDropped 1 2, Complete 5 1] (new_ledger 0))]"
      "run_ops [Issue] (new_ledger 0)" Committed] sample_failed_ledger(2)
  by (simp del: run_ops_simps)

text \<open>
  C20: Under every interleaving of the locked and the publishing phases of concurrent
  calls the published watermark is never ahead of the ledger: when a waiter sees ticket
  \<open>t\<close> covered, every ticket up to \<open>t\<close> is settled, and a published closure is a real one.
\<close>

theorem interleaved_watermark_safe:
  assumes "sys_reach now s"
  shows "inner_inv (sys_inner s) \<and>
         (\<forall>t. t \<le> wm_committed_through (sys_updates s) \<longrightarrow> \<not> unsettled (state_inner (sys_inner s) t)) \<and>
         (wm_closed (sys_updates s) \<longrightarrow> closed (sys_inner s))"
  using sys_reach_inv[OF assms]
  by (auto simp: sys_inv_def not_ahead_def state_inner_def is_settled_def)

text \<open>The schedule behind the witness and the finding: tickets 1 and 2 settle, and the two
  publications happen in the opposite order.\<close>

definition inner_1 :: Inner where
  "inner_1 = \<lparr>settled_above = {||}, committed_through = 1, progress = Map.empty,
              failed = {||}, last_advance_ms = 5, closed = False\<rparr>"

lemma settle_1: "settle_locked 5 1 False (inner (new_ledger 0)) = Some (inner_1, published inner_1)"
  by (simp add: settle_locked_def new_ledger_def inner_1_def is_settled_def progress_of_def
      wrapping_add_def absorb.simps Let_def fun_eq_iff)

lemma settle_2: "settle_locked 5 2 False inner_1 =
    Some (inner_1\<lparr>committed_through := 2\<rparr>, published (inner_1\<lparr>committed_through := 2\<rparr>))"
  by (simp add: settle_locked_def inner_1_def is_settled_def progress_of_def
      wrapping_add_def absorb.simps Let_def fun_eq_iff)

lemma reach_settle_1:
  "sys_reach 0 \<lparr>sys_inner = inner_1, sys_updates = updates (new_ledger 0), pending = [published inner_1]\<rparr>"
  using ledger_step.lock_settle[of 1 5 False "sys_new 0" inner_1 "published inner_1"] settle_1
  by (intro r_into_rtranclp) (simp add: sys_new_def)

lemma reach_reordered:
  assumes "sys_reach 0 \<lparr>sys_inner = i, sys_updates = u, pending = [w', w]\<rparr>"
  shows "sys_reach 0 \<lparr>sys_inner = i, sys_updates = w, pending = []\<rparr>"
proof -
  let ?s = "\<lparr>sys_inner = i, sys_updates = u, pending = [w', w]\<rparr>"
  let ?s1 = "\<lparr>sys_inner = i, sys_updates = w', pending = [w]\<rparr>"
  have "ledger_step ?s ?s1" using ledger_step.publish[of ?s "[]" w' "[w]"] by simp
  moreover have "ledger_step ?s1 \<lparr>sys_inner = i, sys_updates = w, pending = []\<rparr>"
    using ledger_step.publish[of ?s1 "[]" w "[]"] by simp
  ultimately show ?thesis using assms by (meson rtranclp.rtrancl_into_rtrancl)
qed

theorem interleaved_watermark_safe_witness:
  "\<not> unsettled (state_inner inner_1 1)"
proof -
  let ?s = "\<lparr>sys_inner = inner_1, sys_updates = updates (new_ledger 0), pending = [published inner_1]\<rparr>"
  have "ledger_step ?s \<lparr>sys_inner = inner_1, sys_updates = published inner_1, pending = []\<rparr>"
    using ledger_step.publish[of ?s "[]" "published inner_1" "[]"] by simp
  hence "sys_reach 0 \<lparr>sys_inner = inner_1, sys_updates = published inner_1, pending = []\<rparr>"
    using reach_settle_1 by (meson rtranclp.rtrancl_into_rtrancl)
  from interleaved_watermark_safe[OF this] show ?thesis by (simp add: inner_1_def)
qed

text \<open>
  C21: Publication is not atomic with the update it reports, so a publication can be lost:
  there are schedules, with no call left in progress, after which the ledger has settled
  tickets 1 and 2 while the channel still shows 1 (the request waiting for ticket 2 stays
  suspended), and after which the ledger is closed while the channel shows it open.
\<close>

theorem publication_can_be_stale:
  "(\<exists>s. sys_reach 0 s \<and> pending s = [] \<and> committed_through (sys_inner s) = 2 \<and>
        wait_watermark 2 \<lparr>next_ticket = 2, inner = sys_inner s, updates = sys_updates s\<rparr> [] = None) \<and>
   (\<exists>s. sys_reach 0 s \<and> pending s = [] \<and> closed (sys_inner s) \<and>
        wait_watermark 2 \<lparr>next_ticket = 2, inner = sys_inner s, updates = sys_updates s\<rparr> [] = None)"
proof
  let ?s = "\<lparr>sys_inner = inner_1, sys_updates = updates (new_ledger 0), pending = [published inner_1]\<rparr>"
  let ?i2 = "inner_1\<lparr>committed_through := 2\<rparr>" and ?ic = "inner_1\<lparr>closed := True\<rparr>"
  have "ledger_step ?s \<lparr>sys_inner = ?i2, sys_updates = updates (new_ledger 0),
                        pending = [published ?i2, published inner_1]\<rparr>"
    using ledger_step.lock_settle[of 2 5 False ?s] settle_2 by simp
  hence r2: "sys_reach 0 \<lparr>sys_inner = ?i2, sys_updates = published inner_1, pending = []\<rparr>"
    by (intro reach_reordered) (rule rtranclp.rtrancl_into_rtrancl[OF reach_settle_1])
  show "\<exists>s. sys_reach 0 s \<and> pending s = [] \<and> committed_through (sys_inner s) = 2 \<and>
        wait_watermark 2 \<lparr>next_ticket = 2, inner = sys_inner s, updates = sys_updates s\<rparr> [] = None"
    by (intro exI conjI, rule r2) (simp_all add: wait_watermark_def wait_watermark_loop.simps
        wait_watermark_poll_def watermark_def inner_1_def)
  have "ledger_step ?s \<lparr>sys_inner = ?ic, sys_updates = updates (new_ledger 0),
                        pending = [\<lparr>wm_committed_through = 1, wm_closed = True\<rparr>, published inner_1]\<rparr>"
    using ledger_step.lock_close[of ?s] by (simp add: close_locked_def inner_1_def)
  hence rc: "sys_reach 0 \<lparr>sys_inner = ?ic, sys_updates = published inner_1, pending = []\<rparr>"
    by (intro reach_reordered) (rule rtranclp.rtrancl_into_rtrancl[OF reach_settle_1])
  show "\<exists>s. sys_reach 0 s \<and> pending s = [] \<and> closed (sys_inner s) \<and>
        wait_watermark 2 \<lparr>next_ticket = 2, inner = sys_inner s, updates = sys_updates s\<rparr> [] = None"
    by (intro exI conjI, rule rc) (simp_all add: wait_watermark_def wait_watermark_loop.simps
        wait_watermark_poll_def watermark_def inner_1_def)
qed

end
