(* ===== verification/Storage_Stats.thy ===== *)
theory Storage_Stats
  imports Storage_Commands Commit_Ledger
begin

text \<open>
  Counters and progress evidence of the pipeline threads
  (\<open>otel-sqlite-storage/src/stats.rs\<close>), the health probe over them, and the snapshot of
  \<open>Storage::stats\<close> (\<open>lib.rs\<close>).

  The counters are relaxed atomics written by one thread each; \<open>fetch_add\<close> wraps.  A guard is
  modelled by the two assignments it makes, on creation and on drop.
\<close>

section \<open>Writer counters\<close>

record WriterStats =
  ws_records_written :: u64
  ws_transactions_committed :: u64
  ws_batches_received :: u64
  ws_maintenance_runs :: u64
  ws_errors :: u64
  ws_quarantined_records :: u64
  ws_transient_retries :: u64
  ws_queue_depth :: usize
  ws_in_flight :: usize
  ws_last_progress_ms :: u64
  ws_maintenance_in_progress :: bool
  ws_maintenance_started_ms :: u64
  ws_running :: bool

definition default_writer_stats :: WriterStats where
  "default_writer_stats =
     \<lparr>ws_records_written = 0, ws_transactions_committed = 0, ws_batches_received = 0,
      ws_maintenance_runs = 0, ws_errors = 0, ws_quarantined_records = 0, ws_transient_retries = 0,
      ws_queue_depth = 0, ws_in_flight = 0, ws_last_progress_ms = 0,
      ws_maintenance_in_progress = False, ws_maintenance_started_ms = 0, ws_running = False\<rparr>"

definition ws_mark_progress :: "u64 \<Rightarrow> WriterStats \<Rightarrow> WriterStats" where
  "ws_mark_progress now_ms s = s\<lparr>ws_last_progress_ms := now_ms\<rparr>"

definition new_writer_stats :: "u64 \<Rightarrow> WriterStats" where
  "new_writer_stats now_ms = ws_mark_progress now_ms default_writer_stats"

definition begin_command :: "usize \<Rightarrow> WriterStats \<Rightarrow> WriterStats" where
  "begin_command queued_after_dequeue s = s\<lparr>ws_queue_depth := queued_after_dequeue, ws_in_flight := 1\<rparr>"

definition drop_in_flight :: "WriterStats \<Rightarrow> WriterStats" where
  "drop_in_flight s = s\<lparr>ws_in_flight := 0\<rparr>"

definition maintenance_guard :: "u64 \<Rightarrow> WriterStats \<Rightarrow> WriterStats" where
  "maintenance_guard now_ms s = s\<lparr>ws_maintenance_started_ms := now_ms, ws_maintenance_in_progress := True\<rparr>"

definition drop_maintenance :: "WriterStats \<Rightarrow> WriterStats" where
  "drop_maintenance s = s\<lparr>ws_maintenance_in_progress := False, ws_maintenance_started_ms := 0\<rparr>"

definition ws_running_guard :: "WriterStats \<Rightarrow> WriterStats" where
  "ws_running_guard s = s\<lparr>ws_running := True\<rparr>"

definition ws_drop_running :: "WriterStats \<Rightarrow> WriterStats" where
  "ws_drop_running s = s\<lparr>ws_running := False\<rparr>"

section \<open>Batcher counters\<close>

record BatcherStats =
  bs_chunks_ingested :: u64
  bs_batches_emitted :: u64
  bs_timer_flushes :: u64
  bs_buffered_records :: usize
  bs_dropped_records :: u64
  bs_last_progress_ms :: u64
  bs_running :: bool

definition default_batcher_stats :: BatcherStats where
  "default_batcher_stats =
     \<lparr>bs_chunks_ingested = 0, bs_batches_emitted = 0, bs_timer_flushes = 0, bs_buffered_records = 0,
      bs_dropped_records = 0, bs_last_progress_ms = 0, bs_running = False\<rparr>"

definition bs_mark_progress :: "u64 \<Rightarrow> BatcherStats \<Rightarrow> BatcherStats" where
  "bs_mark_progress now_ms s = s\<lparr>bs_last_progress_ms := now_ms\<rparr>"

definition new_batcher_stats :: "u64 \<Rightarrow> BatcherStats" where
  "new_batcher_stats now_ms = bs_mark_progress now_ms default_batcher_stats"

definition observe_buffered :: "usize \<Rightarrow> BatcherStats \<Rightarrow> BatcherStats" where
  "observe_buffered buffered s = s\<lparr>bs_buffered_records := buffered\<rparr>"

definition bs_running_guard :: "BatcherStats \<Rightarrow> BatcherStats" where
  "bs_running_guard s = s\<lparr>bs_running := True\<rparr>"

definition bs_drop_running :: "BatcherStats \<Rightarrow> BatcherStats" where
  "bs_drop_running s = s\<lparr>bs_running := False\<rparr>"

section \<open>The health probe and the snapshot\<close>

record StorageHealth =
  sh_writer :: WriterStats
  sh_batcher :: BatcherStats
  sh_ledger :: CommitLedger
  sh_queue_capacity :: usize

definition sample :: "u64 \<Rightarrow> StorageHealth \<Rightarrow> PipelineSample" where
  "sample now h =
     (let w = sh_writer h; b = sh_batcher h; started = ws_maintenance_started_ms w
      in \<lparr>writer_running = ws_running w,
          batcher_running = bs_running b,
          writer_idle_ms = now - ws_last_progress_ms w,
          batcher_idle_ms = now - bs_last_progress_ms b,
          queue_depth = saturating_add (ws_queue_depth w) (ws_in_flight w),
          queue_capacity = sh_queue_capacity h,
          pending_records = bs_buffered_records b,
          outstanding_tickets_count = outstanding_tickets (sh_ledger h),
          watermark_idle_ms = now - last_advance_ms (inner (sh_ledger h)),
          maintenance_in_progress = ws_maintenance_in_progress w,
          maintenance_elapsed_ms = (if started = 0 then 0 else now - started)\<rparr>)"

record StorageStatsSnapshot =
  sn_records_written :: u64
  sn_transactions_committed :: u64
  sn_batches_received :: u64
  sn_maintenance_runs :: u64
  sn_errors :: u64
  sn_quarantined_records :: u64
  sn_transient_retries :: u64
  sn_queue_depth :: usize
  sn_chunks_ingested :: u64
  sn_write_batches_emitted :: u64
  sn_timer_flushes :: u64
  sn_dropped_records :: u64

definition storage_stats :: "WriterStats \<Rightarrow> BatcherStats \<Rightarrow> StorageStatsSnapshot" where
  "storage_stats w b =
     \<lparr>sn_records_written = ws_records_written w,
      sn_transactions_committed = ws_transactions_committed w,
      sn_batches_received = ws_batches_received w,
      sn_maintenance_runs = ws_maintenance_runs w,
      sn_errors = ws_errors w,
      sn_quarantined_records = ws_quarantined_records w,
      sn_transient_retries = ws_transient_retries w,
      sn_queue_depth = ws_queue_depth w,
      sn_chunks_ingested = bs_chunks_ingested b,
      sn_write_batches_emitted = bs_batches_emitted b,
      sn_timer_flushes = bs_timer_flushes b,
      sn_dropped_records = bs_dropped_records b\<rparr>"

lemmas stats_defs [step_simps] = ws_mark_progress_def begin_command_def drop_in_flight_def maintenance_guard_def
  drop_maintenance_def ws_running_guard_def ws_drop_running_def bs_mark_progress_def observe_buffered_def
  bs_running_guard_def bs_drop_running_def

text \<open>An executing command is always visible as pending work, even behind an empty queue.\<close>

lemma in_flight_is_pending:
  "ws_in_flight (sh_writer h) \<noteq> 0 \<Longrightarrow> pending_work (sample now h) \<noteq> 0"
  by (simp add: pending_work_0 sample_def Let_def)

lemma drained_is_not_pending:
  "pending_work (sample now h) = 0 \<longleftrightarrow>
   ws_queue_depth (sh_writer h) = 0 \<and> ws_in_flight (sh_writer h) = 0 \<and> bs_buffered_records (sh_batcher h) = 0"
  by (auto simp: pending_work_0 sample_def Let_def)

end
