(* ===== verification/Writer.thy ===== *)
theory Writer
  imports Log_Insert Migrations Storage_Stats
begin

text \<open>
  The single SQLite writer (\<open>otel-sqlite-storage/src/writer.rs\<close>) with its fault-injection
  knob (\<open>fault.rs\<close>) and the closing guard (\<open>LedgerCloseOnDrop\<close> of \<open>lib.rs\<close>).

  The command channel is the list of commands the writer receives before the channel
  closes, each with the channel lengths and clock readings of its loop turn.  A handler
  reads the clock once.  Metrics and log lines are omitted; sleeping between retries
  changes nothing the model holds.  \<open>None\<close> is a pruning loop that does not return.
\<close>

section \<open>Settling a batch\<close>

definition settle_log_batch ::
  "u64 \<Rightarrow> LogWriteBatch \<Rightarrow> SalvageOutcome option \<Rightarrow> CommitLedger \<Rightarrow> CommitLedger" where
  "settle_log_batch now_ms batch salvage l =
     (if lwb_segments batch = []
      then let dropped = (case salvage of Some out \<Rightarrow> so_dropped out | None \<Rightarrow> 0)
           in fold (\<lambda>seq l. complete now_ms seq (if dropped > 0 then note_dropped seq dropped l else l))
                (lwb_commit_seqs batch) l
      else case salvage of
             None \<Rightarrow>
               fold (\<lambda>seg l. let l1 = note_committed (seg_commit_seq seg) (seg_records seg) l
                             in if seg_complete seg then complete now_ms (seg_commit_seq seg) l1 else l1)
                 (lwb_segments batch) l
           | Some out \<Rightarrow>
               let noted = fold (\<lambda>seq l.
                     let (kept, dropped) = by_ticket_of out seq;
                         l1 = (if kept > 0 then note_committed seq kept l else l)
                     in if dropped > 0 then note_dropped seq dropped l1 else l1) (lwb_commit_seqs batch) l
               in fold (\<lambda>seg l. if seg_complete seg then complete now_ms (seg_commit_seq seg) l else l)
                    (lwb_segments batch) noted)"

section \<open>Persistence policy\<close>

definition MAX_TRANSIENT_RETRIES :: u32 where
  "MAX_TRANSIENT_RETRIES = 4"

definition RETRY_BACKOFF_BASE :: duration where
  "RETRY_BACKOFF_BASE = from_millis 250"

definition backoff_delay :: "u32 \<Rightarrow> duration" where
  "backoff_delay attempt =
     min (min (RETRY_BACKOFF_BASE * 2 ^ min attempt 4) DURATION_MAX) (from_secs 4)"

definition ws_count_commit :: "u64 \<Rightarrow> u64 \<Rightarrow> WriterStats \<Rightarrow> WriterStats" where
  "ws_count_commit now_ms written s =
     ws_mark_progress now_ms
       (s\<lparr>ws_records_written := wrapping_add (ws_records_written s) written,
          ws_transactions_committed := wrapping_add (ws_transactions_committed s) 1\<rparr>)"

definition ws_count_error :: "WriterStats \<Rightarrow> WriterStats" where
  "ws_count_error s = s\<lparr>ws_errors := wrapping_add (ws_errors s) 1\<rparr>"

definition run_transaction ::
  "'w sqlite \<Rightarrow> u64 \<Rightarrow> ('w, u64) io \<Rightarrow> 'w \<Rightarrow> WriterStats \<Rightarrow>
   (StorageError \<times> FailureClass + unit) \<times> 'w \<times> WriterStats" where
  "run_transaction sq now_ms persist w s =
     (case sq_begin sq w of
        (Inl e, w1) \<Rightarrow> (Inl (Sqlite e, error_class (Sqlite e)), w1, s)
      | (Inr _, w1) \<Rightarrow>
          (case persist w1 of
             (Inr written, w2) \<Rightarrow>
               (case sq_commit sq w2 of
                  (Inl e, w3) \<Rightarrow> (Inl (Sqlite e, error_class (Sqlite e)), sq_rollback sq w3, s)
                | (Inr _, w3) \<Rightarrow> (Inr (), w3, ws_count_commit now_ms written s))
           | (Inl e, w2) \<Rightarrow> (Inl (e, error_class e), sq_rollback sq w2, ws_count_error s)))"

definition finish_salvage ::
  "'w sqlite \<Rightarrow> u64 \<Rightarrow> ('w, SalvageOutcome) io \<Rightarrow> 'w \<Rightarrow> WriterStats \<Rightarrow>
   (StorageError + SalvageOutcome) \<times> 'w \<times> WriterStats" where
  "finish_salvage sq now_ms salvage w s =
     (case sq_begin sq w of
        (Inl e, w1) \<Rightarrow> (Inl (Sqlite e), w1, s)
      | (Inr _, w1) \<Rightarrow>
          (case salvage w1 of
             (Inr out, w2) \<Rightarrow>
               (case sq_commit sq w2 of
                  (Inl e, w3) \<Rightarrow> (Inl (Sqlite e), sq_rollback sq w3, s)
                | (Inr _, w3) \<Rightarrow>
                    (Inr out, w3,
                     ws_count_commit now_ms (so_kept out)
                       (s\<lparr>ws_quarantined_records := wrapping_add (ws_quarantined_records s) (so_dropped out)\<rparr>)))
           | (Inl e, w2) \<Rightarrow> (Inl e, sq_rollback sq w2, ws_count_error s)))"

text \<open>The policy loop; the result also lists the delays slept.\<close>

function persist_loop ::
  "'w sqlite \<Rightarrow> u64 \<Rightarrow> ('w, u64) io \<Rightarrow> ('w, SalvageOutcome) io \<Rightarrow> u32 \<Rightarrow> 'w \<Rightarrow> WriterStats \<Rightarrow>
   (StorageError + SalvageOutcome option) \<times> 'w \<times> WriterStats \<times> duration list" where
  "persist_loop sq now_ms strict salvage attempt w s =
     (case run_transaction sq now_ms strict w s of
        (Inr _, w1, s1) \<Rightarrow> (Inr None, w1, s1, [])
      | (Inl (e, Poison), w1, s1) \<Rightarrow>
          (case finish_salvage sq now_ms salvage w1 s1 of
             (Inl e', w2, s2) \<Rightarrow> (Inl e', w2, s2, [])
           | (Inr out, w2, s2) \<Rightarrow> (Inr (Some out), w2, s2, []))
      | (Inl (e, Retryable), w1, s1) \<Rightarrow>
          if attempt < MAX_TRANSIENT_RETRIES
          then case persist_loop sq now_ms strict salvage (attempt + 1) w1
                      (s1\<lparr>ws_transient_retries := wrapping_add (ws_transient_retries s1) 1\<rparr>) of
                 (r, w2, s2, delays) \<Rightarrow> (r, w2, s2, backoff_delay attempt # delays)
          else (Inl e, w1, s1, [])
      | (Inl (e, FatalFailure), w1, s1) \<Rightarrow> (Inl e, w1, s1, []))"
  by pat_completeness auto
termination
  by (relation "measure (\<lambda>(_, _, _, _, attempt, _, _). MAX_TRANSIENT_RETRIES - attempt)") auto

declare persist_loop.simps [simp del]

definition persist_with_policy ::
  "'w sqlite \<Rightarrow> u64 \<Rightarrow> ('w, u64) io \<Rightarrow> ('w, SalvageOutcome) io \<Rightarrow> 'w \<Rightarrow> WriterStats \<Rightarrow>
   (StorageError + SalvageOutcome option) \<times> 'w \<times> WriterStats \<times> duration list" where
  "persist_with_policy sq now_ms strict salvage w s = persist_loop sq now_ms strict salvage 0 w s"

section \<open>Maintenance commands\<close>

definition MAINTENANCE_PRESSURE_SKIP_DEPTH :: usize where
  "MAINTENANCE_PRESSURE_SKIP_DEPTH = 1000"

fun heavy_maintenance_label :: "MaintenanceOperation \<Rightarrow> string option" where
  "heavy_maintenance_label Vacuum = Some ''vacuum''"
| "heavy_maintenance_label RebuildFts = Some ''rebuild_fts''"
| "heavy_maintenance_label (Prune (Some d)) = Some ''prune''"
| "heavy_maintenance_label (Prune None) = None"
| "heavy_maintenance_label Analyze = None"

fun maintain :: "'w sqlite \<Rightarrow> i64 \<Rightarrow> MaintenanceOperation \<Rightarrow> 'w \<Rightarrow> ((StorageError + bool) \<times> 'w) option" where
  "maintain sq now_ns Analyze w = Some (io_bind (analyze sq) (\<lambda>_. io_return True) w)"
| "maintain sq now_ns Vacuum w = Some (io_bind (vacuum sq) (\<lambda>_. io_return True) w)"
| "maintain sq now_ns RebuildFts w = Some (io_bind (rebuild_fts sq) (\<lambda>_. io_return True) w)"
| "maintain sq now_ns (Prune None) w = Some (Inr False, w)"
| "maintain sq now_ns (Prune (Some window)) w =
     map_option (\<lambda>(r, w1). (case r of Inl e \<Rightarrow> Inl e | Inr report \<Rightarrow> Inr True, w1))
       (prune sq (Some window) now_ns w)"

definition run_maintenance ::
  "'w sqlite \<Rightarrow> i64 \<Rightarrow> MaintenanceOperation \<Rightarrow> usize \<Rightarrow> 'w \<Rightarrow> ((StorageError + bool) \<times> 'w) option" where
  "run_maintenance sq now_ns operation queue_backlog w =
     (if queue_backlog > MAINTENANCE_PRESSURE_SKIP_DEPTH \<and> heavy_maintenance_label operation \<noteq> None
      then Some (Inr False, w)
      else maintain sq now_ns operation w)"

definition enforce_quota :: "'w sqlite \<Rightarrow> u64 \<Rightarrow> u64 \<Rightarrow> 'w \<Rightarrow> WriterStats \<Rightarrow> 'w \<times> WriterStats" where
  "enforce_quota sq now_ms quota_bytes w s =
     (if database_bytes sq w \<le> quota_bytes then (w, s)
      else let s1 = maintenance_guard now_ms s
           in case enforce_size_quota sq quota_bytes w of
                (Inr report, w1) \<Rightarrow> (w1, drop_maintenance (ws_mark_progress now_ms s1))
              | (Inl e, w1) \<Rightarrow> (w1, drop_maintenance s1))"

section \<open>Executing commands\<close>

record 'w Writer =
  wr_world :: 'w
  wr_ledger :: CommitLedger
  wr_stats :: WriterStats

record codec =
  cd_sha256 :: "u8 list \<Rightarrow> u8 list"
  cd_render :: "json \<Rightarrow> string"

definition count_maintenance :: "u64 \<Rightarrow> WriterStats \<Rightarrow> WriterStats" where
  "count_maintenance now_ms s =
     ws_mark_progress now_ms (s\<lparr>ws_maintenance_runs := wrapping_add (ws_maintenance_runs s) 1\<rparr>)"

definition execute_insert ::
  "'w sqlite \<Rightarrow> codec \<Rightarrow> u64 \<Rightarrow> LogWriteBatch \<Rightarrow> 'w Writer \<Rightarrow> (StorageError + unit) \<times> 'w Writer" where
  "execute_insert sq cd now_ms batch wr =
     (if wb_is_empty (lwb_records batch)
      then (Inr (), wr\<lparr>wr_ledger := fold (\<lambda>seq l. void now_ms seq l) (lwb_commit_seqs batch) (wr_ledger wr)\<rparr>)
      else let s = wr_stats wr;
               s0 = s\<lparr>ws_batches_received := wrapping_add (ws_batches_received s) 1\<rparr>
           in case persist_with_policy sq now_ms
                     (insert_logs sq (cd_sha256 cd) (cd_render cd) batch)
                     (insert_logs_tolerant sq (cd_sha256 cd) (cd_render cd) batch) (wr_world wr) s0 of
                (Inl e, w1, s1, _) \<Rightarrow> (Inl e, wr\<lparr>wr_world := w1, wr_stats := s1\<rparr>)
              | (Inr salvage, w1, s1, _) \<Rightarrow>
                  (Inr (), wr\<lparr>wr_world := w1, wr_stats := s1,
                             wr_ledger := settle_log_batch now_ms batch salvage (wr_ledger wr)\<rparr>))"

fun execute ::
  "'w sqlite \<Rightarrow> codec \<Rightarrow> u64 \<Rightarrow> i64 \<Rightarrow> WriteCommand \<Rightarrow> usize \<Rightarrow> 'w Writer \<Rightarrow>
   ((StorageError + unit) \<times> 'w Writer) option" where
  "execute sq cd now_ms now_ns (InsertLogs batch) backlog wr = Some (execute_insert sq cd now_ms batch wr)"
| "execute sq cd now_ms now_ns Flush backlog wr = Some (Inr (), wr)"
| "execute sq cd now_ms now_ns (Checkpoint mode) backlog wr =
     (let s1 = maintenance_guard now_ms (wr_stats wr)
      in case checkpoint sq mode (wr_world wr) of
           (Inl e, w1) \<Rightarrow> Some (Inl e, wr\<lparr>wr_world := w1, wr_stats := drop_maintenance s1\<rparr>)
         | (Inr _, w1) \<Rightarrow>
             Some (Inr (), wr\<lparr>wr_world := w1, wr_stats := drop_maintenance (count_maintenance now_ms s1)\<rparr>))"
| "execute sq cd now_ms now_ns (Maintenance operation) backlog wr =
     (let s1 = maintenance_guard now_ms (wr_stats wr)
      in map_option (\<lambda>(r, w1).
           case r of
             Inl e \<Rightarrow> (Inl e, wr\<lparr>wr_world := w1, wr_stats := drop_maintenance s1\<rparr>)
           | Inr did_run \<Rightarrow>
               (Inr (), wr\<lparr>wr_world := w1,
                          wr_stats := drop_maintenance (if did_run then count_maintenance now_ms s1 else s1)\<rparr>))
           (run_maintenance sq now_ns operation backlog (wr_world wr)))"

section \<open>The writer thread\<close>

definition parse_armed :: "string option \<Rightarrow> u64 option" where
  "parse_armed value =
     (case Option.bind value (\<lambda>v. parse_u64 (trim v)) of
        Some limit \<Rightarrow> if limit > 0 then Some limit else None
      | None \<Rightarrow> None)"

record command_event =
  ce_depth :: usize
  ce_command :: WriteCommand
  ce_backlog :: usize
  ce_now_ms :: u64
  ce_now_ns :: i64

definition quota_step :: "'w sqlite \<Rightarrow> u64 option \<Rightarrow> command_event \<Rightarrow> 'w Writer \<Rightarrow> 'w Writer" where
  "quota_step sq max_db_bytes ev wr =
     (case max_db_bytes of
        Some quota \<Rightarrow>
          if command_record_count (ce_command ev) \<noteq> 0
          then case enforce_quota sq (ce_now_ms ev) quota (wr_world wr) (wr_stats wr) of
                 (w1, s1) \<Rightarrow> wr\<lparr>wr_world := w1, wr_stats := s1\<rparr>
          else wr
      | None \<Rightarrow> wr)"

definition on_stats :: "(WriterStats \<Rightarrow> WriterStats) \<Rightarrow> 'w Writer \<Rightarrow> 'w Writer" where
  "on_stats f wr = wr\<lparr>wr_stats := f (wr_stats wr)\<rparr>"

fun command_loop ::
  "'w sqlite \<Rightarrow> codec \<Rightarrow> u64 option \<Rightarrow> u64 option \<Rightarrow> u64 \<Rightarrow> command_event list \<Rightarrow> 'w Writer \<Rightarrow>
   ((StorageError + unit) \<times> 'w Writer) option" where
  "command_loop sq cd max_db_bytes fault_after processed [] wr =
     Some (Inr (), on_stats (\<lambda>s. s\<lparr>ws_queue_depth := 0\<rparr>) wr)"
| "command_loop sq cd max_db_bytes fault_after processed (ev # evs) wr =
     (let wr1 = on_stats (begin_command (ce_backlog ev)) (on_stats (\<lambda>s. s\<lparr>ws_queue_depth := ce_depth ev\<rparr>) wr);
          wr2 = quota_step sq max_db_bytes ev wr1
      in case execute sq cd (ce_now_ms ev) (ce_now_ns ev) (ce_command ev) (ce_backlog ev) wr2 of
           None \<Rightarrow> None
         | Some (Inl e, wr3) \<Rightarrow> Some (Inl e, on_stats drop_in_flight wr3)
         | Some (Inr _, wr3) \<Rightarrow>
             (let processed' = wrapping_add processed 1; wr4 = on_stats drop_in_flight wr3
              in if (case fault_after of Some limit \<Rightarrow> processed' \<ge> limit | None \<Rightarrow> False)
                 then Some (Inl (FaultInjected ''writer''), wr4)
                 else command_loop sq cd max_db_bytes fault_after processed' evs wr4))"

text \<open>\<open>boot\<close> is \<open>bootstrap\<close> applied to its configuration; \<open>run_inner\<close> also returns what it sends
  on the ready channel.\<close>

definition run_inner ::
  "'w sqlite \<Rightarrow> codec \<Rightarrow> ('w, unit) io \<Rightarrow> u64 option \<Rightarrow> u64 option \<Rightarrow> u64 \<Rightarrow> command_event list \<Rightarrow>
   'w Writer \<Rightarrow> ((StorageError + unit) \<times> bool \<times> 'w Writer) option" where
  "run_inner sq cd boot max_db_bytes fault_after now_ms evs wr =
     (let wr0 = on_stats ws_running_guard wr; finish = on_stats ws_drop_running
      in case boot (wr_world wr0) of
           (Inl e, w1) \<Rightarrow> Some (Inl e, False, finish (wr0\<lparr>wr_world := w1\<rparr>))
         | (Inr _, w1) \<Rightarrow>
             (case checkpoint sq Truncate w1 of
                (Inl e, w2) \<Rightarrow> Some (Inl e, True, finish (wr0\<lparr>wr_world := w2\<rparr>))
              | (Inr _, w2) \<Rightarrow>
                  (case command_loop sq cd max_db_bytes fault_after 0 evs
                          (on_stats (ws_mark_progress now_ms) (wr0\<lparr>wr_world := w2\<rparr>)) of
                     None \<Rightarrow> None
                   | Some (Inl e, wr3) \<Rightarrow> Some (Inl e, True, finish wr3)
                   | Some (Inr _, wr3) \<Rightarrow>
                       (case checkpoint sq Truncate (wr_world wr3) of
                          (Inl e, w4) \<Rightarrow> Some (Inl e, True, finish (wr3\<lparr>wr_world := w4\<rparr>))
                        | (Inr _, w4) \<Rightarrow> Some (Inr (), True, finish (wr3\<lparr>wr_world := w4\<rparr>))))))"

text \<open>\<open>LedgerCloseOnDrop\<close>: armed, it closes the ledger when the thread ends.\<close>

definition drop_close_guard :: "bool \<Rightarrow> CommitLedger \<Rightarrow> CommitLedger" where
  "drop_close_guard armed l = (if armed then close l else l)"

definition run_writer ::
  "'w sqlite \<Rightarrow> codec \<Rightarrow> ('w, unit) io \<Rightarrow> u64 option \<Rightarrow> u64 option \<Rightarrow> u64 \<Rightarrow> command_event list \<Rightarrow>
   'w Writer \<Rightarrow> ((StorageError + unit) \<times> bool \<times> 'w Writer) option" where
  "run_writer sq cd boot max_db_bytes fault_after now_ms evs wr =
     map_option (\<lambda>(r, ready, wr1). (r, ready, wr1\<lparr>wr_ledger := drop_close_guard True (wr_ledger wr1)\<rparr>))
       (run_inner sq cd boot max_db_bytes fault_after now_ms evs wr)"

end
