(* ===== verification/Writer_Proofs.thy ===== *)
theory Writer_Proofs
  imports Writer "HOL-Library.Sublist"
begin

text \<open>
  Properties of the writer: what one batch does to the database and to the ledger, what a
  stream of batches does to each ticket, retry bounds, and what every exit path leaves.
\<close>

section \<open>Settling as ledger calls\<close>

abbreviation reported_dropped :: "SalvageOutcome option \<Rightarrow> u64" where
  "reported_dropped salvage \<equiv> (case salvage of Some out \<Rightarrow> so_dropped out | None \<Rightarrow> 0)"

definition settle_ops :: "u64 \<Rightarrow> LogWriteBatch \<Rightarrow> SalvageOutcome option \<Rightarrow> ledger_op list" where
  "settle_ops now b salvage =
     (if lwb_segments b = []
      then concat (map (\<lambda>t. (if reported_dropped salvage > 0 then [NoteDropped t (reported_dropped salvage)] else []) @
                            [Complete now t]) (lwb_commit_seqs b))
      else case salvage of
        None \<Rightarrow> concat (map (\<lambda>s. NoteCommitted (seg_commit_seq s) (seg_records s) #
                                 (if seg_complete s then [Complete now (seg_commit_seq s)] else [])) (lwb_segments b))
      | Some out \<Rightarrow>
          concat (map (\<lambda>t. (if fst (by_ticket_of out t) > 0 then [NoteCommitted t (fst (by_ticket_of out t))] else []) @
                           (if snd (by_ticket_of out t) > 0 then [NoteDropped t (snd (by_ticket_of out t))] else []))
                   (lwb_commit_seqs b)) @
          map (Complete now) (completed_tickets (lwb_segments b)))"

lemma fold_run_ops:
  "(\<And>x l. f x l = run_ops (g x) l) \<Longrightarrow> fold f xs l = run_ops (concat (map g xs)) l"
  by (induction xs arbitrary: l) simp_all

lemma settle_log_batch_ops: "settle_log_batch now b salvage l = run_ops (settle_ops now b salvage) l"
proof (cases "lwb_segments b = []")
  case True
  let ?d = "reported_dropped salvage"
  have "fold (\<lambda>seq l. complete now seq (if ?d > 0 then note_dropped seq ?d l else l)) seqs l =
        run_ops (concat (map (\<lambda>t. (if ?d > 0 then [NoteDropped t ?d] else []) @ [Complete now t]) seqs)) l" for seqs l
    by (rule fold_run_ops) simp
  thus ?thesis using True by (simp add: settle_log_batch_def settle_ops_def)
next
  case segs: False
  show ?thesis
  proof (cases salvage)
    case None
    have "fold (\<lambda>seg l. let l1 = note_committed (seg_commit_seq seg) (seg_records seg) l
                 in if seg_complete seg then complete now (seg_commit_seq seg) l1 else l1) (lwb_segments b) l =
          run_ops (settle_ops now b None) l"
      unfolding settle_ops_def if_not_P[OF segs] option.case by (rule fold_run_ops) simp
    thus ?thesis using segs None by (simp add: settle_log_batch_def)
  next
    case (Some out)
    let ?notes = "\<lambda>t. (if fst (by_ticket_of out t) > 0 then [NoteCommitted t (fst (by_ticket_of out t))] else []) @
                       (if snd (by_ticket_of out t) > 0 then [NoteDropped t (snd (by_ticket_of out t))] else [])"
    have 1: "fold (\<lambda>seq l. case by_ticket_of out seq of (kept, dropped) \<Rightarrow>
                    let l1 = (if kept > 0 then note_committed seq kept l else l)
                    in if dropped > 0 then note_dropped seq dropped l1 else l1) seqs l =
          run_ops (concat (map ?notes seqs)) l" for seqs l
      by (rule fold_run_ops) (simp add: split_beta Let_def)
    have 2: "fold (\<lambda>seg l. if seg_complete seg then complete now (seg_commit_seq seg) l else l) segs l =
          run_ops (map (Complete now) (completed_tickets segs)) l" for segs l
      by (induction segs arbitrary: l) simp_all
    show ?thesis using segs Some by (simp add: settle_log_batch_def settle_ops_def 1 2)
  qed
qed

section \<open>The effect of one batch on a ticket\<close>

fun well_segmented :: "RecordSegment list \<Rightarrow> bool" where
  "well_segmented [] = True"
| "well_segmented (s # ss) \<longleftrightarrow>
     (seg_complete s \<longrightarrow> seg_commit_seq s \<notin> set (map seg_commit_seq ss)) \<and> well_segmented ss"

definition batch_wf :: "LogWriteBatch \<Rightarrow> bool" where
  "batch_wf b \<longleftrightarrow>
     lwb_segments b \<noteq> [] \<and> \<not> wb_is_empty (lwb_records b) \<and>
     length (segment_tags (lwb_segments b)) = wb_len (lwb_records b) \<and>
     distinct (lwb_commit_seqs b) \<and> set (lwb_commit_seqs b) = set (map seg_commit_seq (lwb_segments b)) \<and>
     list_all (\<lambda>t. t \<noteq> 0 \<and> t \<le> U64_MAX) (lwb_commit_seqs b) \<and> well_segmented (lwb_segments b)"

text \<open>A batch may also come without segments; then it stands for all of its tickets as a whole.\<close>

definition batch_ok :: "LogWriteBatch \<Rightarrow> bool" where
  "batch_ok b \<longleftrightarrow> batch_wf b \<or>
     lwb_segments b = [] \<and> \<not> wb_is_empty (lwb_records b) \<and> list_all (\<lambda>t. t \<noteq> 0 \<and> t \<le> U64_MAX) (lwb_commit_seqs b)"

abbreviation batch_settles :: "LogWriteBatch \<Rightarrow> u64 set" where
  "batch_settles b \<equiv> set (if lwb_segments b = [] then lwb_commit_seqs b else completed_tickets (lwb_segments b))"

definition verdict :: "TicketProgress \<Rightarrow> nat \<Rightarrow> nat \<Rightarrow> bool \<Rightarrow> TicketState" where
  "verdict p k d final =
     (let p' = \<lparr>tp_committed = tp_committed p + k, tp_dropped = tp_dropped p + d\<rparr>
      in if final then (if tp_dropped p' > 0 then FailedTicket p' else Completed) else Unsettled p')"

lemma strict_fold:
  assumes "well_segmented segs" "tp_committed p + count_list (segment_tags segs) t \<le> U64_MAX" "t \<noteq> 0"
  shows "fold ticket_step
           (filter (\<lambda>op. op_ticket op = t)
             (concat (map (\<lambda>s. NoteCommitted (seg_commit_seq s) (seg_records s) #
                (if seg_complete s then [Complete now (seg_commit_seq s)] else [])) segs))) (Unsettled p) =
         verdict p (count_list (segment_tags segs) t) 0 (t \<in> set (completed_tickets segs))"
  using assms
proof (induction segs arbitrary: p)
  case (Cons s segs)
  let ?ops = "\<lambda>segs. filter (\<lambda>op. op_ticket op = t)
             (concat (map (\<lambda>s. NoteCommitted (seg_commit_seq s) (seg_records s) #
                (if seg_complete s then [Complete now (seg_commit_seq s)] else [])) segs))"
  have rep: "count_list (replicate n x) t = (if x = t then n else 0)" for n x by (induction n) auto
  show ?case
  proof (cases "seg_commit_seq s = t")
    case False
    thus ?thesis using Cons by (simp add: rep)
  next
    case eq: True
    let ?p = "if seg_records s = 0 then p else bump_committed (seg_records s) p"
    have peq: "?p = \<lparr>tp_committed = tp_committed p + seg_records s, tp_dropped = tp_dropped p\<rparr>"
      using Cons.prems(2) eq by (simp add: bump_committed_def saturating_add_exact rep)
    hence p: "tp_committed ?p = tp_committed p + seg_records s" "tp_dropped ?p = tp_dropped p" by simp_all
    have nstep: "ticket_step (NoteCommitted t (seg_records s)) (Unsettled p) = Unsettled ?p" by simp
    show ?thesis
    proof (cases "seg_complete s")
      case True
      hence none: "t \<notin> set (map seg_commit_seq segs)" using Cons.prems(1) eq by simp
      hence "?ops segs = []" by (auto simp: filter_empty_conv)
      moreover have "count_list (segment_tags segs) t = 0"
        using none by (auto simp: segment_tags_def count_list_0_iff)
      ultimately show ?thesis using True eq nstep unfolding peq
        by (simp add: verdict_def rep Let_def del: ticket_step.simps(1))
    next
      case False
      have "verdict ?p n 0 c = verdict p (seg_records s + n) 0 c" for n c
        using p by (simp add: verdict_def add.assoc)
      thus ?thesis using Cons.IH[of ?p] Cons.prems False eq p nstep by (simp add: rep del: ticket_step.simps(1))
    qed
  qed
qed (simp add: verdict_def)

lemma complete_fold: "fold ticket_step (replicate n (Complete now t)) (Unsettled p) = verdict p 0 0 (n \<noteq> 0)"
proof (cases n)
  case (Suc m)
  have "fold ticket_step (replicate m (Complete now t)) s = s" if "\<not> unsettled s" for s
    using ledger.settled_run_fixed[OF that] .
  thus ?thesis using Suc by (cases p) (simp add: verdict_def)
qed (simp add: verdict_def)

lemma filter_distinct_concat:
  assumes "distinct xs" "\<And>x y. y \<in> set (f x) \<Longrightarrow> g y = x"
  shows "filter (\<lambda>y. g y = t) (concat (map f xs)) = (if t \<in> set xs then f t else [])"
  using assms(1)
proof (induction xs)
  case (Cons x xs)
  have "filter (\<lambda>y. g y = t) (f x) = (if x = t then f x else [])"
    using assms(2)[of _ x] by (auto simp: filter_id_conv filter_empty_conv)
  thus ?case using Cons by auto
qed simp

lemma salvage_fold:
  assumes "distinct seqs" "t \<in> set seqs" "by_ticket_of out t = (k, d)"
    and "tp_committed p + k \<le> U64_MAX" "tp_dropped p + d \<le> U64_MAX"
  shows "fold ticket_step
           (filter (\<lambda>op. op_ticket op = t)
             (concat (map (\<lambda>t. (if fst (by_ticket_of out t) > 0 then [NoteCommitted t (fst (by_ticket_of out t))] else []) @
                           (if snd (by_ticket_of out t) > 0 then [NoteDropped t (snd (by_ticket_of out t))] else [])) seqs) @
              map (Complete now) cs)) (Unsettled p) = verdict p k d (t \<in> set cs)"
proof -
  have on_t: "filter (\<lambda>op. op_ticket op = t)
             (concat (map (\<lambda>t. (if fst (by_ticket_of out t) > 0 then [NoteCommitted t (fst (by_ticket_of out t))] else []) @
                           (if snd (by_ticket_of out t) > 0 then [NoteDropped t (snd (by_ticket_of out t))] else [])) seqs)) =
        (if k > 0 then [NoteCommitted t k] else []) @ (if d > 0 then [NoteDropped t d] else [])"
    by (subst filter_distinct_concat[OF assms(1)]) (auto simp: assms(2,3) split: if_splits)
  have "filter (\<lambda>op. op_ticket op = t) (map (Complete now) cs) = replicate (count_list cs t) (Complete now t)"
    by (induction cs) auto
  moreover have "fold ticket_step ((if k > 0 then [NoteCommitted t k] else []) @ (if d > 0 then [NoteDropped t d] else []))
          (Unsettled p) = Unsettled \<lparr>tp_committed = tp_committed p + k, tp_dropped = tp_dropped p + d\<rparr>"
    using assms(4,5) by (cases p) (simp add: bump_committed_def bump_dropped_def saturating_add_exact)
  ultimately show ?thesis
    by (simp add: on_t complete_fold count_list_0_iff del: fold_replicate) (simp add: verdict_def)
qed

definition kept_count :: "LogWriteBatch \<Rightarrow> bool list \<Rightarrow> u64 \<Rightarrow> nat" where
  "kept_count b ok t = length (filter (\<lambda>p. snd p = t) (kept_rows (batch_rows b) ok))"

definition dropped_count :: "LogWriteBatch \<Rightarrow> bool list \<Rightarrow> u64 \<Rightarrow> nat" where
  "dropped_count b ok t = length (filter (\<lambda>p. snd p = t) (dropped_rows (batch_rows b) ok))"

text \<open>What a batch adds to the progress of a ticket: its own records, or, without segments, every
  record the batch lost.\<close>

definition noted_kept :: "LogWriteBatch \<Rightarrow> bool list \<Rightarrow> u64 \<Rightarrow> nat" where
  "noted_kept b ok t = (if lwb_segments b = [] then 0 else kept_count b ok t)"

definition noted_dropped :: "LogWriteBatch \<Rightarrow> bool list \<Rightarrow> u64 \<Rightarrow> nat" where
  "noted_dropped b ok t =
     (if lwb_segments b = [] then (if t \<in> set (lwb_commit_seqs b) then length (dropped_rows (batch_rows b) ok) else 0)
      else dropped_count b ok t)"

text \<open>A salvage result that reports the rows kept and dropped by \<open>ok\<close>; a strict pass keeps all.\<close>

definition reports :: "LogWriteBatch \<Rightarrow> bool list \<Rightarrow> SalvageOutcome option \<Rightarrow> bool" where
  "reports b ok salvage \<longleftrightarrow>
     length ok = wb_len (lwb_records b) \<and>
     (case salvage of
        None \<Rightarrow> list_all id ok
      | Some out \<Rightarrow> so_kept out = length (kept_rows (batch_rows b) ok) \<and>
          so_dropped out = length (dropped_rows (batch_rows b) ok) \<and>
          (\<forall>t. t \<noteq> 0 \<longrightarrow> by_ticket_of out t = (kept_count b ok t, dropped_count b ok t)))"

lemma counts_add:
  "length ok = wb_len (lwb_records b) \<Longrightarrow>
   kept_count b ok t + dropped_count b ok t = length (filter (\<lambda>p. snd p = t) (batch_rows b))"
proof -
  have "length ok = length rows \<Longrightarrow>
    length (filter (\<lambda>p. snd p = t) (kept_rows rows ok)) + length (filter (\<lambda>p. snd p = t) (dropped_rows rows ok)) =
    length (filter (\<lambda>p. snd p = t) rows)" for ok and rows :: "(LogRecord \<times> u64) list"
    by (induction ok rows rule: list_induct2) (auto simp: kept_rows_def dropped_rows_def)
  thus "length ok = wb_len (lwb_records b) \<Longrightarrow> ?thesis" by (simp add: kept_count_def dropped_count_def)
qed

lemma batch_rows_count:
  assumes "batch_wf b"
  shows "length (filter (\<lambda>p. snd p = t) (batch_rows b)) = count_list (segment_tags (lwb_segments b)) t"
proof -
  have "length (filter (\<lambda>p. snd p = t) rows) = count_list (map snd rows) t" for rows :: "(LogRecord \<times> u64) list"
    by (induction rows) auto
  thus ?thesis using map_snd_batch_rows[of b] assms by (simp add: batch_wf_def)
qed

lemma absent_ticket:
  assumes "batch_wf b" "t \<notin> set (lwb_commit_seqs b)"
  shows "count_list (segment_tags (lwb_segments b)) t = 0" "t \<notin> set (completed_tickets (lwb_segments b))"
  using assms by (auto simp: batch_wf_def segment_tags_def completed_tickets_def count_list_0_iff)

lemma all_kept_counts:
  assumes "batch_wf b" "list_all id ok" "length ok = wb_len (lwb_records b)"
  shows "kept_count b ok t = count_list (segment_tags (lwb_segments b)) t" "dropped_count b ok t = 0"
proof -
  have "kept_rows (batch_rows b) ok = batch_rows b" using assms by (intro kept_rows_all) simp_all
  thus k: "kept_count b ok t = count_list (segment_tags (lwb_segments b)) t"
    using batch_rows_count[OF assms(1)] by (simp add: kept_count_def)
  show "dropped_count b ok t = 0"
    using counts_add[OF assms(3), of t] batch_rows_count[OF assms(1), of t] k by simp
qed

lemma batch_wf_ok: "batch_wf b \<Longrightarrow> batch_ok b"
  by (simp add: batch_ok_def)

lemma batch_ok_nonempty: "batch_ok b \<Longrightarrow> \<not> wb_is_empty (lwb_records b)"
  by (auto simp: batch_ok_def batch_wf_def)

lemma settle_ops_u64: "batch_ok b \<Longrightarrow> list_all op_u64 (settle_ops now b salvage)"
  unfolding settle_ops_def batch_ok_def batch_wf_def completed_tickets_def list_all_iff
  by (cases salvage) (auto split: if_splits)

text \<open>A batch without segments settles its tickets by their first mention.\<close>

lemma whole_fold:
  assumes "t \<in> set seqs" "tp_dropped p + d \<le> U64_MAX"
  shows "fold ticket_step (filter (\<lambda>op. op_ticket op = t)
           (concat (map (\<lambda>t. (if d > 0 then [NoteDropped t d] else []) @ [Complete now t]) seqs))) (Unsettled p) =
         verdict p 0 d True"
  using assms(1)
proof (induction seqs)
  case (Cons u seqs)
  show ?case
  proof (cases "u = t")
    case True
    have "fold ticket_step ((if d > 0 then [NoteDropped t d] else []) @ [Complete now t]) (Unsettled p) = verdict p 0 d True"
      using assms(2) by (cases p) (simp add: verdict_def bump_dropped_def saturating_add_exact)
    moreover have "\<not> unsettled (verdict p 0 d True)" by (simp add: verdict_def Let_def)
    ultimately show ?thesis using True ledger.settled_run_fixed by simp
  qed (use Cons in simp)
qed simp

lemma no_drops_without_salvage:
  assumes "list_all id ok" "length ok = length rows"
  shows "dropped_rows rows ok = []"
  using assms(2,1) by (induction ok rows rule: list_induct2) auto

lemma settle_segments_effect:
  assumes wf: "batch_wf b" and inv: "ledger_inv l" and rep: "reports b ok salvage"
    and t: "t \<noteq> 0" "state l t = Unsettled p"
    and bounds: "tp_committed p + kept_count b ok t \<le> U64_MAX" "tp_dropped p + dropped_count b ok t \<le> U64_MAX"
  shows "state (settle_log_batch now b salvage l) t =
           verdict p (kept_count b ok t) (dropped_count b ok t) (t \<in> set (completed_tickets (lwb_segments b)))"
proof -
  let ?ops = "settle_ops now b salvage"
  have segs: "lwb_segments b \<noteq> []" "well_segmented (lwb_segments b)" "distinct (lwb_commit_seqs b)"
    using wf by (simp_all add: batch_wf_def)
  have len: "length ok = wb_len (lwb_records b)" using rep by (simp add: reports_def)
  have st: "state (settle_log_batch now b salvage l) t =
      fold ticket_step (filter (\<lambda>op. op_ticket op = t) ?ops) (Unsettled p)"
    using ledger.st_run[OF inv settle_ops_u64[OF batch_wf_ok[OF wf]] t(1)] t(2)
    by (simp add: settle_log_batch_ops run_ops_def)
  show ?thesis
  proof (cases salvage)
    case None
    hence "list_all id ok" using rep by (simp add: reports_def)
    note c = all_kept_counts[OF wf this len, of t]
    show ?thesis using strict_fold[OF segs(2) _ t(1), of p now] bounds c None
      segs(1) unfolding st by (simp add: settle_ops_def)
  next
    case (Some out)
    hence bt: "by_ticket_of out t = (kept_count b ok t, dropped_count b ok t)" using rep t(1) by (simp add: reports_def)
    show ?thesis
    proof (cases "t \<in> set (lwb_commit_seqs b)")
      case True
      have "?ops = concat (map (\<lambda>t. (if fst (by_ticket_of out t) > 0 then [NoteCommitted t (fst (by_ticket_of out t))] else []) @
                (if snd (by_ticket_of out t) > 0 then [NoteDropped t (snd (by_ticket_of out t))] else [])) (lwb_commit_seqs b)) @
              map (Complete now) (completed_tickets (lwb_segments b))"
        using segs(1) by (simp add: Some settle_ops_def)
      thus ?thesis unfolding st by (simp only: salvage_fold[OF segs(3) True bt bounds])
    next
      case False
      note a = absent_ticket[OF wf False]
      have z: "kept_count b ok t = 0" "dropped_count b ok t = 0"
        using counts_add[OF len, of t] batch_rows_count[OF wf, of t] a(1) by simp_all
      have "op_ticket op \<noteq> t" if "op \<in> set ?ops" for op
        using that a(2) False segs(1) unfolding Some settle_ops_def by (auto split: if_splits)
      hence "filter (\<lambda>op. op_ticket op = t) ?ops = []" by (simp add: filter_empty_conv)
      thus ?thesis unfolding st using a(2) z by (cases p) (simp add: verdict_def)
    qed
  qed
qed

lemma settle_whole_effect:
  assumes segs: "lwb_segments b = []" and ok: "batch_ok b" and inv: "ledger_inv l" and rep: "reports b ok salvage"
    and t: "t \<noteq> 0" "state l t = Unsettled p" and bound: "tp_dropped p + noted_dropped b ok t \<le> U64_MAX"
  shows "state (settle_log_batch now b salvage l) t =
           verdict p 0 (noted_dropped b ok t) (t \<in> set (lwb_commit_seqs b))"
proof -
  let ?ops = "settle_ops now b salvage" and ?d = "length (dropped_rows (batch_rows b) ok)"
  have st: "state (settle_log_batch now b salvage l) t =
      fold ticket_step (filter (\<lambda>op. op_ticket op = t) ?ops) (Unsettled p)"
    using ledger.st_run[OF inv settle_ops_u64[OF ok] t(1)] t(2) by (simp add: settle_log_batch_ops run_ops_def)
  have "reported_dropped salvage = ?d"
    using rep no_drops_without_salvage[of ok "batch_rows b"] by (auto simp: reports_def split: option.splits)
  hence ops: "?ops = concat (map (\<lambda>t. (if ?d > 0 then [NoteDropped t ?d] else []) @ [Complete now t]) (lwb_commit_seqs b))"
    using segs by (simp only: settle_ops_def simp_thms if_True)
  show ?thesis
  proof (cases "t \<in> set (lwb_commit_seqs b)")
    case True
    hence nd: "noted_dropped b ok t = ?d" using segs by (simp add: noted_dropped_def)
    show ?thesis using whole_fold[OF True bound[unfolded nd], of now] True nd unfolding st ops by simp
  next
    case False
    hence "filter (\<lambda>op. op_ticket op = t) ?ops = []" unfolding ops by (auto simp: filter_empty_conv)
    thus ?thesis unfolding st using False segs by (cases p) (simp add: verdict_def noted_dropped_def)
  qed
qed

lemma settle_batch_effect:
  assumes ok: "batch_ok b" and inv: "ledger_inv l" and rep: "reports b ok salvage"
    and t: "t \<noteq> 0" "state l t = Unsettled p"
    and bounds: "tp_committed p + noted_kept b ok t \<le> U64_MAX" "tp_dropped p + noted_dropped b ok t \<le> U64_MAX"
  shows "state (settle_log_batch now b salvage l) t =
           verdict p (noted_kept b ok t) (noted_dropped b ok t) (t \<in> batch_settles b)"
proof (cases "lwb_segments b = []")
  case True
  thus ?thesis using settle_whole_effect[OF True ok inv rep t bounds(2)] by (simp add: noted_kept_def)
next
  case False
  hence wf: "batch_wf b" using ok by (simp add: batch_ok_def)
  show ?thesis using settle_segments_effect[OF wf inv rep t] bounds False by (simp add: noted_kept_def noted_dropped_def)
qed

lemma settle_batch_inv: "batch_ok b \<Longrightarrow> ledger_inv l \<Longrightarrow> ledger_inv (settle_log_batch now b salvage l)"
  by (simp add: settle_log_batch_ops run_ops_inv settle_ops_u64)

lemma settle_batch_other:
  assumes ok: "batch_ok b" and inv: "ledger_inv l" and "\<not> unsettled (state l t)" "t \<noteq> 0"
  shows "state (settle_log_batch now b salvage l) t = state l t"
  using ledger.settled_forever[OF inv settle_ops_u64[OF ok] assms(4,3)]
  by (simp add: settle_log_batch_ops run_ops_def)

section \<open>The effect of one batch on the database\<close>

abbreviation inserted_rows :: "codec \<Rightarrow> LogWriteBatch \<Rightarrow> bool list \<Rightarrow> sqlval list list" where
  "inserted_rows cd b ok \<equiv> map (\<lambda>(r, t). row_of (cd_sha256 cd) (cd_render cd) b r) (kept_rows (batch_rows b) ok)"

lemma run_transaction_db:
  assumes "sqlite_laws sq visible inside"
    and "run_transaction sq now (insert_logs sq (cd_sha256 cd) (cd_render cd) b) w s = (r, w', s')"
  shows "case r of Inl e \<Rightarrow> visible w' = visible w
         | Inr u \<Rightarrow> visible w' = visible w @ map (row_of (cd_sha256 cd) (cd_render cd) b) (wb_records (lwb_records b))"
proof -
  obtain r1 w1 where b: "sq_begin sq w = (r1, w1)" by fastforce
  obtain r2 w2 where i: "insert_logs sq (cd_sha256 cd) (cd_render cd) b w1 = (r2, w2)" by fastforce
  obtain r3 w3 where c: "sq_commit sq w2 = (r3, w3)" by fastforce
  note L = sqlite_lawsD[OF assms(1)]
  have "visible w2 = visible w" using L(1)[OF b] insert_logs_visible[OF assms(1) i] by simp
  thus ?thesis
    using assms(2) b i c L(1)[OF b] L(6)[of w2] L(7)[of w2] L(8) strict_insert_complete[OF assms(1), of _ _ b w1]
    by (auto simp: run_transaction_def split: sum.splits)
qed

lemma finish_salvage_db:
  assumes "sqlite_laws sq visible inside"
    and "finish_salvage sq now (insert_logs_tolerant sq (cd_sha256 cd) (cd_render cd) b) w s = (r, w', s')"
  shows "case r of Inl e \<Rightarrow> visible w' = visible w
         | Inr out \<Rightarrow> \<exists>ok. reports b ok (Some out) \<and> visible w' = visible w @ inserted_rows cd b ok"
proof -
  obtain r1 w1 where b: "sq_begin sq w = (r1, w1)" by fastforce
  obtain r2 w2 where i: "insert_logs_tolerant sq (cd_sha256 cd) (cd_render cd) b w1 = (r2, w2)" by fastforce
  obtain r3 w3 where c: "sq_commit sq w2 = (r3, w3)" by fastforce
  note L = sqlite_lawsD[OF assms(1)]
  have vis: "visible w2 = visible w"
    using L(1)[OF b] insert_logs_inner_visible[OF assms(1)] i by (auto simp: insert_logs_tolerant_def)
  show ?thesis
  proof (cases r)
    case (Inl e)
    thus ?thesis using assms(2) b i c vis L(1)[OF b] L(7)[of w2] L(8)
      by (auto simp: finish_salvage_def split: sum.splits)
  next
    case (Inr out)
    hence eq: "r2 = Inr out" "visible w' = inside w2"
      using assms(2) b i c L(6)[of w2] by (auto simp: finish_salvage_def split: sum.splits)
    obtain ok where "length ok = wb_len (lwb_records b)" "inside w2 = inside w1 @ inserted_rows cd b ok"
      "so_kept out = length (kept_rows (batch_rows b) ok)" "so_dropped out = length (dropped_rows (batch_rows b) ok)"
      "\<forall>t. t \<noteq> 0 \<longrightarrow> by_ticket_of out t = (kept_count b ok t, dropped_count b ok t)"
      using tolerant_insert_accounts[OF assms(1) i[unfolded eq(1)]] unfolding kept_count_def dropped_count_def by blast
    thus ?thesis using Inr eq(2) L(1)[OF b] by (auto simp: reports_def)
  qed
qed

lemma persist_loop_cases:
  assumes "persist_loop sq now strict salvage attempt w s = (r, w', s', delays)"
  obtains (committed) u where "run_transaction sq now strict w s = (Inr u, w', s')" "r = Inr None" "delays = []"
  | (salvaged) e w1 s1 fr where "run_transaction sq now strict w s = (Inl (e, Poison), w1, s1)"
      "finish_salvage sq now salvage w1 s1 = (fr, w', s')" "r = map_sum id Some fr" "delays = []"
  | (retry) e w1 s1 ds where "run_transaction sq now strict w s = (Inl (e, Retryable), w1, s1)"
      "attempt < MAX_TRANSIENT_RETRIES" "delays = backoff_delay attempt # ds"
      "persist_loop sq now strict salvage (attempt + 1) w1
         (s1\<lparr>ws_transient_retries := wrapping_add (ws_transient_retries s1) 1\<rparr>) = (r, w', s', ds)"
  | (halted) e c where "run_transaction sq now strict w s = (Inl (e, c), w', s')" "r = Inl e" "delays = []"
proof -
  obtain t w1 s1 where t: "run_transaction sq now strict w s = (t, w1, s1)" by (rule prod_cases3)
  note run = assms[unfolded persist_loop.simps[of sq now strict salvage attempt w s]] t
  show thesis
  proof (cases t)
    case (Inr u)
    thus thesis using run by (intro committed[of u]) auto
  next
    case (Inl ec)
    then obtain e c where ec: "t = Inl (e, c)" by (cases ec) auto
    show thesis
    proof (cases c)
      case Retryable
      thus thesis
        using run ec by (cases "attempt < MAX_TRANSIENT_RETRIES") (auto split: prod.splits intro: retry halted)
    next
      case Poison
      obtain fr w2 s2 where f: "finish_salvage sq now salvage w1 s1 = (fr, w2, s2)" by (rule prod_cases3)
      thus thesis using run ec Poison by (intro salvaged[of e w1 s1 fr]) (auto split: sum.splits)
    next
      case FatalFailure
      thus thesis using run ec by (intro halted[of e c]) auto
    qed
  qed
qed

lemma persist_loop_db:
  assumes laws: "sqlite_laws sq visible inside"
    and "persist_loop sq now (insert_logs sq (cd_sha256 cd) (cd_render cd) b)
           (insert_logs_tolerant sq (cd_sha256 cd) (cd_render cd) b) attempt w s = (r, w', s', delays)"
  shows "case r of Inl e \<Rightarrow> visible w' = visible w
         | Inr salvage \<Rightarrow> \<exists>ok. reports b ok salvage \<and> visible w' = visible w @ inserted_rows cd b ok"
  using assms(2)
proof (induction "MAX_TRANSIENT_RETRIES - attempt" arbitrary: attempt w s delays rule: less_induct)
  case less
  note db = run_transaction_db[OF laws]
  from less.prems show ?case
  proof (cases rule: persist_loop_cases)
    case (committed u)
    let ?ok = "replicate (wb_len (lwb_records b)) True"
    have "kept_rows (batch_rows b) ?ok = batch_rows b" by (intro kept_rows_all) (simp_all add: list_all_iff)
    hence "inserted_rows cd b ?ok = map (row_of (cd_sha256 cd) (cd_render cd) b) (wb_records (lwb_records b))"
      by (simp add: map_batch_rows)
    moreover have "reports b ?ok None" by (simp add: reports_def list_all_iff)
    ultimately show ?thesis using db[OF committed(1)] committed(2) by fastforce
  next
    case (salvaged e w1 s1 fr)
    have "visible w1 = visible w" using db[OF salvaged(1)] by simp
    thus ?thesis using finish_salvage_db[OF laws salvaged(2)] salvaged(3) by (cases fr) auto
  next
    case (retry e w1 s1 ds)
    have "visible w1 = visible w" using db[OF retry(1)] by simp
    thus ?thesis using less.hyps[OF _ retry(4)] retry(2) by (auto split: sum.splits)
  next
    case (halted e c)
    thus ?thesis using db[OF halted(1)] by simp
  qed
qed

lemma persist_loop_delays:
  assumes "persist_loop sq now strict salvage attempt w s = (r, w', s', delays)" "attempt \<le> MAX_TRANSIENT_RETRIES"
  shows "\<exists>n. attempt + n \<le> MAX_TRANSIENT_RETRIES \<and> delays = map backoff_delay [attempt..<attempt + n]"
  using assms
proof (induction "MAX_TRANSIENT_RETRIES - attempt" arbitrary: attempt w s delays rule: less_induct)
  case less
  from less.prems(1) show ?case
  proof (cases rule: persist_loop_cases)
    case (retry e w1 s1 ds)
    have "MAX_TRANSIENT_RETRIES - (attempt + 1) < MAX_TRANSIENT_RETRIES - attempt" "attempt + 1 \<le> MAX_TRANSIENT_RETRIES"
      using retry(2) by simp_all
    from less.hyps[OF this(1) retry(4) this(2)] obtain n where
      "attempt + 1 + n \<le> MAX_TRANSIENT_RETRIES" "ds = map backoff_delay [attempt + 1..<attempt + 1 + n]" by blast
    thus ?thesis using retry(3) by (intro exI[of _ "Suc n"]) (simp add: upt_conv_Cons del: upt_Suc)
  qed (use less.prems(2) in \<open>auto intro: exI[of _ 0]\<close>)
qed

text \<open>One insert command: either nothing happened, or the rows are in and the ledger says so.\<close>

definition insert_effect ::
  "('w \<Rightarrow> sqlval list list) \<Rightarrow> codec \<Rightarrow> u64 \<Rightarrow> LogWriteBatch \<Rightarrow> 'w Writer \<Rightarrow> bool list \<Rightarrow> 'w Writer \<Rightarrow> bool" where
  "insert_effect visible cd now b wr ok wr' \<longleftrightarrow>
     (\<exists>salvage. reports b ok salvage \<and> visible (wr_world wr') = visible (wr_world wr) @ inserted_rows cd b ok \<and>
        wr_ledger wr' = settle_log_batch now b salvage (wr_ledger wr))"

lemma execute_insert_effect:
  assumes "sqlite_laws sq visible inside" "\<not> wb_is_empty (lwb_records b)" "execute_insert sq cd now b wr = (r, wr')"
  shows "(\<exists>e. r = Inl e \<and> visible (wr_world wr') = visible (wr_world wr) \<and> wr_ledger wr' = wr_ledger wr) \<or>
         (r = Inr () \<and> (\<exists>ok. insert_effect visible cd now b wr ok wr'))"
proof -
  let ?s0 = "(wr_stats wr)\<lparr>ws_batches_received := wrapping_add (ws_batches_received (wr_stats wr)) 1\<rparr>"
  obtain pr w1 s1 ds where p: "persist_with_policy sq now (insert_logs sq (cd_sha256 cd) (cd_render cd) b)
      (insert_logs_tolerant sq (cd_sha256 cd) (cd_render cd) b) (wr_world wr) ?s0 = (pr, w1, s1, ds)"
    by (rule prod_cases4)
  note db = persist_loop_db[OF assms(1) p[unfolded persist_with_policy_def]]
  show ?thesis
  proof (cases pr)
    case (Inl e)
    thus ?thesis using assms(3) p db assms(2) by (auto simp: execute_insert_def Let_def)
  next
    case (Inr salvage)
    hence "wr' = wr\<lparr>wr_world := w1, wr_stats := s1, wr_ledger := settle_log_batch now b salvage (wr_ledger wr)\<rparr>" "r = Inr ()"
      using assms(3) p assms(2) by (simp_all add: execute_insert_def Let_def)
    moreover obtain ok where "reports b ok salvage" "visible w1 = visible (wr_world wr) @ inserted_rows cd b ok"
      using db Inr by auto
    ultimately have "insert_effect visible cd now b wr ok wr'" unfolding insert_effect_def by (intro exI[of _ salvage]) simp
    thus ?thesis using \<open>r = Inr ()\<close> by blast
  qed
qed

section \<open>A stream of commands\<close>

fun insert_batches :: "command_event list \<Rightarrow> LogWriteBatch list" where
  "insert_batches [] = []"
| "insert_batches (ev # evs) = (case ce_command ev of InsertLogs b \<Rightarrow> [b] | _ \<Rightarrow> []) @ insert_batches evs"

abbreviation batch_completes :: "LogWriteBatch \<Rightarrow> u64 set" where
  "batch_completes b \<equiv> set (completed_tickets (lwb_segments b))"

text \<open>A ticket does not appear after the batch that completes it.\<close>

fun stream_wf :: "LogWriteBatch list \<Rightarrow> bool" where
  "stream_wf [] = True"
| "stream_wf (b # bs) \<longleftrightarrow>
     batch_wf b \<and> (\<forall>t \<in> batch_completes b. \<forall>b' \<in> set bs. t \<notin> set (lwb_commit_seqs b')) \<and> stream_wf bs"

fun deletes_rows :: "WriteCommand \<Rightarrow> bool" where
  "deletes_rows (Maintenance (Prune (Some d))) = True"
| "deletes_rows _ = False"

definition total_kept :: "LogWriteBatch list \<Rightarrow> bool list list \<Rightarrow> u64 \<Rightarrow> nat" where
  "total_kept bs oks t = sum_list (map2 (\<lambda>b ok. kept_count b ok t) bs oks)"

definition total_dropped :: "LogWriteBatch list \<Rightarrow> bool list list \<Rightarrow> u64 \<Rightarrow> nat" where
  "total_dropped bs oks t = sum_list (map2 (\<lambda>b ok. dropped_count b ok t) bs oks)"

definition total_records :: "LogWriteBatch list \<Rightarrow> nat" where
  "total_records bs = sum_list (map (\<lambda>b. wb_len (lwb_records b)) bs)"

abbreviation stream_rows :: "codec \<Rightarrow> LogWriteBatch list \<Rightarrow> bool list list \<Rightarrow> sqlval list list" where
  "stream_rows cd bs oks \<equiv> concat (map2 (inserted_rows cd) bs oks)"

definition oks_for :: "LogWriteBatch list \<Rightarrow> bool list list \<Rightarrow> bool" where
  "oks_for bs oks \<longleftrightarrow> length oks \<le> length bs \<and>
     list_all2 (\<lambda>b ok. length ok = wb_len (lwb_records b)) (take (length oks) bs) oks"

lemma totals_Nil [simp]:
  "total_kept bs [] t = 0" "total_dropped bs [] t = 0" "oks_for bs []"
  by (simp_all add: total_kept_def total_dropped_def oks_for_def)

lemma totals_Cons [simp]:
  "total_kept (b # bs) (ok # oks) t = kept_count b ok t + total_kept bs oks t"
  "total_dropped (b # bs) (ok # oks) t = dropped_count b ok t + total_dropped bs oks t"
  "total_records (b # bs) = wb_len (lwb_records b) + total_records bs"
  "oks_for (b # bs) (ok # oks) \<longleftrightarrow> length ok = wb_len (lwb_records b) \<and> oks_for bs oks"
  by (auto simp: total_kept_def total_dropped_def total_records_def oks_for_def)

lemma count_le_records:
  assumes "length ok = wb_len (lwb_records b)"
  shows "kept_count b ok t \<le> wb_len (lwb_records b)" "dropped_count b ok t \<le> wb_len (lwb_records b)"
proof -
  have "kept_count b ok t + dropped_count b ok t \<le> length (batch_rows b)"
    unfolding counts_add[OF assms] by (rule length_filter_le)
  thus "kept_count b ok t \<le> wb_len (lwb_records b)" "dropped_count b ok t \<le> wb_len (lwb_records b)" by simp_all
qed

lemma totals_absent:
  assumes "stream_wf bs" "\<forall>b \<in> set bs. t \<notin> set (lwb_commit_seqs b)" "oks_for bs oks"
  shows "total_kept bs oks t = 0 \<and> total_dropped bs oks t = 0"
  using assms
proof (induction bs arbitrary: oks)
  case (Cons b bs)
  show ?case
  proof (cases oks)
    case (Cons ok oks')
    note a = Cons.prems[unfolded Cons]
    have "count_list (segment_tags (lwb_segments b)) t = 0" using absent_ticket(1) a by simp
    hence "kept_count b ok t + dropped_count b ok t = 0"
      using counts_add[of ok b t] batch_rows_count[of b t] a by simp
    thus ?thesis using Cons.IH[of oks'] a by (simp add: Cons)
  qed simp
qed (simp add: total_kept_def total_dropped_def)

text \<open>The batches that count for a ticket: those up to the first that settles it.  A settled ticket
  ignores what comes later.\<close>

fun up_to_settled :: "u64 \<Rightarrow> LogWriteBatch list \<Rightarrow> LogWriteBatch list" where
  "up_to_settled t [] = []"
| "up_to_settled t (b # bs) = b # (if t \<in> batch_settles b then [] else up_to_settled t bs)"

definition noted_progress :: "LogWriteBatch list \<Rightarrow> bool list list \<Rightarrow> u64 \<Rightarrow> TicketProgress" where
  "noted_progress bs oks t =
     \<lparr>tp_committed = sum_list (map2 (\<lambda>b ok. noted_kept b ok t) bs oks),
      tp_dropped = sum_list (map2 (\<lambda>b ok. noted_dropped b ok t) bs oks)\<rparr>"

lemma noted_progress_simps [simp]:
  "noted_progress bs [] t = \<lparr>tp_committed = 0, tp_dropped = 0\<rparr>"
  "noted_progress [] oks t = \<lparr>tp_committed = 0, tp_dropped = 0\<rparr>"
  "noted_progress (b # bs) (ok # oks) t =
     \<lparr>tp_committed = noted_kept b ok t + tp_committed (noted_progress bs oks t),
      tp_dropped = noted_dropped b ok t + tp_dropped (noted_progress bs oks t)\<rparr>"
  by (simp_all add: noted_progress_def)

text \<open>The claim of a run: which rows are in, and the verdict of each ticket.\<close>

definition run_verdicts ::
  "('w \<Rightarrow> sqlval list list) \<Rightarrow> codec \<Rightarrow> LogWriteBatch list \<Rightarrow> 'w Writer \<Rightarrow> bool list list \<Rightarrow> 'w Writer \<Rightarrow> bool" where
  "run_verdicts visible cd bs wr oks wr' \<longleftrightarrow>
     oks_for bs oks \<and>
     visible (wr_world wr') = visible (wr_world wr) @ stream_rows cd bs oks \<and>
     ledger_inv (wr_ledger wr') \<and>
     (\<forall>t. t \<noteq> 0 \<longrightarrow> \<not> unsettled (state (wr_ledger wr) t) \<longrightarrow> state (wr_ledger wr') t = state (wr_ledger wr) t) \<and>
     (\<forall>t p. t \<noteq> 0 \<longrightarrow> state (wr_ledger wr) t = Unsettled p \<longrightarrow>
        tp_committed p + total_records bs \<le> U64_MAX \<longrightarrow> tp_dropped p + total_records bs \<le> U64_MAX \<longrightarrow>
        (let q = noted_progress (up_to_settled t bs) oks t
         in state (wr_ledger wr') t =
              verdict p (tp_committed q) (tp_dropped q) (\<exists>b \<in> set (take (length oks) bs). t \<in> batch_settles b)))"

lemma run_verdicts_refl:
  assumes "ledger_inv (wr_ledger wr)" "visible (wr_world wr') = visible (wr_world wr)" "wr_ledger wr' = wr_ledger wr"
  shows "run_verdicts visible cd bs wr [] wr'"
  using assms by (auto simp: run_verdicts_def verdict_def)

lemma run_verdicts_same:
  assumes "visible (wr_world wr1) = visible (wr_world wr)" "wr_ledger wr1 = wr_ledger wr"
  shows "run_verdicts visible cd bs wr1 oks wr' = run_verdicts visible cd bs wr oks wr'"
  using assms by (simp add: run_verdicts_def)

lemma noted_le_records:
  assumes "length ok = wb_len (lwb_records b)"
  shows "noted_kept b ok t \<le> wb_len (lwb_records b)" "noted_dropped b ok t \<le> wb_len (lwb_records b)"
proof -
  have "length (dropped_rows (batch_rows b) ok) \<le> wb_len (lwb_records b)"
    using length_kept_rows(3)[of ok "batch_rows b"] assms by simp
  thus "noted_kept b ok t \<le> wb_len (lwb_records b)" "noted_dropped b ok t \<le> wb_len (lwb_records b)"
    using count_le_records[OF assms, of t] by (simp_all add: noted_kept_def noted_dropped_def)
qed

lemma run_verdicts_Cons:
  assumes inv: "ledger_inv (wr_ledger wr)" and bok: "batch_ok b"
    and ins: "insert_effect visible cd now b wr ok wr1" and rest: "run_verdicts visible cd bs wr1 oks wr'"
  shows "run_verdicts visible cd (b # bs) wr (ok # oks) wr'"
proof -
  obtain salvage where ins: "reports b ok salvage" "visible (wr_world wr1) = visible (wr_world wr) @ inserted_rows cd b ok"
    "wr_ledger wr1 = settle_log_batch now b salvage (wr_ledger wr)"
    using ins unfolding insert_effect_def by blast
  have len: "length ok = wb_len (lwb_records b)" using ins(1) by (simp add: reports_def)
  have keep: "state (wr_ledger wr') t = state (wr_ledger wr1) t" if "t \<noteq> 0" "\<not> unsettled (state (wr_ledger wr1) t)" for t
    using rest that unfolding run_verdicts_def by blast
  have keep1: "state (wr_ledger wr1) t = state (wr_ledger wr) t" if "t \<noteq> 0" "\<not> unsettled (state (wr_ledger wr) t)" for t
    using settle_batch_other[OF bok inv that(2,1)] ins(3) by simp
  have "state (wr_ledger wr') t =
          (let q = noted_progress (up_to_settled t (b # bs)) (ok # oks) t
           in verdict p (tp_committed q) (tp_dropped q) (\<exists>b' \<in> set (take (length (ok # oks)) (b # bs)). t \<in> batch_settles b'))"
    if t: "t \<noteq> 0" "state (wr_ledger wr) t = Unsettled p"
      and bounds: "tp_committed p + total_records (b # bs) \<le> U64_MAX" "tp_dropped p + total_records (b # bs) \<le> U64_MAX" for t p
  proof -
    let ?k = "noted_kept b ok t" and ?d = "noted_dropped b ok t"
    let ?p = "\<lparr>tp_committed = tp_committed p + ?k, tp_dropped = tp_dropped p + ?d\<rparr>"
    note le = noted_le_records[OF len, of t]
    have one: "state (wr_ledger wr1) t = verdict p ?k ?d (t \<in> batch_settles b)"
      unfolding ins(3) using bounds le by (intro settle_batch_effect[OF bok inv ins(1) t]) simp_all
    show ?thesis
    proof (cases "t \<in> batch_settles b")
      case True
      moreover have "\<not> unsettled (state (wr_ledger wr1) t)" using one True by (simp add: verdict_def Let_def)
      ultimately show ?thesis using keep[OF t(1)] one by (simp add: Let_def)
    next
      case False
      hence "state (wr_ledger wr1) t = Unsettled ?p" using one by (simp add: verdict_def)
      moreover have "tp_committed ?p + total_records bs \<le> U64_MAX" "tp_dropped ?p + total_records bs \<le> U64_MAX"
        using bounds le by simp_all
      ultimately have "let q = noted_progress (up_to_settled t bs) oks t
         in state (wr_ledger wr') t =
              verdict ?p (tp_committed q) (tp_dropped q) (\<exists>b \<in> set (take (length oks) bs). t \<in> batch_settles b)"
        using rest t(1) unfolding run_verdicts_def by blast
      thus ?thesis using False by (simp add: verdict_def add.assoc Let_def)
    qed
  qed
  thus ?thesis using rest ins(2) len keep keep1 unfolding run_verdicts_def by (auto simp: Let_def)
qed

text \<open>On a stream in which every batch has segments and no ticket recurs, every batch counts.\<close>

definition run_effect ::
  "('w \<Rightarrow> sqlval list list) \<Rightarrow> codec \<Rightarrow> LogWriteBatch list \<Rightarrow> 'w Writer \<Rightarrow> bool list list \<Rightarrow> 'w Writer \<Rightarrow> bool" where
  "run_effect visible cd bs wr oks wr' \<longleftrightarrow>
     oks_for bs oks \<and>
     visible (wr_world wr') = visible (wr_world wr) @ stream_rows cd bs oks \<and>
     ledger_inv (wr_ledger wr') \<and>
     (\<forall>t. t \<noteq> 0 \<longrightarrow> \<not> unsettled (state (wr_ledger wr) t) \<longrightarrow> state (wr_ledger wr') t = state (wr_ledger wr) t) \<and>
     (\<forall>t p. t \<noteq> 0 \<longrightarrow> state (wr_ledger wr) t = Unsettled p \<longrightarrow>
        tp_committed p + total_records bs \<le> U64_MAX \<longrightarrow> tp_dropped p + total_records bs \<le> U64_MAX \<longrightarrow>
        state (wr_ledger wr') t =
          verdict p (total_kept bs oks t) (total_dropped bs oks t)
            (\<exists>b \<in> set (take (length oks) bs). t \<in> batch_completes b))"

lemma stream_wf_batches: "stream_wf bs \<Longrightarrow> b \<in> set bs \<Longrightarrow> batch_wf b"
  by (induction bs) auto

lemma noted_progress_wf:
  assumes "stream_wf bs" "oks_for bs oks"
  shows "noted_progress (up_to_settled t bs) oks t = \<lparr>tp_committed = total_kept bs oks t, tp_dropped = total_dropped bs oks t\<rparr>"
  using assms
proof (induction bs arbitrary: oks)
  case (Cons b bs)
  show ?case
  proof (cases oks)
    case oks: (Cons ok oks')
    have wf: "batch_wf b" "lwb_segments b \<noteq> []" using Cons.prems(1) by (auto simp: batch_wf_def)
    hence n: "noted_kept b ok t = kept_count b ok t" "noted_dropped b ok t = dropped_count b ok t"
      by (simp_all add: noted_kept_def noted_dropped_def)
    have "total_kept bs oks' t = 0 \<and> total_dropped bs oks' t = 0" if "t \<in> batch_completes b"
      using totals_absent[of bs t oks'] that Cons.prems oks by simp
    thus ?thesis using Cons wf(2) n oks by auto
  qed simp
qed (simp add: total_kept_def total_dropped_def)

lemma run_verdicts_wf:
  assumes "stream_wf bs" "run_verdicts visible cd bs wr oks wr'"
  shows "run_effect visible cd bs wr oks wr'"
proof -
  have "batch_settles b = batch_completes b" if "b \<in> set bs" for b
    using stream_wf_batches[OF assms(1) that] by (simp add: batch_wf_def)
  hence "(\<exists>b \<in> set (take (length oks) bs). t \<in> batch_settles b) \<longleftrightarrow> (\<exists>b \<in> set (take (length oks) bs). t \<in> batch_completes b)" for t
    by (metis in_set_takeD)
  moreover have "oks_for bs oks" using assms(2) by (simp add: run_verdicts_def)
  ultimately show ?thesis
    using assms(2) noted_progress_wf[OF assms(1)] unfolding run_verdicts_def run_effect_def by (simp add: Let_def)
qed

lemma maintain_returns:
  assumes "db_laws sq visible inside"
  shows "maintain sq now op w \<noteq> None"
proof (cases "\<exists>window. op = Prune (Some window)")
  case True
  have "\<exists>x. prune_loop sq c 0 w = Some x" for c
    using prune_loop_correct[OF assms, of c 0 w] by blast
  thus ?thesis using True by (auto simp: prune_def simp del: split_paired_Ex)
next
  case False
  thus ?thesis by (cases "(sq, now, op, w)" rule: maintain.cases) auto
qed

lemma execute_returns:
  assumes "db_laws sq visible inside"
  shows "execute sq cd now ns cmd backlog wr \<noteq> None"
proof (cases cmd)
  case (Maintenance op)
  thus ?thesis using maintain_returns[OF assms] by (simp add: run_maintenance_def Let_def)
qed (auto simp: Let_def split: prod.splits sum.splits)

lemma maintain_keeps:
  assumes "db_laws sq visible inside" "\<not> deletes_rows (Maintenance op)" "maintain sq now op w = Some (r, w')"
  shows "visible w' = visible w"
proof -
  have "keeps_visible visible (io_bind m (\<lambda>_. io_return True))" if "keeps_visible visible m" for m :: "('a, 'b) io"
    using that by (intro keeps_visible_bind) simp_all
  note k = keeps_visibleD[OF this]
  show ?thesis
    using assms(2,3)
  proof (cases "(sq, now, op, w)" rule: maintain.cases)
    case 1
    thus ?thesis using assms(3) k[OF keeps_maintenance(4)[OF assms(1)]] by simp
  next
    case 2
    thus ?thesis using assms(3) k[OF vacuum_keeps(1)[OF assms(1)]] by simp
  next
    case (3 sq now w)
    have "keeps_visible visible (io_bind (rebuild_fts sq) (\<lambda>_. io_return True))"
      using rebuild_fts_keeps[of sq] assms(1) 3 by (intro keeps_visible_bind) simp_all
    thus ?thesis using assms(3) 3 by (auto dest: keeps_visibleD)
  qed (use assms in auto)
qed

lemma execute_other:
  assumes "db_laws sq visible inside" "\<not> deletes_rows cmd" "\<And>b. cmd \<noteq> InsertLogs b"
    and "execute sq cd now ns cmd backlog wr = Some (r, wr')"
  shows "visible (wr_world wr') = visible (wr_world wr)" "wr_ledger wr' = wr_ledger wr"
proof -
  have "visible (wr_world wr') = visible (wr_world wr) \<and> wr_ledger wr' = wr_ledger wr"
  proof (cases cmd)
    case (Checkpoint m)
    thus ?thesis using assms(4) keeps_visibleD[OF keeps_maintenance(1)[OF assms(1)]]
      by (auto simp: Let_def split: prod.splits sum.splits)
  next
    case (Maintenance op)
    then obtain mr w1 where mr: "run_maintenance sq ns op backlog (wr_world wr) = Some (mr, w1)"
      using assms(4) by (auto simp: Let_def)
    moreover have "wr_world wr' = w1 \<and> wr_ledger wr' = wr_ledger wr"
      using assms(4) mr Maintenance by (cases mr) (auto simp: Let_def)
    moreover have "visible w1 = visible (wr_world wr)"
      using calculation(1) maintain_keeps[OF assms(1)] assms(2) Maintenance
      by (auto simp: run_maintenance_def split: if_splits)
    ultimately show ?thesis by simp
  qed (use assms(3,4) in auto)
  thus "visible (wr_world wr') = visible (wr_world wr)" "wr_ledger wr' = wr_ledger wr" by simp_all
qed

lemma on_stats_same [simp]: "wr_world (on_stats f wr) = wr_world wr" "wr_ledger (on_stats f wr) = wr_ledger wr"
  by (simp_all add: on_stats_def)

lemma command_loop_Cons_cases:
  assumes "command_loop sq cd None fault n (ev # evs) wr = Some (r, wr')"
  obtains (stopped) res wr1 wr2 where "wr_world wr1 = wr_world wr" "wr_ledger wr1 = wr_ledger wr"
      "execute sq cd (ce_now_ms ev) (ce_now_ns ev) (ce_command ev) (ce_backlog ev) wr1 = Some (res, wr2)"
      "\<exists>e. r = Inl e" "wr_world wr' = wr_world wr2" "wr_ledger wr' = wr_ledger wr2"
  | (continued) wr1 wr2 wr3 n' where "wr_world wr1 = wr_world wr" "wr_ledger wr1 = wr_ledger wr"
      "execute sq cd (ce_now_ms ev) (ce_now_ns ev) (ce_command ev) (ce_backlog ev) wr1 = Some (Inr (), wr2)"
      "wr_world wr3 = wr_world wr2" "wr_ledger wr3 = wr_ledger wr2"
      "command_loop sq cd None fault n' evs wr3 = Some (r, wr')"
proof -
  let ?wr1 = "on_stats (begin_command (ce_backlog ev)) (on_stats (\<lambda>s. s\<lparr>ws_queue_depth := ce_depth ev\<rparr>) wr)"
  obtain res wr2 where x: "execute sq cd (ce_now_ms ev) (ce_now_ns ev) (ce_command ev) (ce_backlog ev) ?wr1 = Some (res, wr2)"
    using assms by (auto simp: Let_def quota_step_def split: option.splits)
  show thesis
  proof (cases "(\<exists>e. res = Inl e) \<or> (case fault of Some limit \<Rightarrow> wrapping_add n 1 \<ge> limit | None \<Rightarrow> False)")
    case True
    thus thesis using assms x
      by (intro stopped[of ?wr1 res wr2]) (auto simp: Let_def quota_step_def split: sum.splits option.splits if_splits)
  next
    case False
    thus thesis using assms x
      by (intro continued[of ?wr1 wr2 "on_stats drop_in_flight wr2" "wrapping_add n 1"])
        (auto simp: Let_def quota_step_def split: sum.splits option.splits if_splits)
  qed
qed

lemma command_loop_verdicts:
  assumes laws: "db_laws sq visible inside"
    and "command_loop sq cd None fault n evs wr = Some (r, wr')"
    and "ledger_inv (wr_ledger wr)" "list_all batch_ok (insert_batches evs)" "list_all (\<lambda>ev. \<not> deletes_rows (ce_command ev)) evs"
  shows "\<exists>oks. run_verdicts visible cd (insert_batches evs) wr oks wr' \<and>
           (r = Inr () \<longrightarrow> length oks = length (insert_batches evs))"
  using assms(2-)
proof (induction evs arbitrary: n wr)
  case Nil
  thus ?case by (intro exI[of _ "[]"]) (auto intro: run_verdicts_refl)
next
  case (Cons ev evs)
  note sl = db_lawsD(1)[OF laws]
  from Cons.prems(1) show ?case
  proof (cases rule: command_loop_Cons_cases)
    case (stopped res wr1 wr2)
    show ?thesis
    proof (cases "\<exists>b. ce_command ev = InsertLogs b")
      case True
      then obtain b where b: "ce_command ev = InsertLogs b" by blast
      have bok: "batch_ok b" using Cons.prems(3) b by simp
      have x: "execute_insert sq cd (ce_now_ms ev) b wr1 = (res, wr2)" using stopped(3) b by simp
      from execute_insert_effect[OF sl batch_ok_nonempty[OF bok] x] show ?thesis
      proof
        assume "\<exists>e. res = Inl e \<and> visible (wr_world wr2) = visible (wr_world wr1) \<and> wr_ledger wr2 = wr_ledger wr1"
        thus ?thesis using stopped Cons.prems(2) by (intro exI[of _ "[]"]) (auto intro!: run_verdicts_refl)
      next
        assume "res = Inr () \<and> (\<exists>ok. insert_effect visible cd (ce_now_ms ev) b wr1 ok wr2)"
        then obtain ok where "insert_effect visible cd (ce_now_ms ev) b wr ok wr'"
          using stopped(1,2,5,6) unfolding insert_effect_def by auto
        moreover from this have "ledger_inv (wr_ledger wr')"
          using settle_batch_inv[OF bok Cons.prems(2)] unfolding insert_effect_def by auto
        ultimately have "run_verdicts visible cd (b # insert_batches evs) wr [ok] wr'"
          by (intro run_verdicts_Cons[OF Cons.prems(2) bok] run_verdicts_refl) simp_all
        thus ?thesis using b stopped(4) by (intro exI[of _ "[ok]"]) auto
      qed
    next
      case False
      hence "\<And>b. ce_command ev \<noteq> InsertLogs b" by blast
      from execute_other[OF laws _ this stopped(3)] show ?thesis
        using stopped Cons.prems(2,4) by (intro exI[of _ "[]"]) (auto intro!: run_verdicts_refl)
    qed
  next
    case (continued wr1 wr2 wr3 n')
    show ?thesis
    proof (cases "\<exists>b. ce_command ev = InsertLogs b")
      case True
      then obtain b where b: "ce_command ev = InsertLogs b" by blast
      have bok: "batch_ok b" using Cons.prems(3) b by simp
      have x: "execute_insert sq cd (ce_now_ms ev) b wr1 = (Inr (), wr2)" using continued(3) b by simp
      obtain ok where ok: "insert_effect visible cd (ce_now_ms ev) b wr ok wr3"
        using execute_insert_effect[OF sl batch_ok_nonempty[OF bok] x] continued(1,2,4,5) unfolding insert_effect_def by auto
      have "ledger_inv (wr_ledger wr3)"
        using ok settle_batch_inv[OF bok Cons.prems(2)] unfolding insert_effect_def by auto
      from Cons.IH[OF continued(6) this] b Cons.prems(3,4) obtain oks where
        "run_verdicts visible cd (insert_batches evs) wr3 oks wr'" "r = Inr () \<longrightarrow> length oks = length (insert_batches evs)"
        by auto
      thus ?thesis using run_verdicts_Cons[OF Cons.prems(2) bok ok] b by (intro exI[of _ "ok # oks"]) simp
    next
      case False
      hence nb: "\<And>b. ce_command ev \<noteq> InsertLogs b" by blast
      hence ib: "insert_batches (ev # evs) = insert_batches evs" by (cases "ce_command ev") auto
      have same: "visible (wr_world wr3) = visible (wr_world wr)" "wr_ledger wr3 = wr_ledger wr"
        using execute_other[OF laws _ nb continued(3)] Cons.prems(4) continued(1,2,4,5) by simp_all
      have "ledger_inv (wr_ledger wr3)" using same(2) Cons.prems(2) by simp
      from Cons.IH[OF continued(6) this] Cons.prems(3,4) obtain oks where
        "run_verdicts visible cd (insert_batches evs) wr3 oks wr'" "r = Inr () \<longrightarrow> length oks = length (insert_batches evs)"
        unfolding ib by auto
      thus ?thesis unfolding ib run_verdicts_same[OF same] by blast
    qed
  qed
qed

lemma command_loop_effect:
  assumes "db_laws sq visible inside" "command_loop sq cd None fault n evs wr = Some (r, wr')"
    and "ledger_inv (wr_ledger wr)" "stream_wf (insert_batches evs)" "list_all (\<lambda>ev. \<not> deletes_rows (ce_command ev)) evs"
  shows "\<exists>oks. run_effect visible cd (insert_batches evs) wr oks wr' \<and>
           (r = Inr () \<longrightarrow> length oks = length (insert_batches evs))"
proof -
  have "list_all batch_ok (insert_batches evs)"
    using stream_wf_batches[OF assms(4)] by (auto simp: list_all_iff intro: batch_wf_ok)
  from command_loop_verdicts[OF assms(1-3) this assms(5)] show ?thesis using run_verdicts_wf[OF assms(4)] by blast
qed

section \<open>Every exit\<close>

lemma command_loop_returns:
  assumes "db_laws sq visible inside"
  shows "command_loop sq cd quota fault n evs wr \<noteq> None"
proof (induction evs arbitrary: n wr)
  case (Cons ev evs)
  have "\<exists>x. execute sq cd (ce_now_ms ev) (ce_now_ns ev) (ce_command ev) (ce_backlog ev) wr1 = Some x" for wr1
    using execute_returns[OF assms] by blast
  thus ?case using Cons.IH by (simp add: Let_def split: option.split sum.split)
qed simp

lemma command_loop_in_flight:
  "command_loop sq cd quota fault n evs wr = Some (r, wr') \<Longrightarrow> ws_in_flight (wr_stats wr) = 0 \<Longrightarrow>
   ws_in_flight (wr_stats wr') = 0"
proof (induction evs arbitrary: n wr)
  case (Cons ev evs)
  have z: "ws_in_flight (wr_stats (on_stats drop_in_flight wr1)) = 0" for wr1 :: "'a Writer"
    by (simp add: on_stats_def drop_in_flight_def)
  show ?case using Cons.prems Cons.IH[OF _ z] z
    by (auto simp: Let_def split: option.splits sum.splits prod.splits if_splits)
qed (auto simp: on_stats_def)

lemma run_inner_exit:
  assumes "run_inner sq cd boot quota fault now evs wr = Some (r, ready, wr')"
  shows "\<not> ws_running (wr_stats wr')" "ws_in_flight (wr_stats wr) = 0 \<Longrightarrow> ws_in_flight (wr_stats wr') = 0"
    "r = Inr () \<Longrightarrow> ready"
proof -
  have "\<not> ws_running (wr_stats (on_stats ws_drop_running x))"
    "ws_in_flight (wr_stats (on_stats ws_drop_running x)) = ws_in_flight (wr_stats x)"
    "ws_in_flight (wr_stats (on_stats ws_running_guard x)) = ws_in_flight (wr_stats x)"
    "ws_in_flight (wr_stats (on_stats (ws_mark_progress n) x)) = ws_in_flight (wr_stats x)" for x :: "'a Writer" and n
    by (simp_all add: on_stats_def ws_drop_running_def ws_running_guard_def ws_mark_progress_def)
  note st = this
  show "\<not> ws_running (wr_stats wr')" "r = Inr () \<Longrightarrow> ready"
    using assms st(1) by (auto simp: run_inner_def Let_def split: prod.splits sum.splits option.splits)
  show "ws_in_flight (wr_stats wr') = 0" if "ws_in_flight (wr_stats wr) = 0"
    using assms that st
    by (auto simp: run_inner_def Let_def split: prod.splits sum.splits option.splits dest!: command_loop_in_flight)
qed

lemma run_inner_returns:
  assumes "db_laws sq visible inside"
  shows "run_inner sq cd boot quota fault now evs wr \<noteq> None"
proof -
  have "command_loop sq cd quota fault 0 evs wr1 \<noteq> None" for wr1 by (rule command_loop_returns[OF assms])
  thus ?thesis
    by (simp add: run_inner_def Let_def del: not_None_eq split: prod.split sum.split option.split)
qed

lemma closed_ledger_answers: "wait t (close l) wakes \<noteq> None"
proof -
  have "wm_closed (watermark (close l))" by (simp add: close_def close_locked_def watermark_def)
  hence "wait_poll (close l) t \<noteq> None" by (simp add: wait_poll_def split: TicketState.split)
  thus ?thesis by (auto simp: wait_def wait_loop.simps[of t "close l" wakes])
qed

section \<open>Properties\<close>

text \<open>
  C9: \<open>persist_with_policy\<close> on a log batch is all or nothing, or a reported salvage: an error leaves
  the committed rows as they were; a clean success commits every record of the batch; a
  salvaged success commits exactly the records it did not drop, its two totals are the
  numbers of records kept and dropped and add up to the batch, and it names, for every
  ticket, how many of its records were kept and dropped.
\<close>

theorem persist_all_or_salvaged:
  assumes "sqlite_laws sq visible inside"
    and "persist_with_policy sq now (insert_logs sq (cd_sha256 cd) (cd_render cd) b)
           (insert_logs_tolerant sq (cd_sha256 cd) (cd_render cd) b) w s = (r, w', s', delays)"
  shows "case r of
           Inl e \<Rightarrow> visible w' = visible w
         | Inr None \<Rightarrow> visible w' = visible w @ map (row_of (cd_sha256 cd) (cd_render cd) b) (wb_records (lwb_records b))
         | Inr (Some out) \<Rightarrow>
             \<exists>ok. length ok = wb_len (lwb_records b) \<and> visible w' = visible w @ inserted_rows cd b ok \<and>
               so_kept out = length (kept_rows (batch_rows b) ok) \<and>
               so_dropped out = length (dropped_rows (batch_rows b) ok) \<and>
               so_kept out + so_dropped out = wb_len (lwb_records b) \<and>
               (\<forall>t. t \<noteq> 0 \<longrightarrow> by_ticket_of out t = (kept_count b ok t, dropped_count b ok t))"
proof -
  note db = persist_loop_db[OF assms(1) assms(2)[unfolded persist_with_policy_def]]
  show ?thesis
  proof (cases r)
    case (Inr salvage)
    then obtain ok where ok: "reports b ok salvage" "visible w' = visible w @ inserted_rows cd b ok" using db by auto
    show ?thesis
    proof (cases salvage)
      case None
      hence "kept_rows (batch_rows b) ok = batch_rows b"
        using ok(1) by (intro kept_rows_all) (simp_all add: reports_def)
      thus ?thesis using ok(2) Inr None by (simp add: map_batch_rows)
    next
      case (Some out)
      have "length (kept_rows (batch_rows b) ok) + length (dropped_rows (batch_rows b) ok) = wb_len (lwb_records b)"
        using ok(1) length_kept_rows(3)[of ok "batch_rows b"] by (simp add: reports_def)
      thus ?thesis using ok Inr Some by (auto simp: reports_def)
    qed
  qed (use db in simp)
qed

text \<open>The run behind the witnesses: the middle record of \<open>sample_batch\<close> violates a constraint.\<close>

definition sample_codec :: codec where
  "sample_codec = \<lparr>cd_sha256 = sample_sha, cd_render = sample_render\<rparr>"

definition sample_writer :: "(sqlval list list \<times> sqlval list list) Writer" where
  "sample_writer = \<lparr>wr_world = ([], []), wr_ledger = run_ops [Issue, Issue, Issue, Issue] (new_ledger 0),
     wr_stats = new_writer_stats 0\<rparr>"

lemma sample_begin [simp]:
  "sq_begin sample_sqlite w = (Inr (), (fst w, fst w))" "sq_commit sample_sqlite w = (Inr (), (snd w, snd w))"
  "sq_rollback sample_sqlite w = (fst w, fst w)"
  by (simp_all add: sample_sqlite_def)

lemma sample_persist:
  "\<exists>out w' s'. persist_with_policy sample_sqlite 9
       (insert_logs sample_sqlite sample_sha sample_render sample_batch)
       (insert_logs_tolerant sample_sqlite sample_sha sample_render sample_batch) ([], []) s =
     (Inr (Some out), w', s', []) \<and> length (fst w') = 2"
  unfolding persist_with_policy_def
  by (subst persist_loop.simps)
    (simp add: run_transaction_def finish_salvage_def sample_run)

theorem persist_all_or_salvaged_witness:
  "\<exists>out w' s' ok. persist_with_policy sample_sqlite 9
       (insert_logs sample_sqlite sample_sha sample_render sample_batch)
       (insert_logs_tolerant sample_sqlite sample_sha sample_render sample_batch) ([], []) (new_writer_stats 0) =
     (Inr (Some out), w', s', []) \<and> fst w' = inserted_rows sample_codec sample_batch ok \<and>
     so_kept out + so_dropped out = 3 \<and>
     by_ticket_of out 3 = (kept_count sample_batch ok 3, dropped_count sample_batch ok 3)"
proof -
  obtain out w' s' where run: "persist_with_policy sample_sqlite 9
       (insert_logs sample_sqlite sample_sha sample_render sample_batch)
       (insert_logs_tolerant sample_sqlite sample_sha sample_render sample_batch) ([], []) (new_writer_stats 0) =
     (Inr (Some out), w', s', [])" using sample_persist by blast
  thus ?thesis
    using persist_all_or_salvaged[OF sample_sqlite_laws, of 9 sample_codec sample_batch "([], [])" "new_writer_stats 0"]
    by (auto simp: sample_codec_def sample_batch_def from_vec_def wb_len_def)
qed

lemma persist_retries_bounded:
  assumes "persist_with_policy sq now strict salvage w s = (r, w', s', delays)"
  shows "prefix delays (map from_millis [250, 500, 1000, 2000])"
proof -
  obtain n where "n \<le> MAX_TRANSIENT_RETRIES" "delays = map backoff_delay [0..<n]"
    using persist_loop_delays[OF assms[unfolded persist_with_policy_def]] by auto
  moreover have "map backoff_delay [0..<MAX_TRANSIENT_RETRIES] = map from_millis [250, 500, 1000, 2000]"
    by (simp add: backoff_delay_def MAX_TRANSIENT_RETRIES_def RETRY_BACKOFF_BASE_def upt_rec)
  moreover have "[0..<MAX_TRANSIENT_RETRIES] = [0..<n] @ [n..<MAX_TRANSIENT_RETRIES]"
    using calculation(1) by (metis le0 upt_add_eq_append le_add_diff_inverse)
  ultimately show ?thesis by (metis map_append prefixI)
qed

text \<open>
  C2: The writer's verdicts are truthful.  Take any run of the command loop without a size quota
  and without pruning commands, on batches that are not empty and whose segments, if they
  have any, partition their records (\<open>batch_ok\<close>); batches without segments and tickets that
  come again after they were settled are allowed, and the records of the run together fit a
  64-bit counter.  Every row added belongs to a batch it executed.  A ticket that was open
  and untouched is judged by the executed batches up to the first that settles it: with none
  it stays open; if none of the records noted for it was dropped it reads \<open>Completed\<close>;
  otherwise it reads \<open>Failed\<close>; and the progress it shows is the exact number of its records
  that are and are not in the database (for a batch without segments: the number of
  records the whole batch lost).  A ticket settled before the run keeps its verdict.
\<close>

theorem writer_verdicts_truthful:
  assumes "db_laws sq visible inside"
    and "command_loop sq cd None fault n evs wr = Some (r, wr')"
    and "ledger_inv (wr_ledger wr)" "list_all batch_ok (insert_batches evs)"
    and "list_all (\<lambda>ev. \<not> deletes_rows (ce_command ev)) evs"
    and "total_records (insert_batches evs) \<le> U64_MAX"
  shows "\<exists>oks. oks_for (insert_batches evs) oks \<and>
     visible (wr_world wr') = visible (wr_world wr) @ stream_rows cd (insert_batches evs) oks \<and>
     (r = Inr () \<longrightarrow> length oks = length (insert_batches evs)) \<and>
     (\<forall>t. t \<noteq> 0 \<and> state (wr_ledger wr) t = Unsettled default_progress \<longrightarrow>
        (let p = noted_progress (up_to_settled t (insert_batches evs)) oks t
         in state (wr_ledger wr') t =
              (if \<forall>b \<in> set (take (length oks) (insert_batches evs)). t \<notin> batch_settles b then Unsettled p
               else if tp_dropped p = 0 then Completed else FailedTicket p))) \<and>
     (\<forall>t. t \<noteq> 0 \<and> \<not> unsettled (state (wr_ledger wr) t) \<longrightarrow> state (wr_ledger wr') t = state (wr_ledger wr) t)"
proof -
  obtain oks where oks: "run_verdicts visible cd (insert_batches evs) wr oks wr'"
    "r = Inr () \<longrightarrow> length oks = length (insert_batches evs)"
    using command_loop_verdicts[OF assms(1-5)] by blast
  have "let p = noted_progress (up_to_settled t (insert_batches evs)) oks t
        in state (wr_ledger wr') t = verdict default_progress (tp_committed p) (tp_dropped p)
             (\<exists>b \<in> set (take (length oks) (insert_batches evs)). t \<in> batch_settles b)"
    if "t \<noteq> 0" "state (wr_ledger wr) t = Unsettled default_progress" for t
    using oks(1) that assms(6) unfolding run_verdicts_def by (simp add: default_progress_def)
  hence "let p = noted_progress (up_to_settled t (insert_batches evs)) oks t
         in state (wr_ledger wr') t =
              (if \<forall>b \<in> set (take (length oks) (insert_batches evs)). t \<notin> batch_settles b then Unsettled p
               else if tp_dropped p = 0 then Completed else FailedTicket p)"
    if "t \<noteq> 0" "state (wr_ledger wr) t = Unsettled default_progress" for t
    using that by (simp add: verdict_def Let_def default_progress_def)
  thus ?thesis using oks unfolding run_verdicts_def by blast
qed

definition sample_event :: "WriteCommand \<Rightarrow> command_event" where
  "sample_event c = \<lparr>ce_depth = 1, ce_command = c, ce_backlog = 0, ce_now_ms = 9, ce_now_ns = 9000000\<rparr>"

definition whole_batch :: LogWriteBatch where
  "whole_batch = healthy_batch\<lparr>lwb_commit_seqs := [2, 4], lwb_segments := []\<rparr>"

lemma sample_stream:
  "list_all batch_ok (insert_batches [sample_event (InsertLogs sample_batch), sample_event (InsertLogs whole_batch)])"
  "total_records (insert_batches [sample_event (InsertLogs sample_batch), sample_event (InsertLogs whole_batch)]) = 6"
  by (simp_all add: sample_event_def sample_batch_def healthy_batch_def whole_batch_def batch_ok_def batch_wf_def from_vec_def
      wb_is_empty_def wb_len_def segment_tags_def completed_tickets_def total_records_def)

lemma sample_writer_ready:
  "ledger_inv (wr_ledger sample_writer)" "state (wr_ledger sample_writer) 4 = Unsettled default_progress"
proof -
  show "ledger_inv (wr_ledger sample_writer)"
    unfolding sample_writer_def by (simp del: run_ops_simps) (rule run_ops_inv[OF new_ledger_inv], simp)
  show "state (wr_ledger sample_writer) 4 = Unsettled default_progress"
    by (simp add: sample_writer_def new_ledger_def issue_def is_settled_def progress_of_def default_progress_def
        state_def state_inner_def)
qed

theorem writer_verdicts_truthful_witness:
  "\<exists>r wr' oks. command_loop sample_sqlite sample_codec None None 0
        [sample_event (InsertLogs sample_batch), sample_event (InsertLogs whole_batch)] sample_writer = Some (r, wr') \<and>
     fst (wr_world wr') = stream_rows sample_codec [sample_batch, whole_batch] oks \<and>
     (\<exists>p. p = noted_progress [sample_batch] oks 4 \<and>
        (oks \<noteq> [] \<longrightarrow> state (wr_ledger wr') 4 = (if tp_dropped p = 0 then Completed else FailedTicket p)))"
proof -
  let ?evs = "[sample_event (InsertLogs sample_batch), sample_event (InsertLogs whole_batch)]"
  obtain r wr' where run: "command_loop sample_sqlite sample_codec None None 0 ?evs sample_writer = Some (r, wr')"
    using command_loop_returns[OF sample_db_laws] by fastforce
  have b: "insert_batches ?evs = [sample_batch, whole_batch]" and d: "list_all (\<lambda>ev. \<not> deletes_rows (ce_command ev)) ?evs"
    by (simp_all add: sample_event_def)
  have "total_records (insert_batches ?evs) \<le> U64_MAX" using sample_stream(2) by simp
  from writer_verdicts_truthful[OF sample_db_laws run sample_writer_ready(1) sample_stream(1) d this]
  obtain oks where oks: "fst (wr_world wr') = stream_rows sample_codec [sample_batch, whole_batch] oks"
    and v: "let p = noted_progress (up_to_settled 4 [sample_batch, whole_batch]) oks 4
         in state (wr_ledger wr') 4 =
              (if \<forall>b \<in> set (take (length oks) [sample_batch, whole_batch]). 4 \<notin> batch_settles b then Unsettled p
               else if tp_dropped p = 0 then Completed else FailedTicket p)"
    using sample_writer_ready(2) unfolding b by (fastforce simp: sample_writer_def)
  have "4 \<in> batch_settles sample_batch" by (simp add: sample_batch_def completed_tickets_def)
  thus ?thesis using run oks v by (cases oks) (fastforce simp: Let_def)+
qed

text \<open>
  C18: The writer thread ends and leaves nobody waiting.  For every configuration, list of
  commands and database, \<open>run\<close> returns; on every exit path (failed bootstrap, failed
  checkpoint, failed command, injected fault, drained channel) the running flag is cleared,
  no command is left in flight, and the ledger is closed, so that a wait on any ticket has
  an answer; a clean result implies that the ready signal was sent.
\<close>

theorem writer_exit_answers_waiters:
  assumes "db_laws sq visible inside" "ws_in_flight (wr_stats wr) = 0"
  shows "\<exists>r ready wr'. run_writer sq cd boot quota fault now evs wr = Some (r, ready, wr') \<and>
           \<not> ws_running (wr_stats wr') \<and> ws_in_flight (wr_stats wr') = 0 \<and> (r = Inr () \<longrightarrow> ready) \<and>
           (\<forall>t. wait t (wr_ledger wr') [] \<noteq> None)"
proof -
  obtain r ready wr1 where run: "run_inner sq cd boot quota fault now evs wr = Some (r, ready, wr1)"
    using run_inner_returns[OF assms(1)] by fastforce
  show ?thesis using run_inner_exit[OF run] assms(2) run closed_ledger_answers
    by (auto simp: run_writer_def drop_close_guard_def)
qed

theorem writer_exit_answers_waiters_witness:
  "\<exists>r ready wr'. run_writer sample_sqlite sample_codec (\<lambda>w. (Inr (), w)) (Some 4096) (Some 1) 7
      [sample_event (InsertLogs sample_batch), sample_event Flush] sample_writer = Some (r, ready, wr') \<and>
      wait 1 (wr_ledger wr') [] \<noteq> None"
  using writer_exit_answers_waiters[OF sample_db_laws, of sample_writer]
  by (simp add: sample_writer_def new_writer_stats_def default_writer_stats_def ws_mark_progress_def
      del: split_paired_Ex) blast

end
