(* ===== verification/Batcher_Thread.thy ===== *)
theory Batcher_Thread
  imports Writer_Proofs
begin

text \<open>
  The insert-batcher thread (\<open>otel-sqlite-storage/src/batcher.rs\<close>): receiving chunks, age
  flushes, barriers, hand-over to the writer's command queue, and the end of the thread.

  The input channel is the list of what its receives return, in order, until it is
  disconnected: a message or a timeout, with the clock readings of that loop turn.  The
  command queue is the list of commands accepted so far and the number of sends that still
  succeed before the writer is gone (\<open>None\<close> when it stays); a blocked send is one that
  succeeds later.  Metrics and log lines are omitted.  \<open>None\<close> is a panic.
\<close>

section \<open>The command queue\<close>

record queue =
  q_sent :: "WriteCommand list"
  q_accepts :: "nat option"

definition send :: "WriteCommand \<Rightarrow> queue \<Rightarrow> bool \<times> queue" where
  "send c q =
     (case q_accepts q of
        None \<Rightarrow> (True, q\<lparr>q_sent := q_sent q @ [c]\<rparr>)
      | Some 0 \<Rightarrow> (False, q)
      | Some (Suc n) \<Rightarrow> (True, \<lparr>q_sent = q_sent q @ [c], q_accepts = Some n\<rparr>))"

section \<open>The thread\<close>

datatype Event = Message IngestMessage | Timer | Disconnected

record arrival =
  ar_message :: "IngestMessage option"
  ar_now :: instant
  ar_now_ms :: u64

record Batcher =
  bt_logs :: "LogRecord OriginBuffers"
  bt_commands :: queue
  bt_ledger :: CommitLedger
  bt_stats :: BatcherStats
  bt_alive :: bool

definition submit :: "WriteCommand \<Rightarrow> Batcher \<Rightarrow> bool \<times> Batcher" where
  "submit command bt =
     (case send command (bt_commands bt) of
        (True, q) \<Rightarrow> (True, bt\<lparr>bt_commands := q\<rparr>)
      | (False, q) \<Rightarrow>
          (False, bt\<lparr>bt_commands := q,
             bt_stats := (bt_stats bt)\<lparr>bs_dropped_records :=
               wrapping_add (bs_dropped_records (bt_stats bt)) (command_record_count command)\<rparr>\<rparr>))"

definition batch_of :: "LogRecord Submission \<Rightarrow> LogWriteBatch" where
  "batch_of submission =
     \<lparr>lwb_origin = sub_origin submission, lwb_records = sub_records submission,
      lwb_commit_seqs = sub_commit_seqs submission, lwb_segments = sub_segments submission\<rparr>"

definition submit_log_batch :: "u64 \<Rightarrow> LogRecord Submission \<Rightarrow> Batcher \<Rightarrow> bool \<times> Batcher" where
  "submit_log_batch now_ms submission bt =
     (case submit (InsertLogs (batch_of submission)) bt of
        (submitted, bt1) \<Rightarrow>
          (submitted,
           if submitted
           then bt1\<lparr>bt_stats := bs_mark_progress now_ms
                  ((bt_stats bt1)\<lparr>bs_batches_emitted := wrapping_add (bs_batches_emitted (bt_stats bt1)) 1\<rparr>)\<rparr>
           else bt1))"

text \<open>The submitting loops: \<open>alive &= submit_log_batch(..)\<close> for every submission.\<close>

fun submit_all :: "u64 \<Rightarrow> LogRecord Submission list \<Rightarrow> Batcher \<Rightarrow> Batcher" where
  "submit_all now_ms [] bt = bt"
| "submit_all now_ms (s # ss) bt =
     (case submit_log_batch now_ms s bt of
        (submitted, bt1) \<Rightarrow> submit_all now_ms ss (bt1\<lparr>bt_alive := bt_alive bt1 \<and> submitted\<rparr>))"

definition flush_buffers :: "u64 \<Rightarrow> Batcher \<Rightarrow> Batcher option" where
  "flush_buffers now_ms bt =
     map_option (\<lambda>(subs, logs). submit_all now_ms subs (bt\<lparr>bt_logs := logs\<rparr>)) (flush_all (bt_logs bt))"

definition on_chunk :: "instant \<Rightarrow> u64 \<Rightarrow> LogChunk \<Rightarrow> Batcher \<Rightarrow> Batcher option" where
  "on_chunk now now_ms chunk bt =
     (if chunk_is_empty chunk
      then Some (bt\<lparr>bt_ledger := void now_ms (chunk_commit_seq chunk) (bt_ledger bt)\<rparr>)
      else let s = bt_stats bt;
               s1 = bs_mark_progress now_ms (s\<lparr>bs_chunks_ingested := wrapping_add (bs_chunks_ingested s) 1\<rparr>)
           in map_option (\<lambda>(subs, logs). submit_all now_ms subs (bt\<lparr>bt_stats := s1, bt_logs := logs\<rparr>))
                (obs_push now (chunk_origin chunk) (chunk_records chunk) (chunk_commit_seq chunk) (bt_logs bt)))"

definition on_flush :: "u64 \<Rightarrow> Batcher \<Rightarrow> Batcher option" where
  "on_flush now_ms bt =
     map_option (\<lambda>bt1. if bt_alive bt1
                       then case submit Flush bt1 of (ok, bt2) \<Rightarrow> bt2\<lparr>bt_alive := ok\<rparr>
                       else bt1) (flush_buffers now_ms bt)"

definition on_timer :: "instant \<Rightarrow> u64 \<Rightarrow> Batcher \<Rightarrow> Batcher option" where
  "on_timer now now_ms bt =
     map_option (\<lambda>(expired, logs).
         let s = bt_stats bt;
             s1 = (if expired \<noteq> []
                   then s\<lparr>bs_timer_flushes := wrapping_add (bs_timer_flushes s) (length expired)\<rparr> else s)
         in submit_all now_ms expired (bt\<lparr>bt_logs := logs, bt_stats := s1\<rparr>))
       (flush_expired now (bt_logs bt))"

definition handle :: "Event \<Rightarrow> instant \<Rightarrow> u64 \<Rightarrow> Batcher \<Rightarrow> Batcher option" where
  "handle ev now now_ms bt =
     (case ev of
        Message (Logs chunk) \<Rightarrow> on_chunk now now_ms chunk bt
      | Message FlushBarrier \<Rightarrow> on_flush now_ms bt
      | Timer \<Rightarrow> on_timer now now_ms bt
      | Disconnected \<Rightarrow> Some bt)"

text \<open>\<open>recv_timeout\<close> can time out, \<open>recv\<close> (no deadline pending) cannot: there a timeout of the
  list is skipped.\<close>

fun batcher_loop :: "u64 option \<Rightarrow> u64 \<Rightarrow> arrival list \<Rightarrow> Batcher \<Rightarrow> Batcher option" where
  "batcher_loop fault_after processed [] bt =
     (case fault_after of
        Some limit \<Rightarrow> if wrapping_add processed 1 \<ge> limit then Some bt
                      else Some (bt\<lparr>bt_stats := observe_buffered (obs_buffered (bt_logs bt)) (bt_stats bt)\<rparr>)
      | None \<Rightarrow> Some (bt\<lparr>bt_stats := observe_buffered (obs_buffered (bt_logs bt)) (bt_stats bt)\<rparr>))"
| "batcher_loop fault_after processed (a # as) bt =
     (let processed' = wrapping_add processed 1
      in if (case fault_after of Some limit \<Rightarrow> processed' \<ge> limit | None \<Rightarrow> False) then Some bt
         else let bt1 = bt\<lparr>bt_stats := observe_buffered (obs_buffered (bt_logs bt)) (bt_stats bt)\<rparr>
              in case (obs_deadline (bt_logs bt), ar_message a) of
                   (None, None) \<Rightarrow> batcher_loop fault_after processed as bt
                 | (_, m) \<Rightarrow>
                     (case handle (case m of Some msg \<Rightarrow> Message msg | None \<Rightarrow> Timer) (ar_now a) (ar_now_ms a) bt1 of
                        None \<Rightarrow> None
                      | Some bt2 \<Rightarrow>
                          if bt_alive bt2 then batcher_loop fault_after processed' as bt2 else Some bt2))"

definition finish_batcher :: "u64 \<Rightarrow> Batcher \<Rightarrow> Batcher option" where
  "finish_batcher now_ms bt =
     map_option (\<lambda>bt1.
         let bt2 = (if bt_alive bt1 then bt1
                    else let abandoned = obs_buffered (bt_logs bt1); s = bt_stats bt1
                         in bt1\<lparr>bt_stats := (if abandoned > 0
                                             then s\<lparr>bs_dropped_records := wrapping_add (bs_dropped_records s) abandoned\<rparr>
                                             else s),
                                bt_ledger := close (bt_ledger bt1)\<rparr>)
         in bt2\<lparr>bt_ledger := drop_close_guard False (bt_ledger bt2),
                bt_stats := bs_drop_running (observe_buffered 0 (bt_stats bt2))\<rparr>)
       (if bt_alive bt then flush_buffers now_ms bt else Some bt)"

definition run_batcher ::
  "InsertBatcherConfig \<Rightarrow> u64 option \<Rightarrow> u64 \<Rightarrow> u64 \<Rightarrow> arrival list \<Rightarrow> queue \<Rightarrow> CommitLedger \<Rightarrow> BatcherStats \<Rightarrow>
   Batcher option" where
  "run_batcher config fault_after start_ms end_ms arrivals commands ledger stats =
     Option.bind
       (batcher_loop fault_after 0 arrivals
          \<lparr>bt_logs = new_origin_buffers config, bt_commands = commands, bt_ledger = ledger,
           bt_stats = bs_mark_progress start_ms (bs_running_guard stats), bt_alive = True\<rparr>)
       (finish_batcher end_ms)"

section \<open>Accounting\<close>

lemma obs_buffered_size: "obs_inv s \<Longrightarrow> obs_buffered s = length (all_tagged (obs_buffers s))"
proof -
  have "bufs_ok c bs \<Longrightarrow> sum_list (map (\<lambda>(_, b). ib_buffered (ob_batcher b)) bs) = length (all_tagged bs)" for c bs
    by (induction bs) (auto simp: held_tagged_def ob_inv_def ib_buffered_def)
  thus "obs_inv s \<Longrightarrow> ?thesis" by (auto simp: obs_inv_def obs_buffered_def)
qed

fun command_batches :: "WriteCommand list \<Rightarrow> LogWriteBatch list" where
  "command_batches [] = []"
| "command_batches (InsertLogs b # cs) = b # command_batches cs"
| "command_batches (_ # cs) = command_batches cs"

definition batch_tagged :: "LogWriteBatch \<Rightarrow> (u64 \<times> LogRecord) list" where
  "batch_tagged b = zip (segment_tags (lwb_segments b)) (wb_records (lwb_records b))"

abbreviation sent_tagged :: "WriteCommand list \<Rightarrow> (u64 \<times> LogRecord) multiset" where
  "sent_tagged cs \<equiv> mset (concat (map batch_tagged (command_batches cs)))"

lemma command_batches_append [simp]: "command_batches (cs @ ds) = command_batches cs @ command_batches ds"
  by (induction cs rule: command_batches.induct) simp_all

lemma batch_of_simps [simp]:
  "batch_tagged (batch_of s) = sub_tagged s" "lwb_segments (batch_of s) = sub_segments s"
  "lwb_commit_seqs (batch_of s) = sub_commit_seqs s" "lwb_records (batch_of s) = sub_records s"
  by (simp_all add: batch_tagged_def batch_of_def sub_tagged_def sub_tags_def)

lemma command_batches_subs [simp]: "command_batches (map (\<lambda>s. InsertLogs (batch_of s)) ss) = map batch_of ss"
  by (induction ss) simp_all

lemma sub_ok_size: "sub_ok s \<Longrightarrow> wb_len (sub_records s) = length (sub_tagged s)"
  by (simp add: sub_ok_def sub_tagged_def wb_len_def)

definition dropped_after :: "nat \<Rightarrow> LogRecord Submission list \<Rightarrow> nat" where
  "dropped_after d rej = fold (\<lambda>s d. wrapping_add d (wb_len (sub_records s))) rej d"

lemma dropped_after_sum:
  assumes "\<forall>s \<in> set rej. sub_ok s" "d \<le> U64_MAX"
  shows "dropped_after d rej = (d + length (concat (map sub_tagged rej))) mod (U64_MAX + 1)"
  using assms
proof (induction rej arbitrary: d)
  case (Cons s rej)
  have "wrapping_add d (wb_len (sub_records s)) \<le> U64_MAX" by (simp add: wrapping_add_def)
  with Cons show ?case
    by (simp add: dropped_after_def sub_ok_size wrapping_add_def mod_simps add.assoc)
qed (simp add: dropped_after_def)

text \<open>Submitting in order: an accepted prefix, and after the first refusal only refusals.\<close>

definition handed :: "Batcher \<Rightarrow> LogRecord Submission list \<Rightarrow> LogRecord Submission list \<Rightarrow> Batcher \<Rightarrow> bool" where
  "handed bt acc rej bt' \<longleftrightarrow>
     q_sent (bt_commands bt') = q_sent (bt_commands bt) @ map (\<lambda>s. InsertLogs (batch_of s)) acc \<and>
     bs_dropped_records (bt_stats bt') = dropped_after (bs_dropped_records (bt_stats bt)) rej \<and>
     (bt_alive bt' \<longleftrightarrow> bt_alive bt \<and> rej = []) \<and>
     bt_logs bt' = bt_logs bt \<and> bt_ledger bt' = bt_ledger bt"

lemma submit_refused:
  "q_accepts (bt_commands bt) = Some 0 \<Longrightarrow> handed bt [] subs (submit_all now subs bt)"
proof (induction subs arbitrary: bt)
  case (Cons s ss)
  let ?bt = "bt\<lparr>bt_stats := (bt_stats bt)\<lparr>bs_dropped_records :=
               wrapping_add (bs_dropped_records (bt_stats bt)) (wb_len (sub_records s))\<rparr>, bt_alive := False\<rparr>"
  have "submit_all now (s # ss) bt = submit_all now ss ?bt"
    using Cons.prems by (simp add: submit_log_batch_def submit_def send_def)
  moreover have "handed ?bt [] ss (submit_all now ss ?bt)" using Cons.prems by (intro Cons.IH) simp
  ultimately show ?case by (simp add: handed_def dropped_after_def)
qed (simp add: handed_def dropped_after_def)

lemma handed_trans: "handed bt acc [] bt1 \<Longrightarrow> handed bt1 acc' rej bt2 \<Longrightarrow> handed bt (acc @ acc') rej bt2"
  by (auto simp: handed_def dropped_after_def)

lemma submit_all_handed: "\<exists>acc rej. subs = acc @ rej \<and> handed bt acc rej (submit_all now subs bt)"
proof (induction subs arbitrary: bt)
  case (Cons s ss)
  show ?case
  proof (cases "q_accepts (bt_commands bt) = Some 0")
    case True
    thus ?thesis using submit_refused by blast
  next
    case False
    hence ok: "fst (submit_log_batch now s bt)"
      by (auto simp: submit_log_batch_def submit_def send_def split: option.splits nat.splits)
    let ?bt = "snd (submit_log_batch now s bt)"
    have run: "submit_all now (s # ss) bt = submit_all now ss ?bt" using ok by (simp add: split_beta)
    have h: "handed bt [s] [] ?bt"
      using False by (auto simp: handed_def dropped_after_def submit_log_batch_def submit_def send_def bs_mark_progress_def
          split: option.splits nat.splits)
    obtain acc rej where "ss = acc @ rej" "handed ?bt acc rej (submit_all now ss ?bt)" using Cons.IH by blast
    with handed_trans[OF h this(2)] show ?thesis unfolding run
      by (metis append_Cons append_Nil)
  qed
qed (simp add: handed_def dropped_after_def)

text \<open>A stretch of the thread is a history of the buffers whose submissions are handed over in
  order: an accepted prefix, then the refused ones, which end the thread.\<close>

definition batcher_refines ::
  "Batcher \<Rightarrow> LogRecord origin_event list \<Rightarrow> LogRecord Submission list \<Rightarrow> LogRecord Submission list \<Rightarrow> WriteCommand list \<Rightarrow> Batcher \<Rightarrow> bool" where
  "batcher_refines bt es acc rej cmds bt' \<longleftrightarrow>
     run_obs es (bt_logs bt) = Some (acc @ rej, bt_logs bt') \<and>
     q_sent (bt_commands bt') = q_sent (bt_commands bt) @ cmds \<and> command_batches cmds = map batch_of acc \<and>
     bs_dropped_records (bt_stats bt') = dropped_after (bs_dropped_records (bt_stats bt)) rej \<and>
     (bt_alive bt' \<longrightarrow> bt_alive bt \<and> rej = [])"

lemma run_obs_append:
  "run_obs es s = Some (subs, s1) \<Longrightarrow> run_obs es' s1 = Some (subs', s') \<Longrightarrow> run_obs (es @ es') s = Some (subs @ subs', s')"
  by (induction es arbitrary: s subs) (auto simp: bind_eq_Some_conv)

lemma batcher_refines_refl:
  "bt_logs bt' = bt_logs bt \<Longrightarrow> bt_commands bt' = bt_commands bt \<Longrightarrow>
   bs_dropped_records (bt_stats bt') = bs_dropped_records (bt_stats bt) \<Longrightarrow> bt_alive bt' = bt_alive bt \<Longrightarrow>
   batcher_refines bt [] [] [] [] bt'"
  by (simp add: batcher_refines_def dropped_after_def)

lemma batcher_refines_trans:
  assumes "batcher_refines bt es acc [] cmds bt1" "batcher_refines bt1 es' acc' rej cmds' bt2"
  shows "batcher_refines bt (es @ es') (acc @ acc') rej (cmds @ cmds') bt2"
  using assms by (auto simp: batcher_refines_def dropped_after_def intro: run_obs_append)

lemma hand_over_refines:
  assumes "obs_step e (bt_logs bt) = Some (subs, bt_logs bt1)"
    and "bt_commands bt1 = bt_commands bt" "bt_alive bt1 = bt_alive bt"
      "bs_dropped_records (bt_stats bt1) = bs_dropped_records (bt_stats bt)"
  shows "\<exists>acc rej cmds. batcher_refines bt [e] acc rej cmds (submit_all now subs bt1)"
proof -
  obtain acc rej where h: "subs = acc @ rej" "handed bt1 acc rej (submit_all now subs bt1)"
    using submit_all_handed by blast
  hence "batcher_refines bt [e] acc rej (map (\<lambda>s. InsertLogs (batch_of s)) acc) (submit_all now subs bt1)"
    using assms by (simp add: batcher_refines_def handed_def)
  thus ?thesis by blast
qed

definition arrival_tagged :: "arrival \<Rightarrow> (u64 \<times> LogRecord) list" where
  "arrival_tagged a =
     (case ar_message a of Some (Logs c) \<Rightarrow> map (Pair (chunk_commit_seq c)) (chunk_records c) | _ \<Rightarrow> [])"

definition arrival_tickets :: "arrival \<Rightarrow> u64 list" where
  "arrival_tickets a =
     (case ar_message a of Some (Logs c) \<Rightarrow> if chunk_records c = [] then [] else [chunk_commit_seq c] | _ \<Rightarrow> [])"

text \<open>The buffer events an arrival stands for carry exactly its records and its ticket.\<close>

definition events_of :: "arrival list \<Rightarrow> LogRecord origin_event list \<Rightarrow> bool" where
  "events_of as es \<longleftrightarrow> concat (map pushed_records es) = concat (map arrival_tagged as) \<and>
                      concat (map pushed_tickets es) = concat (map arrival_tickets as)"

lemma events_of_append: "events_of as es \<Longrightarrow> events_of as' es' \<Longrightarrow> events_of (as @ as') (es @ es')"
  by (simp add: events_of_def)

lemma obs_step_Some: "obs_inv s \<Longrightarrow> \<exists>subs s'. obs_step e s = Some (subs, s') \<and> obs_inv s'"
  using obs_step_correct[of s e] by (auto simp: history_ok_def)

lemma run_obs_inv: "obs_inv s \<Longrightarrow> run_obs es s = Some (subs, s') \<Longrightarrow> obs_inv s'"
  using run_obs_correct[of s es] by (auto simp: history_ok_def)

abbreviation batcher_ready :: "Batcher \<Rightarrow> bool" where
  "batcher_ready bt \<equiv> obs_inv (bt_logs bt) \<and> bs_dropped_records (bt_stats bt) \<le> U64_MAX"

lemma dropped_after_le: "d \<le> U64_MAX \<Longrightarrow> dropped_after d rej \<le> U64_MAX"
  unfolding dropped_after_def by (induction rej arbitrary: d) (simp_all add: wrapping_add_def)

lemma batcher_refines_ready: "batcher_ready bt \<Longrightarrow> batcher_refines bt es acc rej cmds bt' \<Longrightarrow> batcher_ready bt'"
  by (auto simp: batcher_refines_def intro: run_obs_inv dropped_after_le)

lemma flush_buffers_refines:
  assumes "obs_inv (bt_logs bt)"
  shows "\<exists>bt' acc rej cmds. flush_buffers now bt = Some bt' \<and> batcher_refines bt [FlushAll] acc rej cmds bt' \<and>
           bt_ledger bt' = bt_ledger bt \<and> obs_buffers (bt_logs bt') = []"
proof -
  obtain subs logs' where f: "flush_all (bt_logs bt) = Some (subs, logs')"
    using obs_step_Some[OF assms, of FlushAll] by auto
  obtain acc rej where "handed (bt\<lparr>bt_logs := logs'\<rparr>) acc rej (submit_all now subs (bt\<lparr>bt_logs := logs'\<rparr>))"
    using submit_all_handed by blast
  thus ?thesis using f hand_over_refines[of FlushAll bt subs "bt\<lparr>bt_logs := logs'\<rparr>" now] flush_all_empties[OF assms f]
    by (auto simp: flush_buffers_def handed_def)
qed

lemma on_chunk_refines:
  assumes "obs_inv (bt_logs bt)" "ar_message a = Some (Logs c)"
  shows "\<exists>bt' es acc rej cmds. on_chunk now now_ms c bt = Some bt' \<and> events_of [a] es \<and> batcher_refines bt es acc rej cmds bt'"
proof (cases "chunk_is_empty c")
  case True
  hence "events_of [a] []" using assms(2)
    by (simp add: chunk_is_empty_def events_of_def arrival_tagged_def arrival_tickets_def)
  moreover have "batcher_refines bt [] [] [] [] (bt\<lparr>bt_ledger := void now_ms (chunk_commit_seq c) (bt_ledger bt)\<rparr>)"
    by (rule batcher_refines_refl) simp_all
  ultimately show ?thesis using True unfolding on_chunk_def by (simp only: if_True) blast
next
  case False
  let ?e = "PushChunk now (chunk_origin c) (chunk_records c) (chunk_commit_seq c)"
  let ?s = "bt_stats bt"
  obtain subs logs' where p: "obs_step ?e (bt_logs bt) = Some (subs, logs')" using obs_step_Some[OF assms(1)] by blast
  let ?bt1 = "bt\<lparr>bt_stats := bs_mark_progress now_ms (?s\<lparr>bs_chunks_ingested := wrapping_add (bs_chunks_ingested ?s) 1\<rparr>),
                bt_logs := logs'\<rparr>"
  have "\<exists>acc rej cmds. batcher_refines bt [?e] acc rej cmds (submit_all now_ms subs ?bt1)"
    using p by (intro hand_over_refines) (simp_all add: bs_mark_progress_def)
  moreover have "on_chunk now now_ms c bt = Some (submit_all now_ms subs ?bt1)"
    using p False by (simp add: on_chunk_def Let_def)
  moreover have "events_of [a] [?e]" using assms(2) by (simp add: events_of_def arrival_tagged_def arrival_tickets_def)
  ultimately show ?thesis by blast
qed

lemma on_timer_refines:
  assumes "obs_inv (bt_logs bt)"
  shows "\<exists>bt' acc rej cmds. on_timer now now_ms bt = Some bt' \<and> batcher_refines bt [FlushExpired now] acc rej cmds bt'"
proof -
  obtain subs logs' where f: "obs_step (FlushExpired now) (bt_logs bt) = Some (subs, logs')"
    using obs_step_Some[OF assms] by blast
  let ?bt1 = "bt\<lparr>bt_logs := logs', bt_stats := (if subs \<noteq> []
       then (bt_stats bt)\<lparr>bs_timer_flushes := wrapping_add (bs_timer_flushes (bt_stats bt)) (length subs)\<rparr> else bt_stats bt)\<rparr>"
  have "on_timer now now_ms bt = Some (submit_all now_ms subs ?bt1)" using f by (simp add: on_timer_def Let_def)
  moreover have "\<exists>acc rej cmds. batcher_refines bt [FlushExpired now] acc rej cmds (submit_all now_ms subs ?bt1)"
    by (rule hand_over_refines) (use f in simp_all)
  ultimately show ?thesis by blast
qed

text \<open>The barrier: it reaches the queue behind everything received before it.\<close>

lemma on_flush_refines:
  assumes "batcher_ready bt"
  shows "\<exists>bt' acc rej cmds. on_flush now bt = Some bt' \<and> batcher_refines bt [FlushAll] acc rej cmds bt' \<and>
           (bt_alive bt' \<longrightarrow> (\<exists>cs. cmds = cs @ [Flush]) \<and> obs_buffers (bt_logs bt') = [])"
proof -
  obtain bt1 acc rej cmds where f: "flush_buffers now bt = Some bt1" "batcher_refines bt [FlushAll] acc rej cmds bt1"
    "obs_buffers (bt_logs bt1) = []" using flush_buffers_refines[OF conjunct1[OF assms]] by blast
  show ?thesis
  proof (cases "bt_alive bt1")
    case False
    thus ?thesis using f by (auto simp: on_flush_def)
  next
    case True
    hence r: "rej = []" using f(2) by (simp add: batcher_refines_def)
    obtain ok bt2 where s: "submit Flush bt1 = (ok, bt2)" by (rule prod.exhaust)
    have le: "wrapping_add (bs_dropped_records (bt_stats bt1)) 0 = bs_dropped_records (bt_stats bt1)"
      using batcher_refines_ready[OF assms f(2)] by (simp add: wrapping_add_def)
    have "batcher_refines bt1 [] [] [] (if ok then [Flush] else []) (bt2\<lparr>bt_alive := ok\<rparr>)"
      "bt_logs bt2 = bt_logs bt1"
      using s True le
      by (auto simp: batcher_refines_def dropped_after_def submit_def send_def split: option.splits nat.splits if_splits)
    from batcher_refines_trans[OF f(2)[unfolded r] this(1)] this(2) show ?thesis
      using f(1,3) s True by (auto simp: on_flush_def split: if_splits)
  qed
qed

lemma handle_refines:
  assumes "batcher_ready bt"
  shows "\<exists>bt' es acc rej cmds.
           handle (case ar_message a of Some msg \<Rightarrow> Message msg | None \<Rightarrow> Timer) (ar_now a) (ar_now_ms a) bt = Some bt' \<and>
           events_of [a] es \<and> batcher_refines bt es acc rej cmds bt'"
proof (cases "ar_message a")
  case None
  hence "events_of [a] [FlushExpired (ar_now a)]" by (simp add: events_of_def arrival_tagged_def arrival_tickets_def)
  thus ?thesis using on_timer_refines[of bt "ar_now a" "ar_now_ms a"] None assms unfolding handle_def by fastforce
next
  case (Some m)
  show ?thesis
  proof (cases m)
    case (Logs c)
    thus ?thesis using Some on_chunk_refines[of bt a c] assms by (simp add: handle_def)
  next
    case FlushBarrier
    hence "events_of [a] [FlushAll]" using Some by (simp add: events_of_def arrival_tagged_def arrival_tickets_def)
    thus ?thesis using Some FlushBarrier on_flush_refines[OF assms, of "ar_now_ms a"] unfolding handle_def by fastforce
  qed
qed

lemma observe_refines:
  "batcher_refines (bt\<lparr>bt_stats := observe_buffered n (bt_stats bt)\<rparr>) es acc rej cmds bt' = batcher_refines bt es acc rej cmds bt'"
  "bs_dropped_records (observe_buffered n s) = bs_dropped_records s"
  by (simp_all add: batcher_refines_def observe_buffered_def)

lemma batcher_loop_refines:
  assumes "batcher_ready bt" "bt_alive bt"
  shows "\<exists>bt' k es acc rej cmds. batcher_loop fault n as bt = Some bt' \<and> events_of (take k as) es \<and>
           batcher_refines bt es acc rej cmds bt' \<and> (bt_alive bt' \<and> fault = None \<longrightarrow> k = length as)"
  using assms
proof (induction as arbitrary: n bt)
  case Nil
  have "events_of (take (length ([] :: arrival list)) []) []" by (simp add: events_of_def)
  moreover have "batcher_refines bt [] [] [] [] bt"
    "batcher_refines bt [] [] [] [] (bt\<lparr>bt_stats := observe_buffered (obs_buffered (bt_logs bt)) (bt_stats bt)\<rparr>)"
    by (rule batcher_refines_refl; simp add: observe_refines)+
  moreover from this have "\<exists>bt'. batcher_loop fault n [] bt = Some bt' \<and> batcher_refines bt [] [] [] [] bt'"
    by (simp split: option.split)
  ultimately show ?case by blast
next
  case (Cons a as)
  let ?bt1 = "bt\<lparr>bt_stats := observe_buffered (obs_buffered (bt_logs bt)) (bt_stats bt)\<rparr>"
  let ?hit = "case fault of Some limit \<Rightarrow> wrapping_add n 1 \<ge> limit | None \<Rightarrow> False"
  let ?ev = "case ar_message a of Some msg \<Rightarrow> Message msg | None \<Rightarrow> Timer"
  consider (fault) ?hit | (skip) "\<not> ?hit" "obs_deadline (bt_logs bt) = None" "ar_message a = None"
    | (run) "\<not> ?hit" "\<not> (obs_deadline (bt_logs bt) = None \<and> ar_message a = None)" by argo
  thus ?case
  proof cases
    case fault
    hence "batcher_loop fault n (a # as) bt = Some bt" "fault \<noteq> None" by (auto simp: Let_def split: option.splits)
    moreover have "events_of (take 0 (a # as)) []" by (simp add: events_of_def)
    moreover have "batcher_refines bt [] [] [] [] bt" by (rule batcher_refines_refl) simp_all
    ultimately show ?thesis by blast
  next
    case skip
    hence run: "batcher_loop fault n (a # as) bt = batcher_loop fault n as bt"
      by (auto simp: Let_def split: option.splits)
    have "events_of (take (Suc k) (a # as)) es = events_of (take k as) es" for k es
      using skip(3) by (simp add: events_of_def arrival_tagged_def arrival_tickets_def)
    thus ?thesis unfolding run using Cons.IH[OF Cons.prems, of n] by (metis length_Cons)
  next
    case run
    obtain bt2 es acc rej cmds where h: "handle ?ev (ar_now a) (ar_now_ms a) ?bt1 = Some bt2" "events_of [a] es"
      "batcher_refines bt es acc rej cmds bt2"
      using handle_refines[of ?bt1 a] Cons.prems(1) unfolding observe_refines by (auto simp: observe_refines)
    have step: "batcher_loop fault n (a # as) bt =
        (if bt_alive bt2 then batcher_loop fault (wrapping_add n 1) as bt2 else Some bt2)"
      using run h(1) by (auto simp: Let_def split: option.splits)
    show ?thesis
    proof (cases "bt_alive bt2")
      case True
      hence r: "rej = []" using h(3) by (simp add: batcher_refines_def)
      obtain bt' k es' acc' rej' cmds' where IH: "batcher_loop fault (wrapping_add n 1) as bt2 = Some bt'"
        "events_of (take k as) es'" "batcher_refines bt2 es' acc' rej' cmds' bt'"
        "bt_alive bt' \<and> fault = None \<longrightarrow> k = length as"
        using Cons.IH[OF batcher_refines_ready[OF Cons.prems(1) h(3)] True, of "wrapping_add n 1"] by blast
      have "events_of (take (Suc k) (a # as)) (es @ es')" using events_of_append[OF h(2) IH(2)] by simp
      with batcher_refines_trans[OF h(3)[unfolded r] IH(3)] show ?thesis using IH(1,4) step True
        by (metis length_Cons)
    next
      case False
      hence "batcher_loop fault n (a # as) bt = Some bt2" using step by simp
      moreover have "events_of (take (Suc 0) (a # as)) es" using h(2) by simp
      ultimately show ?thesis using h(3) False by blast
    qed
  qed
qed

lemma batcher_step_cases:
  assumes "batcher_loop None n (a # as) bt = Some bt'" "batcher_ready bt"
  obtains (skip) "ar_message a = None" "batcher_loop None n as bt = Some bt'"
  | (run) bt2 es acc rej cmds where "events_of [a] es" "batcher_refines bt es acc rej cmds bt2"
      "handle (case ar_message a of Some msg \<Rightarrow> Message msg | None \<Rightarrow> Timer) (ar_now a) (ar_now_ms a)
         (bt\<lparr>bt_stats := observe_buffered (obs_buffered (bt_logs bt)) (bt_stats bt)\<rparr>) = Some bt2"
      "(if bt_alive bt2 then batcher_loop None (wrapping_add n 1) as bt2 else Some bt2) = Some bt'"
proof (cases "obs_deadline (bt_logs bt) = None \<and> ar_message a = None")
  case True
  thus thesis using assms(1) skip by (auto simp: Let_def)
next
  case False
  let ?bt1 = "bt\<lparr>bt_stats := observe_buffered (obs_buffered (bt_logs bt)) (bt_stats bt)\<rparr>"
  obtain bt2 es acc rej cmds where
    "handle (case ar_message a of Some msg \<Rightarrow> Message msg | None \<Rightarrow> Timer) (ar_now a) (ar_now_ms a) ?bt1 = Some bt2"
    "events_of [a] es" "batcher_refines bt es acc rej cmds bt2"
    using handle_refines[of ?bt1 a] assms(2) unfolding observe_refines by (auto simp: observe_refines)
  moreover from this(1) False have "(if bt_alive bt2 then batcher_loop None (wrapping_add n 1) as bt2 else Some bt2) = Some bt'"
    using assms(1) by (auto simp: Let_def split: option.splits)
  ultimately show thesis by (intro run)
qed

lemma barrier_refines:
  assumes "batcher_loop None n (as @ [b]) bt = Some bt'" "batcher_ready bt" "ar_message b = Some FlushBarrier" "bt_alive bt'"
  shows "\<exists>es acc cs. events_of as es \<and> batcher_refines bt es acc [] (cs @ [Flush]) bt' \<and> obs_buffers (bt_logs bt') = []"
  using assms
proof (induction as arbitrary: n bt)
  case Nil
  let ?bt1 = "bt\<lparr>bt_stats := observe_buffered (obs_buffered (bt_logs bt)) (bt_stats bt)\<rparr>"
  have "batcher_ready ?bt1" using Nil.prems(2) by (simp add: observe_refines)
  from on_flush_refines[OF this, of "ar_now_ms b"] obtain bt2 acc rej cmds where
    f: "on_flush (ar_now_ms b) ?bt1 = Some bt2" "batcher_refines bt [FlushAll] acc rej cmds bt2"
    "bt_alive bt2 \<longrightarrow> (\<exists>cs. cmds = cs @ [Flush]) \<and> obs_buffers (bt_logs bt2) = []" unfolding observe_refines by blast
  have "bt' = bt2\<lparr>bt_stats := observe_buffered (obs_buffered (bt_logs bt2)) (bt_stats bt2)\<rparr>" "bt_alive bt2"
    using Nil.prems(1,3,4) f(1) by (auto simp: Let_def handle_def split: option.splits if_splits)
  moreover have "events_of [] [FlushAll]" by (simp add: events_of_def)
  moreover have "rej = []" using f(2) calculation(2) by (simp add: batcher_refines_def)
  ultimately show ?case using f(2,3) by (auto simp: batcher_refines_def observe_refines)
next
  case (Cons a as)
  from Cons.prems(1)[unfolded append_Cons] Cons.prems(2) show ?case
  proof (cases rule: batcher_step_cases)
    case skip
    hence "events_of (a # as) es = events_of as es" for es by (simp add: events_of_def arrival_tagged_def arrival_tickets_def)
    thus ?thesis using Cons.IH[OF skip(2) Cons.prems(2-)] by simp
  next
    case (run bt2 es acc rej cmds)
    have alive: "bt_alive bt2" using run(4) Cons.prems(4) by (auto split: if_splits)
    hence r: "rej = []" and loop: "batcher_loop None (wrapping_add n 1) (as @ [b]) bt2 = Some bt'"
      using run(2,4) by (simp_all add: batcher_refines_def)
    obtain es' acc' cs where "events_of as es'" "batcher_refines bt2 es' acc' [] (cs @ [Flush]) bt'"
      "obs_buffers (bt_logs bt') = []"
      using Cons.IH[OF loop batcher_refines_ready[OF Cons.prems(2) run(2)] Cons.prems(3,4)] by blast
    with batcher_refines_trans[OF run(2)[unfolded r] this(2)] events_of_append[OF run(1)] show ?thesis
      by (metis append_Cons append_Nil append_assoc)
  qed
qed

lemma finish_batcher_refines:
  assumes "batcher_ready bt"
  shows "\<exists>bt' es acc rej cmds. finish_batcher now bt = Some bt' \<and> events_of [] es \<and>
           run_obs es (bt_logs bt) = Some (acc @ rej, bt_logs bt') \<and>
           q_sent (bt_commands bt') = q_sent (bt_commands bt) @ cmds \<and> command_batches cmds = map batch_of acc \<and>
           bs_dropped_records (bt_stats bt') =
             wrapping_add (dropped_after (bs_dropped_records (bt_stats bt)) rej)
               (length (all_tagged (obs_buffers (bt_logs bt')))) \<and>
           (bt_alive bt' \<longrightarrow> bt_alive bt \<and> rej = [] \<and> obs_buffers (bt_logs bt') = []) \<and> (bt_alive bt \<or> acc @ rej = []) \<and>
           (\<not> bt_alive bt' \<longrightarrow> bt_ledger bt' = close (bt_ledger bt)) \<and>
           \<not> bs_running (bt_stats bt') \<and> bs_buffered_records (bt_stats bt') = 0"
proof -
  obtain bt1 es acc rej cmds where b1: "(if bt_alive bt then flush_buffers now bt else Some bt) = Some bt1"
    "events_of [] es" "batcher_refines bt es acc rej cmds bt1" "bt_ledger bt1 = bt_ledger bt"
    "bt_alive bt1 \<longrightarrow> obs_buffers (bt_logs bt1) = []" "bt_alive bt \<or> acc @ rej = []"
  proof (cases "bt_alive bt")
    case True
    moreover have "events_of [] [FlushAll]" by (simp add: events_of_def)
    ultimately show thesis using flush_buffers_refines[OF conjunct1[OF assms], of now] that by auto
  next
    case False
    moreover have "events_of [] []" by (simp add: events_of_def)
    ultimately show thesis using that[of bt "[]" "[]" "[]" "[]"] batcher_refines_refl[of bt bt] by simp
  qed
  note ready = batcher_refines_ready[OF assms b1(3)]
  have sz: "obs_buffered (bt_logs bt1) = length (all_tagged (obs_buffers (bt_logs bt1)))"
    using obs_buffered_size ready by blast
  have w0: "wrapping_add (bs_dropped_records (bt_stats bt1)) 0 = bs_dropped_records (bt_stats bt1)"
    using ready by (simp add: wrapping_add_def)
  let ?bt = "if bt_alive bt1 then bt1
     else bt1\<lparr>bt_stats := (bt_stats bt1)\<lparr>bs_dropped_records :=
            wrapping_add (bs_dropped_records (bt_stats bt1)) (obs_buffered (bt_logs bt1))\<rparr>,
          bt_ledger := close (bt_ledger bt1)\<rparr>"
  have "finish_batcher now bt = Some (?bt\<lparr>bt_stats := bs_drop_running (observe_buffered 0 (bt_stats ?bt))\<rparr>)"
    unfolding finish_batcher_def b1(1) using w0 by (simp add: Let_def drop_close_guard_def)
  thus ?thesis using b1(2-6) sz w0
    by (intro exI[of _ "?bt\<lparr>bt_stats := bs_drop_running (observe_buffered 0 (bt_stats ?bt))\<rparr>"] exI[of _ es]
        exI[of _ acc] exI[of _ rej] exI[of _ cmds])
      (auto simp: batcher_refines_def bs_drop_running_def observe_buffered_def)
qed

text \<open>The whole thread.\<close>

definition batcher_run ::
  "InsertBatcherConfig \<Rightarrow> u64 option \<Rightarrow> arrival list \<Rightarrow> queue \<Rightarrow> BatcherStats \<Rightarrow> nat \<Rightarrow>
   LogRecord origin_event list \<Rightarrow> LogRecord Submission list \<Rightarrow> LogRecord Submission list \<Rightarrow> WriteCommand list \<Rightarrow> Batcher \<Rightarrow> bool" where
  "batcher_run c fault arrivals q stats k es acc rej cmds bt \<longleftrightarrow>
     events_of (take k arrivals) es \<and> run_obs es (new_origin_buffers c) = Some (acc @ rej, bt_logs bt) \<and>
     q_sent (bt_commands bt) = q_sent q @ cmds \<and> command_batches cmds = map batch_of acc \<and>
     bs_dropped_records (bt_stats bt) =
       wrapping_add (dropped_after (bs_dropped_records stats) rej) (length (all_tagged (obs_buffers (bt_logs bt)))) \<and>
     (bt_alive bt \<longrightarrow> rej = [] \<and> obs_buffers (bt_logs bt) = [] \<and> (fault = None \<longrightarrow> k = length arrivals)) \<and>
     (\<not> bt_alive bt \<longrightarrow> (\<exists>l. bt_ledger bt = close l)) \<and> \<not> bs_running (bt_stats bt)"

lemma run_batcher_run:
  assumes "max_batch_records c \<noteq> 0" "bs_dropped_records stats \<le> U64_MAX"
  shows "\<exists>bt k es acc rej cmds. run_batcher c fault sm em arrivals q l stats = Some bt \<and>
           batcher_run c fault arrivals q stats k es acc rej cmds bt"
proof -
  let ?bt0 = "\<lparr>bt_logs = new_origin_buffers c, bt_commands = q, bt_ledger = l,
           bt_stats = bs_mark_progress sm (bs_running_guard stats), bt_alive = True\<rparr>"
  have ready: "batcher_ready ?bt0"
    using assms new_origin_buffers_inv[OF assms(1)] by (simp add: bs_mark_progress_def bs_running_guard_def)
  then obtain bt1 k es acc rej cmds where l1: "batcher_loop fault 0 arrivals ?bt0 = Some bt1" "events_of (take k arrivals) es"
    "batcher_refines ?bt0 es acc rej cmds bt1" "bt_alive bt1 \<and> fault = None \<longrightarrow> k = length arrivals"
    using batcher_loop_refines[OF ready, of fault 0 arrivals] by (simp only: Batcher.select_convs) blast
  from finish_batcher_refines[OF batcher_refines_ready[OF ready l1(3)], of em] obtain bt2 es' acc' rej' cmds' where
    l2: "finish_batcher em bt1 = Some bt2" "events_of [] es'" "run_obs es' (bt_logs bt1) = Some (acc' @ rej', bt_logs bt2)"
    "q_sent (bt_commands bt2) = q_sent (bt_commands bt1) @ cmds'" "command_batches cmds' = map batch_of acc'"
    "bs_dropped_records (bt_stats bt2) = wrapping_add (dropped_after (bs_dropped_records (bt_stats bt1)) rej')
               (length (all_tagged (obs_buffers (bt_logs bt2))))"
    "bt_alive bt2 \<longrightarrow> bt_alive bt1 \<and> rej' = [] \<and> obs_buffers (bt_logs bt2) = []" "bt_alive bt1 \<or> acc' @ rej' = []"
    "\<not> bt_alive bt2 \<longrightarrow> bt_ledger bt2 = close (bt_ledger bt1)" "\<not> bs_running (bt_stats bt2)" by blast
  have sub: "(acc @ rej) @ acc' @ rej' = (acc @ acc') @ rej @ rej'"
    using l1(3) l2(8) by (auto simp: batcher_refines_def)
  have "run_obs (es @ es') (new_origin_buffers c) = Some ((acc @ acc') @ rej @ rej', bt_logs bt2)"
    using run_obs_append[OF _ l2(3)] l1(3) sub by (simp add: batcher_refines_def)
  moreover have "events_of (take k arrivals) (es @ es')" using events_of_append[OF l1(2) l2(2)] by simp
  ultimately have "batcher_run c fault arrivals q stats k (es @ es') (acc @ acc') (rej @ rej') (cmds @ cmds') bt2"
    using l1(3,4) l2(4-10)
    by (auto simp: batcher_run_def batcher_refines_def dropped_after_def bs_mark_progress_def bs_running_guard_def)
  moreover have "run_batcher c fault sm em arrivals q l stats = Some bt2" using l1(1) l2(1) by (simp add: run_batcher_def)
  ultimately show ?thesis by blast
qed

section \<open>Properties\<close>

text \<open>
  C17: The batcher thread accounts for every record it takes from its input, for every
  sequence of chunks, barriers and timeouts and for a writer that may disappear at any send: it
  never panics, and the records it received are exactly those it handed to the writer,
  each under its ticket, plus those counted in \<open>dropped_records\<close>.  While the writer lives
  nothing is dropped and, without an injected fault, the whole input is consumed; when the
  writer is gone the ledger is closed, so that every waiting ticket gets an answer.
\<close>

theorem batcher_accounts_for_records:
  assumes "max_batch_records c \<noteq> 0" "bs_dropped_records stats \<le> U64_MAX"
  shows "\<exists>bt k cmds lost. run_batcher c fault sm em arrivals q l stats = Some bt \<and>
           q_sent (bt_commands bt) = q_sent q @ cmds \<and>
           sent_tagged cmds + lost = mset (concat (map arrival_tagged (take k arrivals))) \<and>
           bs_dropped_records (bt_stats bt) = (bs_dropped_records stats + size lost) mod (U64_MAX + 1) \<and>
           (bt_alive bt \<longrightarrow> lost = {#} \<and> (fault = None \<longrightarrow> k = length arrivals)) \<and>
           (\<not> bt_alive bt \<longrightarrow> (\<forall>t. wait t (bt_ledger bt) [] \<noteq> None)) \<and> \<not> bs_running (bt_stats bt)"
proof -
  obtain bt k es acc rej cmds where run: "run_batcher c fault sm em arrivals q l stats = Some bt"
    "batcher_run c fault arrivals q stats k es acc rej cmds bt" using run_batcher_run[OF assms] by blast
  note r = run(2)[unfolded batcher_run_def events_of_def]
  have h: "history_ok (new_origin_buffers c) (concat (map pushed_records es)) (concat (map pushed_tickets es)) (acc @ rej) (bt_logs bt)"
    using run_obs_correct[OF new_origin_buffers_inv[OF assms(1)], of es] r by auto
  let ?lost = "mset (concat (map sub_tagged rej)) + mset (all_tagged (obs_buffers (bt_logs bt)))"
  have "sent_tagged cmds + ?lost = mset (concat (map arrival_tagged (take k arrivals)))"
    using h r by (simp add: history_ok_def new_origin_buffers_def comp_def ac_simps)
  moreover have "bs_dropped_records (bt_stats bt) = (bs_dropped_records stats + size ?lost) mod (U64_MAX + 1)"
    using r dropped_after_sum[OF _ assms(2), of rej] h
    by (simp add: history_ok_def wrapping_add_def mod_simps add.assoc comp_def)
  moreover have "\<forall>t. wait t (close l') [] \<noteq> None" for l' using closed_ledger_answers by blast
  ultimately show ?thesis using run(1) r
    by (intro exI[of _ bt] exI[of _ k] exI[of _ cmds] exI[of _ ?lost]) auto
qed

definition sample_arrival :: "u64 \<Rightarrow> LogRecord list \<Rightarrow> arrival" where
  "sample_arrival t rs =
     \<lparr>ar_message = Some (Logs \<lparr>chunk_origin = origin_a, chunk_records = rs, chunk_commit_seq = t\<rparr>), ar_now = 5, ar_now_ms = 5\<rparr>"

definition barrier_arrival :: arrival where
  "barrier_arrival = \<lparr>ar_message = Some FlushBarrier, ar_now = 6, ar_now_ms = 6\<rparr>"

theorem batcher_accounts_for_records_witness:
  "\<exists>bt k cmds lost. run_batcher sample_config None 0 9 [sample_arrival 3 [sample_log 5, sample_log 6], barrier_arrival]
       \<lparr>q_sent = [], q_accepts = Some 1\<rparr> (new_ledger 0) (new_batcher_stats 0) = Some bt \<and>
     q_sent (bt_commands bt) = cmds \<and>
     sent_tagged cmds + lost =
       mset (concat (map arrival_tagged (take k [sample_arrival 3 [sample_log 5, sample_log 6], barrier_arrival])))"
  using batcher_accounts_for_records[of sample_config "new_batcher_stats 0" None 0 9
      "[sample_arrival 3 [sample_log 5, sample_log 6], barrier_arrival]" "\<lparr>q_sent = [], q_accepts = Some 1\<rparr>" "new_ledger 0"]
  by (auto simp: new_batcher_stats_def default_batcher_stats_def bs_mark_progress_def)

text \<open>
  C26: A flush is a barrier: when the thread has processed a \<open>Flush\<close> message with the writer
  alive, the \<open>Flush\<close> command is the last one in the queue, and the batches in front of it carry
  exactly the records of all chunks received before it.
\<close>

theorem flush_is_a_barrier:
  assumes "max_batch_records c \<noteq> 0" "ar_message b = Some FlushBarrier"
    and "batcher_loop None 0 (as @ [b])
           \<lparr>bt_logs = new_origin_buffers c, bt_commands = q, bt_ledger = l, bt_stats = new_batcher_stats now,
            bt_alive = True\<rparr> = Some bt"
    and "bt_alive bt"
  shows "\<exists>cs. q_sent (bt_commands bt) = q_sent q @ cs @ [Flush] \<and>
           sent_tagged cs = mset (concat (map arrival_tagged as)) \<and> obs_buffers (bt_logs bt) = []"
proof -
  let ?bt0 = "\<lparr>bt_logs = new_origin_buffers c, bt_commands = q, bt_ledger = l, bt_stats = new_batcher_stats now, bt_alive = True\<rparr>"
  have ready: "batcher_ready ?bt0"
    using new_origin_buffers_inv[OF assms(1)] by (simp add: new_batcher_stats_def default_batcher_stats_def bs_mark_progress_def)
  obtain es acc cs where r: "events_of as es" "batcher_refines ?bt0 es acc [] (cs @ [Flush]) bt" "obs_buffers (bt_logs bt) = []"
    using barrier_refines[OF assms(3) ready assms(2,4)] by blast
  have "history_ok (new_origin_buffers c) (concat (map pushed_records es)) (concat (map pushed_tickets es)) acc (bt_logs bt)"
    using run_obs_correct[OF new_origin_buffers_inv[OF assms(1)], of es] r(2) by (auto simp: batcher_refines_def)
  hence "mset (concat (map sub_tagged acc)) = mset (concat (map arrival_tagged as))"
    using r(1,3) by (simp add: history_ok_def events_of_def new_origin_buffers_def)
  thus ?thesis using r(2,3) by (simp add: batcher_refines_def comp_def)
qed

lemma sample_barrier_run:
  "\<exists>bt. batcher_loop None 0 ([sample_arrival 3 [sample_log 5, sample_log 6]] @ [barrier_arrival])
      \<lparr>bt_logs = new_origin_buffers sample_config, bt_commands = \<lparr>q_sent = [], q_accepts = None\<rparr>, bt_ledger = new_ledger 0,
       bt_stats = new_batcher_stats 0, bt_alive = True\<rparr> = Some bt \<and> bt_alive bt"
  by (simp add: sample_arrival_def barrier_arrival_def Let_def handle_def on_chunk_def chunk_is_empty_def
      new_origin_buffers_def obs_push_def new_origin_buffer_def new_batcher_def obs_deadline_def
      push_buffer_def push_def push_loop.simps fill_def saturating_deadline_exact ob_is_empty_def ib_is_empty_def
      on_flush_def flush_buffers_def flush_all_def flush_with_def flush_def consume.simps wb_len_def from_vec_def
      retain_active_def submit_log_batch_def submit_def send_def bs_mark_progress_def)

theorem flush_is_a_barrier_witness:
  "\<exists>bt cs. batcher_loop None 0 ([sample_arrival 3 [sample_log 5, sample_log 6]] @ [barrier_arrival])
      \<lparr>bt_logs = new_origin_buffers sample_config, bt_commands = \<lparr>q_sent = [], q_accepts = None\<rparr>, bt_ledger = new_ledger 0,
       bt_stats = new_batcher_stats 0, bt_alive = True\<rparr> = Some bt \<and> q_sent (bt_commands bt) = cs @ [Flush] \<and>
     sent_tagged cs = {#(3, sample_log 5), (3, sample_log 6)#}"
proof -
  obtain bt where bt: "batcher_loop None 0 ([sample_arrival 3 [sample_log 5, sample_log 6]] @ [barrier_arrival])
      \<lparr>bt_logs = new_origin_buffers sample_config, bt_commands = \<lparr>q_sent = [], q_accepts = None\<rparr>, bt_ledger = new_ledger 0,
       bt_stats = new_batcher_stats 0, bt_alive = True\<rparr> = Some bt" "bt_alive bt" using sample_barrier_run by blast
  have "max_batch_records sample_config \<noteq> 0" "ar_message barrier_arrival = Some FlushBarrier"
    by (simp_all add: barrier_arrival_def)
  from flush_is_a_barrier[OF this bt] bt(1) show ?thesis
    by (auto simp: sample_arrival_def arrival_tagged_def simp del: batcher_loop.simps)
qed

end
