(* ===== verification/Pipeline.thy ===== *)
theory Pipeline
  imports Batcher_Thread
begin

text \<open>
  The storage pipeline put together: the submissions of the batcher thread meet what the
  writer relies on, so the writer's verdict on a ticket is a statement about the records
  of the chunk that carried it.
\<close>

section \<open>Tickets in the submission stream\<close>

definition sub_tickets :: "'a Submission \<Rightarrow> u64 set" where
  "sub_tickets sub = set (map seg_commit_seq (sub_segments sub))"

text \<open>No ticket appears after the submission that completes it.\<close>

fun subs_wf :: "'a Submission list \<Rightarrow> bool" where
  "subs_wf [] = True"
| "subs_wf (s # ss) \<longleftrightarrow>
     well_segmented (sub_segments s) \<and> (\<forall>t \<in> set (sub_completed s). \<forall>s' \<in> set ss. t \<notin> sub_tickets s') \<and> subs_wf ss"

lemma subs_wf_append:
  "subs_wf (ss @ ss') \<longleftrightarrow> subs_wf ss \<and> subs_wf ss' \<and>
     (\<forall>s \<in> set ss. \<forall>t \<in> set (sub_completed s). \<forall>s' \<in> set ss'. t \<notin> sub_tickets s')"
  by (induction ss) auto

lemma new_submission_tickets [simp]:
  "sub_tickets (new_submission orig recs segs) = set (map seg_commit_seq segs)"
  "sub_completed (new_submission orig recs segs) = completed_tickets segs"
  by (simp_all add: sub_tickets_def sub_completed_def)

text \<open>Adding a submission in front, when the tickets it completes have left the queue.\<close>

lemma subs_wf_new:
  assumes "well_segmented segs" "set (map seg_commit_seq segs) \<subseteq> K" "set (completed_tickets segs) \<inter> K' = {}" "K' \<subseteq> K"
    and "subs_wf ss" "\<forall>s \<in> set ss. sub_tickets s \<subseteq> K'"
  shows "subs_wf (new_submission orig recs segs # ss) \<and>
         (\<forall>s \<in> set (new_submission orig recs segs # ss). sub_tickets s \<subseteq> K)"
proof -
  have "\<forall>t \<in> set (completed_tickets segs). \<forall>s' \<in> set ss. t \<notin> sub_tickets s'" using assms(3,6) by blast
  moreover have "\<forall>s \<in> set ss. sub_tickets s \<subseteq> K" using assms(4,6) by blast
  ultimately show ?thesis using assms(1,2,5) by simp
qed

lemma distinct_well_segmented: "distinct (map seg_commit_seq segs) \<Longrightarrow> well_segmented segs"
  by (induction segs) auto

lemma consume_tickets:
  "consume left q = Some (out, q') \<Longrightarrow>
   completed_tickets out @ map fst q' = map fst q \<and> (\<exists>k. map seg_commit_seq out = take k (map fst q))"
proof (induction left q arbitrary: out q' rule: consume.induct)
  case (1 left q)
  show ?case
  proof (cases "left = 0")
    case True
    thus ?thesis using "1.prems" by (auto simp: consume.simps intro: exI[of _ 0])
  next
    case False
    then obtain t n rest where q: "q = (t, n) # rest" using "1.prems" by (cases q) (auto simp: consume.simps)
    let ?n = "min n left" and ?q = "if n - min n left = 0 then rest else (t, n - min n left) # rest"
    obtain out1 where r: "consume (left - ?n) ?q = Some (out1, q')"
      "out = \<lparr>seg_commit_seq = t, seg_records = ?n, seg_complete = (n - ?n = 0)\<rparr> # out1"
      using "1.prems" False unfolding q
      by (subst (asm) consume.simps) (auto simp: Let_def split: if_splits)
    have IH: "completed_tickets out1 @ map fst q' = map fst ?q" "\<exists>k. map seg_commit_seq out1 = take k (map fst ?q)"
      using "1.IH"[OF False q refl refl refl refl refl refl r(1)] by blast+
    show ?thesis
    proof (cases "n \<le> left")
      case True
      then obtain k where "map seg_commit_seq out1 = take k (map fst rest)" using IH(2) by auto
      thus ?thesis using IH(1) r(2) True unfolding q by (auto intro!: exI[of _ "Suc k"])
    next
      case short: False
      hence "out1 = []" "q' = ?q" using r(1) by (auto simp: consume.simps)
      thus ?thesis using r(2) short unfolding q by (auto intro!: exI[of _ "Suc 0"])
    qed
  qed
qed

lemma consume_wf:
  assumes "consume left q = Some (out, q')" "distinct (map fst q)"
  shows "well_segmented out" "set (map seg_commit_seq out) \<subseteq> fst ` set q"
    "completed_tickets out @ map fst q' = map fst q"
proof -
  obtain k where k: "map seg_commit_seq out = take k (map fst q)" "completed_tickets out @ map fst q' = map fst q"
    using consume_tickets[OF assms(1)] by blast
  show "well_segmented out" using k(1) assms(2) by (intro distinct_well_segmented) (metis distinct_take)
  show "set (map seg_commit_seq out) \<subseteq> fst ` set q" unfolding k(1) using set_take_subset[of k "map fst q"] by simp
qed (rule conjunct1[OF consume_tickets[OF assms(1)]])

lemma emit_batches_wf:
  assumes "emit_batches origin batches q = Some (subs, q')" "distinct (map fst q)"
  shows "subs_wf subs \<and> (\<forall>s \<in> set subs. sub_tickets s \<subseteq> fst ` set q)"
  using assms
proof (induction batches arbitrary: q subs)
  case (Cons batch batches)
  obtain segs q1 subs1 where e: "consume (wb_len batch) q = Some (segs, q1)" "emit_batches origin batches q1 = Some (subs1, q')"
    "subs = new_submission origin batch segs # subs1" using Cons.prems(1) by (auto simp: bind_eq_Some_conv)
  note c = consume_wf[OF e(1) Cons.prems(2)]
  have keys: "set (completed_tickets segs) \<inter> fst ` set q1 = {}" "fst ` set q1 \<subseteq> fst ` set q" "distinct (map fst q1)"
    using arg_cong[OF c(3), of distinct] arg_cong[OF c(3), of set] Cons.prems(2) by auto
  have IH: "subs_wf subs1" "\<forall>s \<in> set subs1. sub_tickets s \<subseteq> fst ` set q1" using Cons.IH[OF e(2) keys(3)] by blast+
  show ?case unfolding e(3) by (rule subs_wf_new[OF c(1,2) keys(1,2) IH])
qed simp

lemma push_buffer_wf:
  assumes "push_buffer now origin rs t b = Some (subs, b')" "distinct (held_tickets b @ (if rs = [] then [] else [t]))"
  shows "subs_wf subs \<and> (\<forall>s \<in> set subs. sub_tickets s \<subseteq> set (held_tickets b) \<union> (if rs = [] then {} else {t}))"
proof -
  let ?q = "if rs \<noteq> [] then ob_segments b @ [(t, length rs)] else ob_segments b"
  obtain out bat q' where e: "push now rs (ob_batcher b) = (out, bat)" "emit_batches origin out ?q = Some (subs, q')"
    using assms(1) by (auto simp: push_buffer_def Let_def split: prod.splits if_splits)
  have "distinct (map fst ?q)" using assms(2) by (auto simp: held_tickets_def)
  moreover have "fst ` set ?q = set (held_tickets b) \<union> (if rs = [] then {} else {t})" by (simp add: held_tickets_def)
  ultimately show ?thesis using emit_batches_wf[OF e(2)] by metis
qed

lemma flush_each_wf:
  assumes "flush_each f bs = Some (subs, bs')" "distinct (all_tickets bs)"
  shows "subs_wf subs \<and> (\<forall>s \<in> set subs. sub_tickets s \<subseteq> set (all_tickets bs))"
  using assms
proof (induction bs arbitrary: subs bs')
  case (Cons kb bs)
  obtain k b where kb: "kb = (k, b)" by fastforce
  obtain subs1 bs1 where r: "flush_each f bs = Some (subs1, bs1)" and s: "subs = subs1 \<or>
      (\<exists>recs segs q. consume (wb_len recs) (ob_segments b) = Some (segs, q) \<and> subs = new_submission k recs segs # subs1)"
    using Cons.prems(1) unfolding kb by (fastforce simp: bind_eq_Some_conv split: prod.splits option.splits)
  have d: "distinct (map fst (ob_segments b))" "distinct (all_tickets bs)" "fst ` set (ob_segments b) \<inter> set (all_tickets bs) = {}"
    using Cons.prems(2) unfolding kb by (auto simp: held_tickets_def)
  have IH: "subs_wf subs1" "\<forall>s \<in> set subs1. sub_tickets s \<subseteq> set (all_tickets bs)" using Cons.IH[OF r d(2)] by blast+
  from s show ?case
  proof
    assume "subs = subs1"
    thus ?thesis using IH unfolding kb by auto
  next
    assume "\<exists>recs segs q. consume (wb_len recs) (ob_segments b) = Some (segs, q) \<and> subs = new_submission k recs segs # subs1"
    then obtain recs segs q where c: "consume (wb_len recs) (ob_segments b) = Some (segs, q)"
      "subs = new_submission k recs segs # subs1" by blast
    note w = consume_wf[OF c(1) d(1)]
    have "set (completed_tickets segs) \<subseteq> fst ` set (ob_segments b)" using arg_cong[OF w(3), of set] by auto
    hence "set (completed_tickets segs) \<inter> set (all_tickets bs) = {}" using d(3) by blast
    moreover have "set (map seg_commit_seq segs) \<subseteq> set (all_tickets (kb # bs))"
      using w(2) unfolding kb by (auto simp: held_tickets_def)
    moreover have "set (all_tickets bs) \<subseteq> set (all_tickets (kb # bs))" unfolding kb by auto
    ultimately show ?thesis unfolding c(2) using subs_wf_new[OF w(1) _ _ _ IH] by blast
  qed
qed simp

lemma obs_push_wf:
  assumes "obs_inv s" "distinct (all_tickets (obs_buffers s) @ (if rs = [] then [] else [t]))"
    and "obs_push now origin rs t s = Some (subs, s')"
  shows "subs_wf subs \<and>
         (\<forall>u \<in> set subs. sub_tickets u \<subseteq> set (all_tickets (obs_buffers s)) \<union> (if rs = [] then {} else {t}))"
proof -
  from obs_push_focus[OF assms(1), of origin now rs t]
  obtain ys k b zs where f:
    "obs_buffers s = ys @ (k, b) # zs \<and> origin_eq k origin \<or>
     obs_buffers s = ys \<and> zs = [] \<and> k = origin \<and> held_tagged b = [] \<and> held_tickets b = []"
    "obs_push now origin rs t s =
       map_option (\<lambda>(subs, b'). (subs, s\<lparr>obs_buffers := ys @ (if ob_is_empty b' then [] else [(k, b')]) @ zs\<rparr>))
         (push_buffer now origin rs t b)" by (elim exE conjE)
  obtain b' where p: "push_buffer now origin rs t b = Some (subs, b')"
    using f(2)[unfolded assms(3)] by (cases "push_buffer now origin rs t b") auto
  have held: "set (held_tickets b) \<subseteq> set (all_tickets (obs_buffers s))" using f(1) by auto
  have "distinct (held_tickets b @ (if rs = [] then [] else [t]))"
    using assms(2) f(1) by (auto split: if_splits)
  from push_buffer_wf[OF p this] held show ?thesis by fastforce
qed

lemma obs_step_wf:
  assumes "obs_inv s" "distinct (all_tickets (obs_buffers s) @ pushed_tickets e)" "obs_step e s = Some (subs, s')"
  shows "subs_wf subs \<and> (\<forall>u \<in> set subs. sub_tickets u \<subseteq> set (all_tickets (obs_buffers s)) \<union> set (pushed_tickets e))"
proof (cases e)
  case (PushChunk now origin rs t)
  thus ?thesis using obs_push_wf[OF assms(1), of rs t now origin subs s'] assms(2,3) by (auto split: if_splits)
qed (use assms(2,3) flush_each_wf in \<open>fastforce simp: flush_expired_def flush_all_def flush_with_def\<close>)+

lemma run_obs_wf:
  assumes "obs_inv s" "distinct (all_tickets (obs_buffers s) @ concat (map pushed_tickets es))" "run_obs es s = Some (subs, s')"
  shows "subs_wf subs \<and>
         (\<forall>u \<in> set subs. sub_tickets u \<subseteq> set (all_tickets (obs_buffers s)) \<union> set (concat (map pushed_tickets es)))"
  using assms
proof (induction es arbitrary: s subs)
  case (Cons e es)
  let ?H = "\<lambda>s. all_tickets (obs_buffers s)" and ?rest = "concat (map pushed_tickets es)"
  obtain subs1 s1 subs2 where r: "obs_step e s = Some (subs1, s1)" "run_obs es s1 = Some (subs2, s')" "subs = subs1 @ subs2"
    using Cons.prems(3) by (auto simp: bind_eq_Some_conv)
  have h: "obs_inv s1" "mset (concat (map sub_completed subs1)) + mset (?H s1) = mset (?H s) + mset (pushed_tickets e)"
    using obs_step_correct[OF Cons.prems(1), of e] r(1) by (auto simp: history_ok_def)
  have m: "mset (concat (map sub_completed subs1) @ ?H s1 @ ?rest) = mset (?H s @ pushed_tickets e @ ?rest)"
    using h(2) by simp
  have d: "distinct (concat (map sub_completed subs1) @ ?H s1 @ ?rest)"
    using mset_eq_imp_distinct_iff[OF m] Cons.prems(2) by simp
  have st: "subs_wf subs1" "\<forall>u \<in> set subs1. sub_tickets u \<subseteq> set (?H s) \<union> set (pushed_tickets e)"
    using obs_step_wf[OF Cons.prems(1) _ r(1)] Cons.prems(2) by auto
  have "distinct (?H s1 @ ?rest)" using d by simp
  from Cons.IH[OF h(1) this r(2)] have IH: "subs_wf subs2" "\<forall>u \<in> set subs2. sub_tickets u \<subseteq> set (?H s1) \<union> set ?rest"
    by blast+
  have sub: "set (?H s1) \<subseteq> set (?H s) \<union> set (pushed_tickets e)"
    using mset_eq_setD[OF m] arg_cong[OF h(2), of set_mset] by auto
  have "t \<notin> sub_tickets u'" if "u \<in> set subs1" "t \<in> set (sub_completed u)" "u' \<in> set subs2" for u t u'
  proof -
    have "t \<notin> set (?H s1) \<union> set ?rest" using d that(1,2) by auto
    thus ?thesis using IH(2) that(3) by blast
  qed
  hence "subs_wf subs" using st(1) IH(1) unfolding r(3) subs_wf_append by blast
  moreover have "sub_tickets u \<subseteq> set (?H s) \<union> set (pushed_tickets e) \<union> set ?rest" if "u \<in> set subs" for u
    using that st(2) IH(2) sub unfolding r(3) by (auto simp del: UnE)
  ultimately show ?case by auto
qed simp

section \<open>Submissions as the writer's batches\<close>

lemma sorted_remdups_adj_distinct: "sorted xs \<Longrightarrow> distinct (remdups_adj (xs :: nat list))"
proof (induction xs rule: remdups_adj.induct)
  case (3 x y xs)
  have "set (remdups_adj (y # xs)) = set (y # xs)" by (rule remdups_adj_set)
  thus ?case using 3 by (auto simp del: remdups_adj_set)
qed simp_all

lemma batch_of_wf:
  assumes "sub_ok sub" "well_segmented (sub_segments sub)" "\<forall>t \<in> sub_tickets sub. t \<noteq> 0 \<and> t \<le> U64_MAX"
  shows "batch_wf (batch_of sub)" "set (lwb_commit_seqs (batch_of sub)) = sub_tickets sub"
proof -
  have seqs: "sub_commit_seqs sub = remdups_adj (sort (map seg_commit_seq (sub_segments sub)))" and
    len: "length (segment_tags (sub_segments sub)) = wb_len (sub_records sub)" "wb_len (sub_records sub) \<noteq> 0"
    using assms(1) by (simp_all add: sub_ok_def sub_tags_def)
  show st: "set (lwb_commit_seqs (batch_of sub)) = sub_tickets sub" by (simp add: seqs sub_tickets_def)
  have "sub_segments sub \<noteq> []" using len by auto
  moreover have "distinct (sub_commit_seqs sub)" unfolding seqs by (rule sorted_remdups_adj_distinct) simp
  ultimately show "batch_wf (batch_of sub)" using len assms(2,3) st
    by (auto simp: batch_wf_def sub_tickets_def wb_is_empty_def wb_len_def list_all_iff)
qed

lemma stream_of_subs:
  assumes "subs_wf subs" "\<forall>u \<in> set subs. sub_ok u \<and> (\<forall>t \<in> sub_tickets u. t \<noteq> 0 \<and> t \<le> U64_MAX)"
  shows "stream_wf (map batch_of subs)"
  using assms
proof (induction subs)
  case (Cons u us)
  have w: "set (lwb_commit_seqs (batch_of u')) = sub_tickets u'" if "u' \<in> set us" for u'
  proof -
    have "subs_wf us \<Longrightarrow> u' \<in> set us \<Longrightarrow> well_segmented (sub_segments u')" for us :: "LogRecord Submission list"
      by (induction us) auto
    thus ?thesis using batch_of_wf(2)[of u'] Cons.prems that by auto
  qed
  show ?case using Cons batch_of_wf(1)[of u] w by (auto simp: sub_completed_def)
qed simp

section \<open>The records of a ticket\<close>

definition committed_records :: "LogWriteBatch list \<Rightarrow> bool list list \<Rightarrow> u64 \<Rightarrow> LogRecord list" where
  "committed_records bs oks t =
     concat (map2 (\<lambda>b ok. map fst (filter (\<lambda>p. snd p = t) (kept_rows (batch_rows b) ok))) bs oks)"

lemma kept_all_of_ticket:
  assumes "length ok = wb_len (lwb_records b)" "dropped_count b ok t = 0"
  shows "filter (\<lambda>p. snd p = t) (kept_rows (batch_rows b) ok) = filter (\<lambda>p. snd p = t) (batch_rows b)"
proof -
  have "length ok = length rows \<Longrightarrow> filter (\<lambda>p. snd p = t) (dropped_rows rows ok) = [] \<Longrightarrow>
      filter (\<lambda>p. snd p = t) (kept_rows rows ok) = filter (\<lambda>p. snd p = t) rows" for rows :: "(LogRecord \<times> u64) list"
    by (induction ok rows rule: list_induct2) (simp_all add: kept_rows_def dropped_rows_def split: if_splits)
  thus ?thesis using assms by (simp add: dropped_count_def)
qed

lemma committed_all:
  "oks_for bs oks \<Longrightarrow> total_dropped bs oks t = 0 \<Longrightarrow>
   committed_records bs oks t =
     concat (map (\<lambda>b. map fst (filter (\<lambda>p. snd p = t) (batch_rows b))) (take (length oks) bs))"
proof (induction bs arbitrary: oks)
  case (Cons b bs)
  show ?case
  proof (cases oks)
    case (Cons ok oks')
    thus ?thesis using Cons.IH[of oks'] Cons.prems by (simp add: committed_records_def kept_all_of_ticket)
  qed (simp add: committed_records_def)
qed (simp add: committed_records_def)

lemma filter_zip_swap:
  "map fst (filter (\<lambda>p. snd p = t) (zip xs ts)) = map snd (filter (\<lambda>p. fst p = t) (zip ts xs))"
proof (induction xs arbitrary: ts)
  case (Cons x xs)
  thus ?case by (cases ts) auto
qed simp

lemma batch_of_rows:
  assumes "sub_ok u"
  shows "map fst (filter (\<lambda>p. snd p = t) (batch_rows (batch_of u))) = map snd (filter (\<lambda>p. fst p = t) (sub_tagged u))"
proof -
  have "length (segment_tags (sub_segments u)) = length (wb_records (sub_records u))"
    using assms by (simp add: sub_ok_def sub_tags_def wb_len_def)
  hence "batch_rows (batch_of u) = zip (wb_records (sub_records u)) (sub_tags u)"
    by (simp add: batch_rows_def batch_tickets_def sub_tags_def zip_append2 into_records_def flip: segment_tags_def)
  thus ?thesis by (simp add: filter_zip_swap sub_tagged_def)
qed

lemma tagged_ticket: "x \<in> set (arrival_tagged a) \<Longrightarrow> fst x \<in> set (arrival_tickets a)"
proof (cases "ar_message a")
  case (Some m)
  thus "x \<in> set (arrival_tagged a) \<Longrightarrow> ?thesis"
    by (cases m) (auto simp: arrival_tagged_def arrival_tickets_def)
qed (simp add: arrival_tagged_def)

text \<open>With one non-empty chunk per ticket, the records received under a ticket are those of its chunk.\<close>

lemma arrivals_of_ticket:
  assumes "distinct (concat (map arrival_tickets as))" "a \<in> set as" "ar_message a = Some (Logs c)" "chunk_records c \<noteq> []"
  shows "map snd (filter (\<lambda>p. fst p = chunk_commit_seq c) (concat (map arrival_tagged as))) = chunk_records c"
  using assms(1,2)
proof (induction as)
  case (Cons x as)
  let ?t = "chunk_commit_seq c"
  let ?F = "\<lambda>xs. map snd (filter (\<lambda>p. fst p = ?t) xs)"
  have none: "?F (concat (map arrival_tagged as')) = []" if n: "?t \<notin> set (concat (map arrival_tickets as'))" for as'
  proof -
    have "fst x \<noteq> ?t" if x: "x \<in> set (concat (map arrival_tagged as'))" for x
    proof -
      obtain a' where "a' \<in> set as'" "x \<in> set (arrival_tagged a')" using x by auto
      hence "fst x \<in> set (concat (map arrival_tickets as'))" using tagged_ticket[of x a'] by auto
      thus ?thesis using n by metis
    qed
    thus ?thesis by (simp add: filter_empty_conv)
  qed
  have at: "arrival_tickets a = [?t]" "?F (arrival_tagged a) = chunk_records c"
    using assms(3,4) by (simp_all add: arrival_tickets_def arrival_tagged_def filter_map comp_def)
  show ?case
  proof (cases "x = a")
    case True
    hence "?t \<notin> set (concat (map arrival_tickets as))" using Cons.prems(1) at(1) by simp
    thus ?thesis using none at(2) True by simp
  next
    case False
    hence "a \<in> set as" using Cons.prems(2) by simp
    hence "?t \<in> set (concat (map arrival_tickets as))" using at(1) by force
    hence "?t \<notin> set (concat (map arrival_tickets [x]))" using Cons.prems(1) by auto
    from none[OF this] show ?thesis using Cons \<open>a \<in> set as\<close> by simp
  qed
qed simp

lemma sub_tagged_tickets: "p \<in> set (sub_tagged v) \<Longrightarrow> fst p \<in> sub_tickets v"
proof -
  assume "p \<in> set (sub_tagged v)"
  hence "(fst p, snd p) \<in> set (zip (segment_tags (sub_segments v)) (wb_records (sub_records v)))"
    by (simp add: sub_tagged_def sub_tags_def)
  hence "fst p \<in> set (segment_tags (sub_segments v))" by (rule set_zip_leftD)
  thus ?thesis by (auto simp: segment_tags_def sub_tickets_def)
qed

text \<open>A ticket completed by a submission has no record after it: not in a later submission, not in
  the buffers.\<close>

lemma completed_ticket_records:
  assumes "max_batch_records c \<noteq> 0" "run_obs es (new_origin_buffers c) = Some (ex @ rest, logs)"
    and "distinct (concat (map pushed_tickets es))" "u \<in> set ex" "t \<in> set (sub_completed u)"
  shows "mset (map snd (filter (\<lambda>p. fst p = t) (concat (map sub_tagged ex)))) =
         mset (map snd (filter (\<lambda>p. fst p = t) (concat (map pushed_records es))))"
    and "t \<in> set (concat (map pushed_tickets es))"
proof -
  note inv = new_origin_buffers_inv[OF assms(1)]
  have h: "history_ok (new_origin_buffers c) (concat (map pushed_records es)) (concat (map pushed_tickets es)) (ex @ rest) logs"
    using run_obs_correct[OF inv, of es] assms(2) by auto
  have comp: "mset (concat (map sub_completed (ex @ rest))) + mset (all_tickets (obs_buffers logs)) =
      mset (concat (map pushed_tickets es))" and
    tagged: "mset (concat (map sub_tagged (ex @ rest))) + mset (all_tagged (obs_buffers logs)) =
      mset (concat (map pushed_records es))"
    using h by (simp_all add: history_ok_def new_origin_buffers_def)
  have tin: "t \<in> set (concat (map sub_completed ex))" using assms(4,5) by auto
  have "t \<in># mset (concat (map sub_completed (ex @ rest))) + mset (all_tickets (obs_buffers logs))" using tin by simp
  thus "t \<in> set (concat (map pushed_tickets es))" unfolding comp by (simp only: set_mset_mset)
  have "distinct (concat (map sub_completed (ex @ rest)) @ all_tickets (obs_buffers logs))"
    using mset_eq_imp_distinct_iff[of _ "concat (map pushed_tickets es)"] comp assms(3) by (metis mset_append)
  hence "t \<notin> set (all_tickets (obs_buffers logs))" using tin by auto
  moreover have "bufs_ok (obs_config logs) (obs_buffers logs)" using h by (auto simp: history_ok_def obs_inv_def)
  ultimately have "t \<notin> fst ` set (all_tagged (obs_buffers logs))" using all_tickets_set by blast
  hence held: "filter (\<lambda>p. fst p = t) (all_tagged (obs_buffers logs)) = []"
    by (metis (mono_tags, lifting) filter_empty_conv image_eqI)
  have wf: "subs_wf (ex @ rest)" "\<forall>v \<in> set (ex @ rest). sub_ok v"
    using run_obs_wf[OF inv _ assms(2)] assms(3) h by (simp_all add: new_origin_buffers_def history_ok_def)
  have "t \<notin> sub_tickets v" if "v \<in> set rest" for v
    using wf(1) assms(4,5) that unfolding subs_wf_append by blast
  hence "fst p \<noteq> t" if "v \<in> set rest" "p \<in> set (sub_tagged v)" for v p using sub_tagged_tickets[OF that(2)] that(1) by metis
  hence "filter (\<lambda>p. fst p = t) (concat (map sub_tagged rest)) = []" by (auto simp: filter_empty_conv)
  from arg_cong[OF this, of mset] arg_cong[OF held, of mset]
  have none: "filter_mset (\<lambda>p. fst p = t) (mset (concat (map sub_tagged rest))) = {#}"
    "filter_mset (\<lambda>p. fst p = t) (mset (all_tagged (obs_buffers logs))) = {#}" by (simp_all only: mset_filter mset.simps)
  have "filter_mset (\<lambda>p. fst p = t) (mset (concat (map sub_tagged ex))) =
        filter_mset (\<lambda>p. fst p = t) (mset (concat (map pushed_records es)))"
    unfolding tagged[symmetric] by (simp only: map_append concat_append mset_append filter_union_mset none add_0_right)
  thus "mset (map snd (filter (\<lambda>p. fst p = t) (concat (map sub_tagged ex)))) =
         mset (map snd (filter (\<lambda>p. fst p = t) (concat (map pushed_records es))))"
    by (simp only: mset_map mset_filter)
qed

section \<open>From the batcher to the database\<close>

abbreviation tickets_ok :: "arrival list \<Rightarrow> bool" where
  "tickets_ok as \<equiv> distinct (concat (map arrival_tickets as)) \<and>
     list_all (\<lambda>t. t \<noteq> 0 \<and> t \<le> U64_MAX) (concat (map arrival_tickets as))"

lemma tickets_ok_take: "tickets_ok as \<Longrightarrow> tickets_ok (take k as)"
proof -
  have "concat (map arrival_tickets as) =
      concat (map arrival_tickets (take k as)) @ concat (map arrival_tickets (drop k as))"
    by (simp flip: concat_append map_append)
  thus "tickets_ok as \<Longrightarrow> ?thesis" by simp
qed

lemma submissions_fit_writer:
  assumes "max_batch_records c \<noteq> 0" "tickets_ok as" "events_of as es" "run_obs es (new_origin_buffers c) = Some (subs, logs)"
  shows "stream_wf (map batch_of subs)" "\<forall>u \<in> set subs. sub_ok u"
proof -
  note inv = new_origin_buffers_inv[OF assms(1)]
  have tk: "concat (map pushed_tickets es) = concat (map arrival_tickets as)" using assms(3) by (simp add: events_of_def)
  show ok: "\<forall>u \<in> set subs. sub_ok u" using run_obs_correct[OF inv, of es] assms(4) by (auto simp: history_ok_def)
  have w: "subs_wf subs" "\<forall>u \<in> set subs. sub_tickets u \<subseteq> set (concat (map arrival_tickets as))"
    using run_obs_wf[OF inv _ assms(4)] assms(2) tk by (simp_all add: new_origin_buffers_def)
  show "stream_wf (map batch_of subs)"
    by (rule stream_of_subs[OF w(1)]) (use ok w(2) assms(2)[unfolded list_all_iff] in blast)
qed

lemma stream_wf_prefix: "stream_wf (bs @ bs') \<Longrightarrow> stream_wf bs"
  by (induction bs) auto

lemma prefix_map_take: "prefix bs (map f xs) \<Longrightarrow> bs = map f (take (length bs) xs)"
  by (auto elim!: prefixE simp: take_map[symmetric])

lemma executed_records:
  assumes "max_batch_records c \<noteq> 0" "tickets_ok as" "events_of as es" "run_obs es (new_origin_buffers c) = Some (subs, logs)"
    and "bs = map batch_of (take n subs)" "oks_for bs oks" "total_dropped bs oks t = 0"
    and "b \<in> set (take (length oks) bs)" "t \<in> batch_completes b"
  shows "mset (committed_records bs oks t) = mset (map snd (filter (\<lambda>p. fst p = t) (concat (map arrival_tagged as))))"
    and "t \<in> set (concat (map arrival_tickets as))"
proof -
  let ?ex = "take (min (length oks) n) subs" and ?rest = "drop (min (length oks) n) subs"
  have tk: "take (length oks) bs = map batch_of ?ex" by (simp add: assms(5) take_map min.commute)
  have ev: "concat (map pushed_tickets es) = concat (map arrival_tickets as)"
    "concat (map pushed_records es) = concat (map arrival_tagged as)" using assms(3) by (simp_all add: events_of_def)
  obtain u where u: "u \<in> set ?ex" "t \<in> set (sub_completed u)"
    using assms(8,9) unfolding tk by (auto simp: sub_completed_def)
  have run: "run_obs es (new_origin_buffers c) = Some (?ex @ ?rest, logs)" using assms(4) by simp
  note c = completed_ticket_records[OF assms(1) run _ u]
  have d: "distinct (concat (map pushed_tickets es))" using assms(2) ev(1) by simp
  show "t \<in> set (concat (map arrival_tickets as))" using c(2)[OF d] ev(1) by simp
  have "\<forall>v \<in> set ?ex. sub_ok v" using submissions_fit_writer(2)[OF assms(1-4)] by (auto dest: in_set_takeD)
  hence "map (\<lambda>b. map fst (filter (\<lambda>p. snd p = t) (batch_rows b))) (map batch_of ?ex) =
         map (\<lambda>v. map snd (filter (\<lambda>p. fst p = t) (sub_tagged v))) ?ex"
    using batch_of_rows by simp
  hence "committed_records bs oks t = map snd (filter (\<lambda>p. fst p = t) (concat (map sub_tagged ?ex)))"
    unfolding committed_all[OF assms(6,7)] tk by (simp only: filter_concat map_concat map_map comp_def)
  thus "mset (committed_records bs oks t) = mset (map snd (filter (\<lambda>p. fst p = t) (concat (map arrival_tagged as))))"
    using c(1)[OF d] ev(2) by simp
qed

lemma ticket_in_take:
  assumes "distinct (concat (map arrival_tickets as))" "a \<in> set as" "t \<in> set (arrival_tickets a)"
    and "t \<in> set (concat (map arrival_tickets (take k as)))"
  shows "a \<in> set (take k as)"
proof (rule ccontr)
  assume "a \<notin> set (take k as)"
  moreover have "a \<in> set (take k as) \<union> set (drop k as)" using assms(2) by (simp flip: set_append)
  ultimately have "a \<in> set (drop k as)" by blast
  hence "t \<in> set (concat (map arrival_tickets (drop k as)))" using assms(3) by auto
  moreover have "distinct (concat (map arrival_tickets (take k as)) @ concat (map arrival_tickets (drop k as)))"
    using assms(1) by (simp flip: concat_append map_append)
  ultimately show False using assms(4) by (metis disjoint_iff distinct_append)
qed

end
