(* ===== verification/Rust_Bytes.thy ===== *)
theory Rust_Bytes
  imports Core_Model
begin

text \<open>
  Standard-library conversions between numbers, bytes and text that the ingress and the
  configuration code use: decimal \<open>Display\<close> of integers, \<open>str::from_utf8\<close> and
  \<open>String::from_utf8_lossy\<close>.  The last two follow the decoder of \<open>core::str\<close>: one valid
  character, or one maximal invalid prefix, at a time.
\<close>

section \<open>Decimal display\<close>

fun show_nat :: "nat \<Rightarrow> string" where
  "show_nat n = (if n < 10 then [char_of (48 + n)] else show_nat (n div 10) @ [char_of (48 + n mod 10)])"

declare show_nat.simps [simp del]

definition show_int :: "int \<Rightarrow> string" where
  "show_int n = (if n < 0 then CHR ''-'' # show_nat (nat (- n)) else show_nat (nat n))"

definition show_bool :: "bool \<Rightarrow> string" where
  "show_bool b = (if b then ''true'' else ''false'')"

lemma digit_char: "d < 10 \<Longrightarrow> is_ascii_digit (char_of (48 + d)) \<and> digit_value (char_of (48 + d)) = d"
  by (simp add: is_ascii_digit_def digit_value_def less_eq_char_def)

lemma show_nat_digits: "show_nat n \<noteq> [] \<and> list_all is_ascii_digit (show_nat n) \<and> fold (\<lambda>c m. 10 * m + digit_value c) (show_nat n) 0 = n"
proof (induction n rule: show_nat.induct)
  case (1 n)
  show ?case
  proof (cases "n < 10")
    case True
    thus ?thesis using digit_char[of n] by (simp add: show_nat.simps[of n])
  next
    case False
    have "n mod 10 < 10" by simp
    moreover have "10 * (n div 10) + n mod 10 = n" by simp
    ultimately show ?thesis using 1 False digit_char[of "n mod 10"] by (simp add: show_nat.simps[of n])
  qed
qed

lemma parse_show_nat: "n \<le> U64_MAX \<Longrightarrow> parse_u64 (show_nat n) = Some n"
proof -
  assume n: "n \<le> U64_MAX"
  obtain c cs where s: "show_nat n = c # cs" using show_nat_digits[of n] by (cases "show_nat n") auto
  hence "is_ascii_digit c" using show_nat_digits[of n] by simp
  hence "c \<noteq> CHR ''+''" by (auto simp: is_ascii_digit_def less_eq_char_def)
  hence "parse_u64 (show_nat n) = (case parse_digits (show_nat n) of Some k \<Rightarrow> if k \<le> U64_MAX then Some k else None | None \<Rightarrow> None)"
    using s by (simp add: parse_u64_def)
  thus ?thesis using show_nat_digits[of n] n by (simp add: parse_digits_def)
qed

section \<open>UTF-8 decoding\<close>

definition safe_get :: "u8 list \<Rightarrow> nat \<Rightarrow> u8" where
  "safe_get bs i = (if i < length bs then bs ! i else 0)"

definition is_cont_byte :: "u8 \<Rightarrow> bool" where
  "is_cont_byte b \<longleftrightarrow> 0x80 \<le> b \<and> b \<le> 0xBF"

definition utf8_char_width :: "u8 \<Rightarrow> nat" where
  "utf8_char_width b =
     (if b < 0x80 then 1 else if 0xC2 \<le> b \<and> b \<le> 0xDF then 2 else if 0xE0 \<le> b \<and> b \<le> 0xEF then 3
      else if 0xF0 \<le> b \<and> b \<le> 0xF4 then 4 else 0)"

text \<open>The second byte excludes overlong forms, surrogates and values past U+10FFFF.\<close>

definition second_byte_ok :: "u8 \<Rightarrow> u8 \<Rightarrow> bool" where
  "second_byte_ok b c \<longleftrightarrow>
     (if b = 0xE0 then 0xA0 \<le> c \<and> c \<le> 0xBF else if b = 0xED then 0x80 \<le> c \<and> c \<le> 0x9F
      else if b = 0xF0 then 0x90 \<le> c \<and> c \<le> 0xBF else if b = 0xF4 then 0x80 \<le> c \<and> c \<le> 0x8F
      else is_cont_byte c)"

text \<open>Whether a character starts here, and how many bytes it, or the invalid prefix, takes.\<close>

definition utf8_next :: "u8 \<Rightarrow> u8 list \<Rightarrow> bool \<times> nat" where
  "utf8_next b rest =
     (let w = utf8_char_width b
      in if w = 1 then (True, 1)
         else if w = 0 \<or> \<not> second_byte_ok b (safe_get rest 0) then (False, 1)
         else if w = 2 then (True, 2)
         else if \<not> is_cont_byte (safe_get rest 1) then (False, 2)
         else if w = 3 then (True, 3)
         else if \<not> is_cont_byte (safe_get rest 2) then (False, 3)
         else (True, 4))"

lemma utf8_next_consumes: "0 < snd (utf8_next b rest)"
  by (simp add: utf8_next_def Let_def)

function from_utf8 :: "u8 list \<Rightarrow> bool" where
  "from_utf8 [] = True"
| "from_utf8 (b # rest) =
     (case utf8_next b rest of (ok, n) \<Rightarrow> ok \<and> from_utf8 (drop n (b # rest)))"
  by pat_completeness auto
termination
  by (relation "measure length", simp) (use utf8_next_consumes in \<open>auto simp: Suc_le_eq dest!: arg_cong[of _ _ snd]\<close>)

function from_utf8_lossy :: "u8 list \<Rightarrow> string" where
  "from_utf8_lossy [] = []"
| "from_utf8_lossy (b # rest) =
     (case utf8_next b rest of
        (ok, n) \<Rightarrow> (if ok then map char_of (take n (b # rest)) else [CHR 0xEF, CHR 0xBF, CHR 0xBD]) @
                   from_utf8_lossy (drop n (b # rest)))"
  by pat_completeness auto
termination
  by (relation "measure length", simp) (use utf8_next_consumes in \<open>auto simp: Suc_le_eq dest!: arg_cong[of _ _ snd]\<close>)

text \<open>Valid text is decoded unchanged.\<close>

lemma lossy_valid: "from_utf8 bs \<Longrightarrow> from_utf8_lossy bs = map char_of bs"
proof (induction bs rule: from_utf8.induct)
  case (2 b rest)
  obtain ok n where nx: "utf8_next b rest = (ok, n)" by fastforce
  hence "ok" "from_utf8_lossy (drop n (b # rest)) = map char_of (drop n (b # rest))" using 2 by auto
  thus ?case using nx by (simp flip: map_append)
qed simp

end
