(* ===== verification/Watchdog.thy ===== *)
theory Watchdog
  imports Storage_Stats
begin

text \<open>
  The watchdog (\<open>otel-sqlite-runtime/src/watchdog.rs\<close>) and its configuration
  (\<open>config.rs\<close>): the verdict over one sample, the observation loop with its halt signal and
  the control handle.

  An \<open>f32\<close> is kept as its 32 bits; the only arithmetic the code does with one, the queue
  pressure threshold, is computed as IEEE single precision with round-half-to-even.  The
  loop runs over the list of its ticks, each with the sample taken and the state of the
  shutdown channel at its three looks at it.  Metrics, log lines and the text of a reason
  are omitted.
\<close>

unbundle bit_operations_syntax

section \<open>Single-precision numbers\<close>

type_synonym f32 = "32 word"

definition f32_exponent :: "f32 \<Rightarrow> nat" where
  "f32_exponent x = unat (drop_bit 23 x AND 255)"

definition f32_fraction :: "f32 \<Rightarrow> nat" where
  "f32_fraction x = unat (x AND 8388607)"

definition f32_negative :: "f32 \<Rightarrow> bool" where
  "f32_negative x \<longleftrightarrow> bit x 31"

definition f32_is_finite :: "f32 \<Rightarrow> bool" where
  "f32_is_finite x \<longleftrightarrow> f32_exponent x \<noteq> 255"

text \<open>The magnitude of a finite number is \<open>m * 2 ^ e\<close>, as the pair \<open>(m, e)\<close>.\<close>

type_synonym binary = "nat \<times> int"

definition f32_magnitude :: "f32 \<Rightarrow> binary" where
  "f32_magnitude x =
     (if f32_exponent x = 0 then (f32_fraction x, - 149)
      else (8388608 + f32_fraction x, int (f32_exponent x) - 150))"

fun bit_length :: "nat \<Rightarrow> nat" where
  "bit_length n = (if n = 0 then 0 else Suc (bit_length (n div 2)))"

declare bit_length.simps [simp del]

definition round_half_even :: "nat \<Rightarrow> nat \<Rightarrow> nat" where
  "round_half_even n k =
     (let q = n div 2 ^ k; r = n mod 2 ^ k; half = 2 ^ k
      in if 2 * r > half \<or> (2 * r = half \<and> odd q) then q + 1 else q)"

text \<open>Rounding to 24 significant bits, with the exponent of the subnormals as a floor.\<close>

definition f32_round :: "binary \<Rightarrow> binary" where
  "f32_round b =
     (case b of (m, e) \<Rightarrow>
        let k = nat (max (int (bit_length m) - 24) (max (- 149 - e) 0))
        in (round_half_even m k, e + int k))"

text \<open>\<open>as usize\<close>: truncation towards zero, saturating.\<close>

definition binary_floor :: "binary \<Rightarrow> nat" where
  "binary_floor b = (case b of (m, e) \<Rightarrow> if e \<ge> 0 then m * 2 ^ nat e else m div 2 ^ nat (- e))"

definition f32_le_zero :: "f32 \<Rightarrow> bool" where
  "f32_le_zero x \<longleftrightarrow> f32_negative x \<or> fst (f32_magnitude x) = 0"

definition F32_ONE :: f32 where
  "F32_ONE = 0x3F800000"

text \<open>Positive single-precision numbers are ordered as their bits.\<close>

definition f32_gt_one :: "f32 \<Rightarrow> bool" where
  "f32_gt_one x \<longleftrightarrow> \<not> f32_negative x \<and> x > F32_ONE"

section \<open>Configuration\<close>

record WatchdogConfig =
  wc_tick_interval :: duration
  wc_degraded_after :: duration
  wc_unhealthy_after :: duration
  wc_ack_stall_after :: duration
  wc_maintenance_stall_after :: duration
  wc_queue_pressure_ratio :: f32
  wc_halt_on_unhealthy :: bool

definition default_watchdog_config :: WatchdogConfig where
  "default_watchdog_config =
     \<lparr>wc_tick_interval = from_secs 5, wc_degraded_after = from_secs 30, wc_unhealthy_after = from_secs 120,
      wc_ack_stall_after = from_secs 60, wc_maintenance_stall_after = from_secs (30 * 60),
      wc_queue_pressure_ratio = 0x3F400000, wc_halt_on_unhealthy = True\<rparr>"

datatype WatchdogConfigError =
    ZeroDuration string
  | DegradedNotBeforeUnhealthy duration duration
  | MaintenanceStallBeforeUnhealthy duration duration
  | InvalidQueuePressureRatio f32

fun check_positive :: "(string \<times> duration) list \<Rightarrow> WatchdogConfigError + unit" where
  "check_positive [] = Inr ()"
| "check_positive ((name, value) # rest) = (if value = 0 then Inl (ZeroDuration name) else check_positive rest)"

definition validate :: "WatchdogConfig \<Rightarrow> WatchdogConfigError + unit" where
  "validate c =
     try_bind (check_positive
         [(''degraded_after'', wc_degraded_after c), (''unhealthy_after'', wc_unhealthy_after c),
          (''ack_stall_after'', wc_ack_stall_after c), (''maintenance_stall_after'', wc_maintenance_stall_after c)])
       (\<lambda>_. if wc_degraded_after c \<ge> wc_unhealthy_after c
            then Inl (DegradedNotBeforeUnhealthy (wc_degraded_after c) (wc_unhealthy_after c))
            else if wc_maintenance_stall_after c < wc_unhealthy_after c
            then Inl (MaintenanceStallBeforeUnhealthy (wc_maintenance_stall_after c) (wc_unhealthy_after c))
            else let ratio = wc_queue_pressure_ratio c
                 in if \<not> f32_is_finite ratio \<or> f32_le_zero ratio \<or> f32_gt_one ratio
                    then Inl (InvalidQueuePressureRatio ratio)
                    else Inr ())"

section \<open>The verdict\<close>

datatype HealthState = Healthy | Degraded | Unhealthy

fun as_metric :: "HealthState \<Rightarrow> nat" where
  "as_metric Healthy = 0"
| "as_metric Degraded = 1"
| "as_metric Unhealthy = 2"

datatype Reason =
    WriterNotRunning
  | BatcherNotRunning
  | MaintenanceRunning u64 usize
  | MaintenanceStalled u64 u64
  | MaintenanceAckStall u64 u64 u64
  | MaintenanceSaturated u64 usize usize
  | AckStall u64 u64
  | Idle
  | Stalled usize u64 u64
  | Draining usize u64
  | Saturated usize usize
  | Progressing usize

record Evaluation =
  ev_state :: HealthState
  ev_reason :: Reason

definition verdict_of :: "HealthState \<Rightarrow> Reason \<Rightarrow> Evaluation" where
  "verdict_of st reason = \<lparr>ev_state = st, ev_reason = reason\<rparr>"

definition queue_pressure_threshold :: "usize \<Rightarrow> f32 \<Rightarrow> usize" where
  "queue_pressure_threshold capacity ratio =
     (if capacity = 0 then USIZE_MAX
      else let clamped = (if \<not> f32_is_finite ratio then f32_magnitude F32_ONE
                          else if f32_le_zero ratio then (0, 0)
                          else if f32_gt_one ratio then f32_magnitude F32_ONE
                          else f32_magnitude ratio);
               (cm, ce) = f32_round (capacity, 0);
               threshold = min (binary_floor (f32_round (cm * fst clamped, ce + snd clamped))) USIZE_MAX
           in max threshold 1)"

definition evaluate :: "PipelineSample \<Rightarrow> WatchdogConfig \<Rightarrow> Evaluation" where
  "evaluate s c =
     (if \<not> writer_running s then verdict_of Unhealthy WriterNotRunning
      else if \<not> batcher_running s then verdict_of Unhealthy BatcherNotRunning
      else if maintenance_in_progress s then
        (if from_millis (maintenance_elapsed_ms s) \<ge> wc_maintenance_stall_after c
         then verdict_of Unhealthy (MaintenanceStalled (maintenance_elapsed_ms s)
                (as_millis (wc_maintenance_stall_after c) mod (U64_MAX + 1)))
         else if outstanding_tickets_count s > 0 \<and> from_millis (watermark_idle_ms s) \<ge> wc_ack_stall_after c
         then verdict_of Degraded (MaintenanceAckStall (maintenance_elapsed_ms s) (outstanding_tickets_count s)
                (watermark_idle_ms s))
         else if queue_depth s \<ge> queue_pressure_threshold (queue_capacity s) (wc_queue_pressure_ratio c)
         then verdict_of Degraded (MaintenanceSaturated (maintenance_elapsed_ms s) (queue_depth s) (queue_capacity s))
         else verdict_of Healthy (MaintenanceRunning (maintenance_elapsed_ms s) (pending_work s)))
      else let pending = pending_work s
           in if outstanding_tickets_count s > 0 \<and> pending = 0 \<and> from_millis (watermark_idle_ms s) \<ge> wc_ack_stall_after c
              then verdict_of Unhealthy (AckStall (outstanding_tickets_count s) (watermark_idle_ms s))
              else if pending = 0 then verdict_of Healthy Idle
              else let writer_age = from_millis (writer_idle_ms s); batcher_age = from_millis (batcher_idle_ms s)
                   in if writer_age \<ge> wc_unhealthy_after c \<or> batcher_age \<ge> wc_unhealthy_after c
                      then verdict_of Unhealthy (Stalled pending (writer_idle_ms s) (batcher_idle_ms s))
                      else if writer_age \<ge> wc_degraded_after c \<or> batcher_age \<ge> wc_degraded_after c
                      then verdict_of Degraded (Draining pending (max (writer_idle_ms s) (batcher_idle_ms s)))
                      else if queue_depth s \<ge> queue_pressure_threshold (queue_capacity s) (wc_queue_pressure_ratio c)
                      then verdict_of Degraded (Saturated (queue_depth s) (queue_capacity s))
                      else verdict_of Healthy (Progressing pending))"

section \<open>The observer\<close>

definition MIN_TICK_INTERVAL :: duration where
  "MIN_TICK_INTERVAL = from_millis 10"

definition normalized_tick_interval :: "duration \<Rightarrow> duration" where
  "normalized_tick_interval interval = max interval MIN_TICK_INTERVAL"

text \<open>\<open>Watchdog::new\<close>: the validated and normalized configuration.\<close>

definition new_watchdog :: "WatchdogConfig \<Rightarrow> WatchdogConfigError + WatchdogConfig" where
  "new_watchdog c =
     try_bind (validate c) (\<lambda>_. Inr (c\<lparr>wc_tick_interval := normalized_tick_interval (wc_tick_interval c)\<rparr>))"

record watchdog_tick =
  wd_shutdown_before :: bool
  wd_sample :: PipelineSample
  wd_shutdown_at_verdict :: bool
  wd_receiver_gone :: bool
  wd_woken_by_shutdown :: bool

text \<open>What the thread has done: the halt signals sent, the flag of the handle, the health
  gauge, and whether the loop has ended.\<close>

record watchdog =
  wd_halts :: nat
  wd_halted :: bool
  wd_gauge :: nat
  wd_previous :: HealthState
  wd_stopped :: bool

fun watchdog_loop :: "WatchdogConfig \<Rightarrow> watchdog_tick list \<Rightarrow> watchdog \<Rightarrow> watchdog" where
  "watchdog_loop c [] wd = wd"
| "watchdog_loop c (t # ts) wd =
     (if wd_shutdown_before t then wd\<lparr>wd_stopped := True\<rparr>
      else let e = evaluate (wd_sample t) c;
               wd1 = wd\<lparr>wd_gauge := as_metric (ev_state e), wd_previous := ev_state e\<rparr>
           in if ev_state e = Unhealthy \<and> wc_halt_on_unhealthy c
              then (if wd_shutdown_at_verdict t then wd1\<lparr>wd_stopped := True\<rparr>
                    else if wd_receiver_gone t then wd1\<lparr>wd_stopped := True\<rparr>
                    else wd1\<lparr>wd_halts := Suc (wd_halts wd1), wd_halted := True, wd_stopped := True\<rparr>)
              else if wd_woken_by_shutdown t then wd1\<lparr>wd_stopped := True\<rparr>
              else watchdog_loop c ts wd1)"

definition run_watchdog :: "WatchdogConfig \<Rightarrow> watchdog_tick list \<Rightarrow> watchdog" where
  "run_watchdog c ts =
     (let wd = watchdog_loop c ts
                 \<lparr>wd_halts = 0, wd_halted = False, wd_gauge = 0, wd_previous = Healthy, wd_stopped = False\<rparr>
      in if wd_stopped wd \<and> \<not> wd_halted wd then wd\<lparr>wd_gauge := as_metric Healthy\<rparr> else wd)"

definition requested_halt :: "watchdog \<Rightarrow> bool" where
  "requested_halt wd = wd_halted wd"

section \<open>Validation\<close>

lemma validate_Inr:
  "validate c = Inr () \<longleftrightarrow>
     0 < wc_degraded_after c \<and> wc_degraded_after c < wc_unhealthy_after c \<and> 0 < wc_ack_stall_after c \<and>
     wc_unhealthy_after c \<le> wc_maintenance_stall_after c \<and> f32_is_finite (wc_queue_pressure_ratio c) \<and>
     \<not> f32_le_zero (wc_queue_pressure_ratio c) \<and> \<not> f32_gt_one (wc_queue_pressure_ratio c)"
  by (auto simp: validate_def try_bind_def Let_def)

section \<open>The loop\<close>

definition first_such :: "('a \<Rightarrow> bool) \<Rightarrow> ('a \<Rightarrow> bool) \<Rightarrow> 'a list \<Rightarrow> bool" where
  "first_such quiet P ts \<longleftrightarrow> (\<exists>pre t post. ts = pre @ t # post \<and> (\<forall>x \<in> set pre. quiet x) \<and> P t)"

lemma first_such_simps [simp]:
  "\<not> first_such quiet P []"
  "first_such quiet P (t # ts) \<longleftrightarrow> P t \<or> (quiet t \<and> first_such quiet P ts)"
proof -
  show "first_such quiet P (t # ts) \<longleftrightarrow> P t \<or> (quiet t \<and> first_such quiet P ts)"
  proof
    assume "first_such quiet P (t # ts)"
    then obtain pre x post where "t # ts = pre @ x # post" "\<forall>x \<in> set pre. quiet x" "P x"
      by (auto simp: first_such_def)
    thus "P t \<or> (quiet t \<and> first_such quiet P ts)" by (cases pre) (auto simp: first_such_def)
  next
    assume "P t \<or> (quiet t \<and> first_such quiet P ts)"
    thus "first_such quiet P (t # ts)"
    proof
      assume "P t"
      thus ?thesis by (auto simp: first_such_def intro: exI[of _ "[]"])
    next
      assume "quiet t \<and> first_such quiet P ts"
      then obtain pre x post where "ts = pre @ x # post" "\<forall>x \<in> set (t # pre). quiet x" "P x"
        by (auto simp: first_such_def)
      hence "t # ts = (t # pre) @ x # post" "\<forall>x \<in> set (t # pre). quiet x" "P x" by simp_all
      thus ?thesis unfolding first_such_def by blast
    qed
  qed
qed (simp add: first_such_def)

definition quiet_tick :: "WatchdogConfig \<Rightarrow> watchdog_tick \<Rightarrow> bool" where
  "quiet_tick c t \<longleftrightarrow> \<not> wd_shutdown_before t \<and> \<not> wd_woken_by_shutdown t \<and> ev_state (evaluate (wd_sample t) c) \<noteq> Unhealthy"

definition halting_tick :: "WatchdogConfig \<Rightarrow> watchdog_tick \<Rightarrow> bool" where
  "halting_tick c t \<longleftrightarrow> \<not> wd_shutdown_before t \<and> ev_state (evaluate (wd_sample t) c) = Unhealthy \<and>
     \<not> wd_shutdown_at_verdict t \<and> \<not> wd_receiver_gone t"

lemma watchdog_loop_halts:
  assumes "wc_halt_on_unhealthy c" "wd_halts wd = 0" "\<not> wd_halted wd" "\<not> wd_stopped wd" "watchdog_loop c ts wd = wd'"
  shows "wd_halts wd' = (if wd_halted wd' then 1 else 0)" "wd_halted wd' \<longleftrightarrow> first_such (quiet_tick c) (halting_tick c) ts"
    "wd_halted wd' \<longrightarrow> wd_gauge wd' = as_metric Unhealthy \<and> wd_stopped wd'"
proof -
  have "wd_halts wd' = (if wd_halted wd' then 1 else 0) \<and> (wd_halted wd' \<longleftrightarrow> first_such (quiet_tick c) (halting_tick c) ts) \<and>
      (wd_halted wd' \<longrightarrow> wd_gauge wd' = as_metric Unhealthy \<and> wd_stopped wd')"
    using assms
  proof (induction ts arbitrary: wd)
    case (Cons t ts)
    let ?e = "evaluate (wd_sample t) c"
    let ?wd1 = "wd\<lparr>wd_gauge := as_metric (ev_state ?e), wd_previous := ev_state ?e\<rparr>"
    consider (down) "wd_shutdown_before t" | (bad) "\<not> wd_shutdown_before t" "ev_state ?e = Unhealthy"
      | (woken) "\<not> wd_shutdown_before t" "ev_state ?e \<noteq> Unhealthy" "wd_woken_by_shutdown t" | (on) "quiet_tick c t"
      by (auto simp: quiet_tick_def)
    thus ?case
    proof cases
      case on
      hence "watchdog_loop c ts ?wd1 = wd'" "\<not> halting_tick c t"
        using Cons.prems(5) by (auto simp: quiet_tick_def halting_tick_def Let_def)
      thus ?thesis using Cons.IH[of ?wd1] Cons.prems on by simp
    qed (use Cons.prems in \<open>auto simp: quiet_tick_def halting_tick_def Let_def split: if_splits\<close>)
  qed auto
  thus "wd_halts wd' = (if wd_halted wd' then 1 else 0)" "wd_halted wd' \<longleftrightarrow> first_such (quiet_tick c) (halting_tick c) ts"
    "wd_halted wd' \<longrightarrow> wd_gauge wd' = as_metric Unhealthy \<and> wd_stopped wd'" by blast+
qed

lemma watchdog_loop_observer:
  "\<not> wc_halt_on_unhealthy c \<Longrightarrow> wd_halts (watchdog_loop c ts wd) = wd_halts wd \<and> wd_halted (watchdog_loop c ts wd) = wd_halted wd"
  by (induction ts arbitrary: wd) (auto simp: Let_def)

section \<open>The verdict as conditions\<close>

abbreviation halting_evidence :: "PipelineSample \<Rightarrow> WatchdogConfig \<Rightarrow> bool" where
  "halting_evidence s c \<equiv>
     \<not> writer_running s \<or> \<not> batcher_running s \<or>
     (maintenance_in_progress s \<and> from_millis (maintenance_elapsed_ms s) \<ge> wc_maintenance_stall_after c) \<or>
     (\<not> maintenance_in_progress s \<and> pending_work s = 0 \<and> outstanding_tickets_count s > 0 \<and>
        from_millis (watermark_idle_ms s) \<ge> wc_ack_stall_after c) \<or>
     (\<not> maintenance_in_progress s \<and> pending_work s \<noteq> 0 \<and>
        (from_millis (writer_idle_ms s) \<ge> wc_unhealthy_after c \<or> from_millis (batcher_idle_ms s) \<ge> wc_unhealthy_after c))"

abbreviation degrading_evidence :: "PipelineSample \<Rightarrow> WatchdogConfig \<Rightarrow> bool" where
  "degrading_evidence s c \<equiv>
     (maintenance_in_progress s \<and>
        (outstanding_tickets_count s > 0 \<and> from_millis (watermark_idle_ms s) \<ge> wc_ack_stall_after c \<or>
         queue_depth s \<ge> queue_pressure_threshold (queue_capacity s) (wc_queue_pressure_ratio c))) \<or>
     (\<not> maintenance_in_progress s \<and> pending_work s \<noteq> 0 \<and>
        (from_millis (writer_idle_ms s) \<ge> wc_degraded_after c \<or> from_millis (batcher_idle_ms s) \<ge> wc_degraded_after c \<or>
         queue_depth s \<ge> queue_pressure_threshold (queue_capacity s) (wc_queue_pressure_ratio c)))"

lemma evaluate_Unhealthy: "ev_state (evaluate s c) = Unhealthy \<longleftrightarrow> halting_evidence s c"
  by (simp add: evaluate_def verdict_of_def Let_def)

lemma evaluate_Degraded: "ev_state (evaluate s c) = Degraded \<longleftrightarrow> \<not> halting_evidence s c \<and> degrading_evidence s c"
  by (simp add: evaluate_def verdict_of_def Let_def)

lemma metric_order:
  "(x = Unhealthy \<longrightarrow> y = Unhealthy) \<Longrightarrow> (x = Degraded \<longrightarrow> y \<noteq> Healthy) \<Longrightarrow> as_metric x \<le> as_metric y"
  by (cases x; cases y) auto

definition sample_pipeline :: PipelineSample where
  "sample_pipeline =
     \<lparr>writer_running = True, batcher_running = True, writer_idle_ms = 40000, batcher_idle_ms = 5, queue_depth = 3,
      queue_capacity = 64, pending_records = 10, outstanding_tickets_count = 2, watermark_idle_ms = 40000,
      maintenance_in_progress = False, maintenance_elapsed_ms = 0\<rparr>"

section \<open>Properties\<close>

lemma worse_evidence_worse_verdict:
  assumes "writer_running s' \<longrightarrow> writer_running s" "batcher_running s' \<longrightarrow> batcher_running s"
    and "maintenance_in_progress s' = maintenance_in_progress s" "maintenance_elapsed_ms s \<le> maintenance_elapsed_ms s'"
    and "writer_idle_ms s \<le> writer_idle_ms s'" "batcher_idle_ms s \<le> batcher_idle_ms s'"
    and "watermark_idle_ms s \<le> watermark_idle_ms s'" "outstanding_tickets_count s \<le> outstanding_tickets_count s'"
    and "queue_depth s \<le> queue_depth s'" "queue_capacity s' = queue_capacity s"
    and "pending_work s' = 0 \<longleftrightarrow> pending_work s = 0"
  shows "as_metric (ev_state (evaluate s c)) \<le> as_metric (ev_state (evaluate s' c))"
proof (rule metric_order)
  have m: "from_millis (maintenance_elapsed_ms s) \<le> from_millis (maintenance_elapsed_ms s')"
    "from_millis (writer_idle_ms s) \<le> from_millis (writer_idle_ms s')"
    "from_millis (batcher_idle_ms s) \<le> from_millis (batcher_idle_ms s')"
    "from_millis (watermark_idle_ms s) \<le> from_millis (watermark_idle_ms s')"
    using assms(4-7) by simp_all
  have h: "halting_evidence s c \<Longrightarrow> halting_evidence s' c"
    using assms(1-3,8,11) m by (elim disjE) (auto intro: order_trans)
  thus "ev_state (evaluate s c) = Unhealthy \<longrightarrow> ev_state (evaluate s' c) = Unhealthy" unfolding evaluate_Unhealthy by blast
  have "degrading_evidence s c \<Longrightarrow> degrading_evidence s' c"
    using assms(3,8-11) m by (elim disjE conjE) (auto intro: order_trans)
  hence "ev_state (evaluate s c) = Degraded \<Longrightarrow> ev_state (evaluate s' c) = Unhealthy \<or> ev_state (evaluate s' c) = Degraded"
    unfolding evaluate_Unhealthy evaluate_Degraded by argo
  thus "ev_state (evaluate s c) = Degraded \<longrightarrow> ev_state (evaluate s' c) \<noteq> Healthy" by auto
qed

text \<open>
  C28: The halt is requested at most once and only on evidence: the flag of the handle is set
  exactly when halting is enabled and some tick is unhealthy before any shutdown, with a
  receiver still there, after only quiet ticks; then one signal was sent, the loop has
  ended and the last verdict stays on the gauge.
\<close>

theorem watchdog_halts_once:
  "let wd = run_watchdog c ts in
     (requested_halt wd \<longleftrightarrow> wc_halt_on_unhealthy c \<and> first_such (quiet_tick c) (halting_tick c) ts) \<and>
     wd_halts wd = (if requested_halt wd then 1 else 0) \<and>
     (requested_halt wd \<longrightarrow> wd_stopped wd \<and> wd_gauge wd = as_metric Unhealthy)"
proof -
  let ?wd0 = "\<lparr>wd_halts = 0, wd_halted = False, wd_gauge = 0, wd_previous = Healthy, wd_stopped = False\<rparr>"
  show ?thesis
  proof (cases "wc_halt_on_unhealthy c")
    case True
    thus ?thesis using watchdog_loop_halts[OF True, of ?wd0 ts] by (simp add: run_watchdog_def requested_halt_def Let_def)
  next
    case False
    thus ?thesis using watchdog_loop_observer[OF False, of ts ?wd0] by (simp add: run_watchdog_def requested_halt_def Let_def)
  qed
qed

theorem watchdog_halts_once_witness:
  "let bad = sample_pipeline\<lparr>writer_running := False\<rparr>;
       tick = \<lambda>s. \<lparr>wd_shutdown_before = False, wd_sample = s, wd_shutdown_at_verdict = False, wd_receiver_gone = False,
                   wd_woken_by_shutdown = False\<rparr>;
       wd = run_watchdog default_watchdog_config [tick sample_pipeline, tick bad, tick bad]
   in requested_halt wd \<and> wd_halts wd = 1 \<and> wd_stopped wd \<and> wd_gauge wd = as_metric Unhealthy"
proof -
  let ?tick = "\<lambda>s. \<lparr>wd_shutdown_before = False, wd_sample = s, wd_shutdown_at_verdict = False, wd_receiver_gone = False,
                   wd_woken_by_shutdown = False\<rparr>"
  let ?bad = "sample_pipeline\<lparr>writer_running := False\<rparr>"
  let ?ts = "[?tick sample_pipeline, ?tick ?bad, ?tick ?bad]"
  have "first_such (quiet_tick default_watchdog_config) (halting_tick default_watchdog_config) ?ts"
    by (simp add: quiet_tick_def halting_tick_def evaluate_Unhealthy sample_pipeline_def default_watchdog_config_def pending_work_0)
  moreover have "wc_halt_on_unhealthy default_watchdog_config" by (simp add: default_watchdog_config_def)
  ultimately show ?thesis using watchdog_halts_once[of default_watchdog_config ?ts] by (simp add: Let_def)
qed

section \<open>The pressure threshold\<close>

lemma bit_length_bounds: "0 < n \<Longrightarrow> 2 ^ (bit_length n - 1) \<le> n \<and> n < 2 ^ bit_length n \<and> 0 < bit_length n"
proof (induction n rule: bit_length.induct)
  case (1 n)
  show ?case
  proof (cases "n div 2 = 0")
    case True
    hence "n = 1" using "1.prems" by simp
    thus ?thesis by (simp add: bit_length.simps)
  next
    case False
    hence IH: "2 ^ (bit_length (n div 2) - 1) \<le> n div 2" "n div 2 < 2 ^ bit_length (n div 2)" "0 < bit_length (n div 2)"
      using "1.IH" "1.prems" by auto
    have bl: "bit_length n = Suc (bit_length (n div 2))" using "1.prems" by (simp add: bit_length.simps[of n])
    have "(2::nat) ^ bit_length (n div 2) = 2 * 2 ^ (bit_length (n div 2) - 1)"
      using IH(3) by (metis Suc_diff_1 power_Suc)
    moreover have "2 * (n div 2) \<le> n" "n \<le> 2 * (n div 2) + 1" by simp_all
    ultimately have "2 ^ bit_length (n div 2) \<le> n" "n < 2 * 2 ^ bit_length (n div 2)" using IH by linarith+
    thus ?thesis unfolding bl by simp
  qed
qed

lemma bit_length_le: "n < 2 ^ k \<Longrightarrow> bit_length n \<le> k"
proof (cases "n = 0")
  case False
  assume "n < 2 ^ k"
  hence "(2::nat) ^ (bit_length n - 1) < 2 ^ k" using bit_length_bounds[of n] False by linarith
  thus ?thesis using bit_length_bounds[of n] False by (simp add: power_strict_increasing_iff)
qed (simp add: bit_length.simps)

lemma round_half_even_le: "n \<le> y * 2 ^ k \<Longrightarrow> round_half_even n k \<le> y"
proof -
  assume le: "n \<le> y * 2 ^ k"
  have n: "n = n div 2 ^ k * 2 ^ k + n mod 2 ^ k" by (rule div_mult_mod_eq[symmetric])
  hence "n div 2 ^ k \<le> y" using le by (metis div_le_mono nonzero_mult_div_cancel_right power_not_zero zero_neq_numeral)
  then consider "n div 2 ^ k = y" | "n div 2 ^ k < y" by linarith
  thus ?thesis
  proof cases
    case 1
    hence "n \<le> n div 2 ^ k * 2 ^ k" using le by simp
    hence "n mod 2 ^ k = 0" using n by linarith
    thus ?thesis using 1 by (simp add: round_half_even_def Let_def)
  qed (simp add: round_half_even_def Let_def)
qed

lemma round_exact: "n < 2 ^ 24 \<Longrightarrow> f32_round (n, 0) = (n, 0)"
  using bit_length_le[of n 24] by (simp add: f32_round_def Let_def round_half_even_def)

text \<open>A factor of at most one, as a magnitude.\<close>

definition at_most_one :: "binary \<Rightarrow> bool" where
  "at_most_one b \<longleftrightarrow> snd b \<le> 0 \<and> fst b \<le> 2 ^ nat (- snd b)"

lemma scaled_floor_le:
  assumes "n < 2 ^ 24" "at_most_one (m, e)"
  shows "binary_floor (f32_round (n * m, e)) \<le> n"
proof -
  let ?x = "n * m" and ?p = "nat (- e)"
  define k where "k = nat (max (int (bit_length ?x) - 24) (max (- 149 - e) 0))"
  have e: "e \<le> 0" and x: "?x \<le> n * 2 ^ ?p" using assms(2) by (auto simp: at_most_one_def)
  have k: "k \<le> ?p"
  proof (rule ccontr)
    assume "\<not> k \<le> ?p"
    hence big: "?p + 24 < bit_length ?x" using e by (auto simp: k_def split: if_splits)
    hence "0 < ?x" by (cases "?x = 0") (simp_all add: bit_length.simps)
    hence "2 ^ (bit_length ?x - 1) \<le> ?x" using bit_length_bounds by blast
    moreover have "(2::nat) ^ (?p + 24) \<le> 2 ^ (bit_length ?x - 1)" using big by (intro power_increasing) simp_all
    ultimately have "2 ^ (?p + 24) \<le> ?x" by linarith
    moreover have "n * 2 ^ ?p < 2 ^ 24 * 2 ^ ?p" using assms(1) by simp
    moreover have "(2::nat) ^ (?p + 24) = 2 ^ 24 * 2 ^ ?p" by (simp only: power_add mult.commute)
    ultimately show False using x by linarith
  qed
  have "?x \<le> (n * 2 ^ (?p - k)) * 2 ^ k" using x k by (simp add: mult.assoc flip: power_add)
  hence r: "round_half_even ?x k \<le> n * 2 ^ (?p - k)" by (rule round_half_even_le)
  have "binary_floor (round_half_even ?x k, e + int k) = round_half_even ?x k div 2 ^ (?p - k)"
    using k e by (auto simp: binary_floor_def nat_diff_distrib)
  moreover have "\<dots> \<le> n" using r by (metis div_le_mono nonzero_mult_div_cancel_right power_not_zero zero_neq_numeral)
  ultimately show ?thesis by (simp add: f32_round_def Let_def k_def)
qed

lemma f32_fields: "f32_exponent x = unat x div 2 ^ 23 mod 2 ^ 8" "f32_fraction x = unat x mod 2 ^ 23"
proof -
  have "(255 :: 32 word) = mask 8" "(8388607 :: 32 word) = mask 23" by (simp_all add: mask_eq_exp_minus_1)
  hence "f32_exponent x = take_bit 8 (drop_bit 23 (unat x))" "f32_fraction x = take_bit 23 (unat x)"
    unfolding f32_exponent_def f32_fraction_def
    by (simp_all only: take_bit_eq_mask[symmetric] unsigned_take_bit_eq unat_drop_bit_eq)
  thus "f32_exponent x = unat x div 2 ^ 23 mod 2 ^ 8" "f32_fraction x = unat x mod 2 ^ 23"
    by (simp_all only: take_bit_eq_mod drop_bit_eq_div)
qed

lemma ratio_at_most_one:
  assumes "\<not> f32_le_zero x" "\<not> f32_gt_one x"
  shows "at_most_one (f32_magnitude x)"
proof -
  have "\<not> f32_negative x" using assms(1) by (simp add: f32_le_zero_def)
  hence "x \<le> F32_ONE" using assms(2) by (simp add: f32_gt_one_def not_less)
  hence u: "unat x \<le> 127 * 2 ^ 23" unfolding F32_ONE_def word_le_nat_alt by simp
  hence d: "unat x div 2 ^ 23 \<le> 127" by (simp add: less_mult_imp_div_less)
  hence ex: "f32_exponent x = unat x div 2 ^ 23" unfolding f32_fields by simp
  have fr: "f32_fraction x < 2 ^ 23" unfolding f32_fields by simp
  consider "f32_exponent x = 127" | "f32_exponent x = 0" | "0 < f32_exponent x" "f32_exponent x \<le> 126" using d ex by linarith
  thus ?thesis
  proof cases
    case 1
    hence "unat x div 2 ^ 23 = 127" using ex by simp
    hence "unat x = 127 * 2 ^ 23 + unat x mod 2 ^ 23" using div_mult_mod_eq[of "unat x" "2 ^ 23"] by presburger
    hence "unat x mod 2 ^ 23 = 0" using u by linarith
    hence "f32_fraction x = 0" by (simp only: f32_fields(2))
    thus ?thesis using 1 by (simp add: at_most_one_def f32_magnitude_def)
  next
    case 2
    have "(2::nat) ^ 23 \<le> 2 ^ 149" by (intro power_increasing) simp_all
    thus ?thesis using 2 fr by (simp add: at_most_one_def f32_magnitude_def)
  next
    case 3
    have "(2::nat) ^ 24 \<le> 2 ^ nat (150 - int (f32_exponent x))" using 3 by (intro power_increasing) simp_all
    thus ?thesis using 3 fr by (simp add: at_most_one_def f32_magnitude_def)
  qed
qed

text \<open>
  C29: The saturation threshold is always meaningful: for every non-empty queue of fewer than
  \<open>2 ^ 24\<close> slots and every 32-bit pattern as the ratio, infinities and NaN included, the
  threshold computed in single precision lies between one and the capacity, so that an
  empty queue is never saturated and a full queue always is.
\<close>

theorem pressure_threshold_in_queue:
  assumes "capacity \<noteq> 0" "capacity < 2 ^ 24"
  shows "1 \<le> queue_pressure_threshold capacity ratio \<and> queue_pressure_threshold capacity ratio \<le> capacity"
proof -
  define clamped where "clamped = (if \<not> f32_is_finite ratio then f32_magnitude F32_ONE
                          else if f32_le_zero ratio then (0, 0)
                          else if f32_gt_one ratio then f32_magnitude F32_ONE
                          else f32_magnitude ratio)"
  have "at_most_one (f32_magnitude F32_ONE)"
    by (simp add: at_most_one_def f32_magnitude_def f32_fields F32_ONE_def)
  hence "at_most_one clamped" using ratio_at_most_one[of ratio] by (simp add: clamped_def at_most_one_def)
  hence "binary_floor (f32_round (capacity * fst clamped, snd clamped)) \<le> capacity"
    using scaled_floor_le[OF assms(2), of "fst clamped" "snd clamped"] by simp
  moreover have "queue_pressure_threshold capacity ratio =
      max (min (binary_floor (f32_round (capacity * fst clamped, snd clamped))) USIZE_MAX) 1"
    unfolding queue_pressure_threshold_def round_exact[OF assms(2)] clamped_def using assms(1) by (simp add: Let_def)
  ultimately show ?thesis using assms(1) by simp
qed

theorem pressure_threshold_in_queue_witness:
  "queue_pressure_threshold 1000 0x7FC00000 \<le> 1000 \<and> 1 \<le> queue_pressure_threshold 1000 0xFF800000"
  using pressure_threshold_in_queue[of 1000 "0x7FC00000"] pressure_threshold_in_queue[of 1000 "0xFF800000"] by simp

text \<open>The bound on the capacity is needed: \<open>capacity as f32\<close> may round up, and then a full queue is
  below the threshold of ratio one.\<close>

lemma bit_length_eq: "2 ^ k \<le> n \<Longrightarrow> n < 2 ^ Suc k \<Longrightarrow> bit_length n = Suc k"
proof (rule antisym)
  assume "2 ^ k \<le> n" "n < 2 ^ Suc k"
  moreover from this have "0 < n" using zero_less_power[of "2::nat" k] by linarith
  ultimately have "(2::nat) ^ k < 2 ^ bit_length n" using bit_length_bounds[of n] by linarith
  thus "Suc k \<le> bit_length n" by (simp add: power_strict_increasing_iff)
qed (rule bit_length_le)

lemma pressure_threshold_beyond_queue: "queue_pressure_threshold 16777219 F32_ONE = 16777220"
proof -
  have one: "f32_magnitude F32_ONE = (8388608, - 23)" "f32_exponent F32_ONE = 127"
    by (simp_all add: f32_magnitude_def f32_fields F32_ONE_def)
  hence c: "f32_is_finite F32_ONE" "\<not> f32_gt_one F32_ONE" "f32_le_zero F32_ONE \<longrightarrow> f32_negative F32_ONE"
    by (simp_all add: f32_is_finite_def f32_gt_one_def f32_le_zero_def)
  have b: "bit_length 16777219 = 25" "bit_length 70368760954880 = 47"
    using bit_length_eq[of 24 16777219] bit_length_eq[of 46 70368760954880] by simp_all
  have r: "f32_round (16777219, 0) = (8388610, 1)" "f32_round (70368760954880, - 22) = (8388610, 1)"
    unfolding f32_round_def by (simp_all add: b round_half_even_def)
  have "\<not> f32_negative F32_ONE" by (simp add: f32_negative_def F32_ONE_def bit_iff_odd drop_bit_eq_div)
  thus ?thesis using c unfolding queue_pressure_threshold_def r one by (simp add: r binary_floor_def)
qed

end
