(* ===== verification/Config_Durations.thy ===== *)
theory Config_Durations
  imports Complex_Main Rust_Bytes Watchdog
begin

text \<open>
  Durations in the configuration file (\<open>otel-sqlite/src/config/duration.rs\<close>): the text form
  with a unit, the two ways a value is applied, and the double-precision arithmetic the
  parser computes with.

  A double is kept as its exact magnitude \<open>m * 2 ^ e\<close>; every operation rounds to 53
  significant bits, half to even, with the exponent of the subnormals as a floor.  Overflow to
  infinity is not represented: a magnitude beyond the largest double is also beyond \<open>u64\<close>, and
  both saturate in the final cast.
\<close>

section \<open>Double-precision arithmetic\<close>

definition f64_round :: "binary \<Rightarrow> binary" where
  "f64_round b =
     (case b of (m, e) \<Rightarrow>
        let k = nat (max (int (bit_length m) - 53) (max (- 1074 - e) 0))
        in (round_half_even m k, e + int k))"

definition f64_mul :: "binary \<Rightarrow> binary \<Rightarrow> binary" where
  "f64_mul a b = f64_round (fst a * fst b, snd a + snd b)"

text \<open>The double next to the quotient of two naturals: the quotient is taken with two bits more
  than the precision, and a third one that says whether a remainder was left.\<close>

definition f64_ratio :: "nat \<Rightarrow> nat \<Rightarrow> binary" where
  "f64_ratio n d =
     (let s = nat (int (bit_length d) + 55 - int (bit_length n));
          q = n * 2 ^ s div d; sticky = (if n * 2 ^ s mod d = 0 then 0 else 1)
      in f64_round (2 * q + sticky, - int s - 1))"

text \<open>\<open>f64::round\<close>, half away from zero, then \<open>as u64\<close>.\<close>

definition round_u64 :: "binary \<Rightarrow> u64" where
  "round_u64 b =
     (case b of (m, e) \<Rightarrow>
        min U64_MAX (if e \<ge> 0 then m * 2 ^ nat e else (m + 2 ^ (nat (- e) - 1)) div 2 ^ nat (- e)))"

text \<open>The literal \<open>0.001\<close>.\<close>

definition F64_MILLI :: binary where
  "F64_MILLI = f64_ratio 1 1000"

definition digits_value :: "string \<Rightarrow> nat" where
  "digits_value ds = fold (\<lambda>c n. 10 * n + digit_value c) ds 0"

text \<open>\<open>f64::from_str\<close> on a text of digits and dots.\<close>

definition parse_f64 :: "string \<Rightarrow> binary option" where
  "parse_f64 text =
     (let whole = takeWhile (\<lambda>c. c \<noteq> CHR ''.'') text;
          frac = drop 1 (dropWhile (\<lambda>c. c \<noteq> CHR ''.'') text);
          digits = whole @ frac
      in if digits = [] \<or> \<not> list_all is_ascii_digit digits then None
         else Some (f64_ratio (digits_value digits) (10 ^ length frac)))"

section \<open>Parsing\<close>

datatype RawDuration = Enabled duration | Disabled

definition is_any_of :: "string list \<Rightarrow> string \<Rightarrow> bool" where
  "is_any_of names text \<longleftrightarrow> list_ex (eq_ignore_ascii_case text) names"

definition MS_UNITS :: "string list" where
  "MS_UNITS = [''ms'', ''millis'', ''millisecond'', ''milliseconds'']"

definition S_UNITS :: "string list" where
  "S_UNITS = [''s'', ''sec'', ''secs'', ''second'', ''seconds'']"

definition M_UNITS :: "string list" where
  "M_UNITS = [''m'', ''min'', ''mins'', ''minute'', ''minutes'']"

definition H_UNITS :: "string list" where
  "H_UNITS = [''h'', ''hr'', ''hrs'', ''hour'', ''hours'']"

definition D_UNITS :: "string list" where
  "D_UNITS = [''d'', ''day'', ''days'']"

definition unit_scale :: "string \<Rightarrow> binary option" where
  "unit_scale u =
     (if is_any_of MS_UNITS u then Some F64_MILLI
      else if is_any_of S_UNITS u then Some (1, 0)
      else if is_any_of M_UNITS u then Some (60, 0)
      else if is_any_of H_UNITS u then Some (3600, 0)
      else if is_any_of D_UNITS u then Some (86400, 0)
      else None)"

definition parse_duration :: "string \<Rightarrow> string + RawDuration" where
  "parse_duration text =
     (let trimmed = trim text
      in if trimmed = [] \<or> is_any_of [''off'', ''none'', ''never'', ''disabled''] trimmed then Inr Disabled
         else let numeric = (\<lambda>c. is_ascii_digit c \<or> c = CHR ''.'');
                  num = takeWhile numeric trimmed; rest = dropWhile numeric trimmed
              in if rest = []
                 then Inl (''duration `'' @ text @ ''` lacks a unit (e.g. '' @ [CHR 0x22] @ ''30s'' @ [CHR 0x22] @ '')'')
                 else case parse_f64 (trim num) of
                   None \<Rightarrow> Inl (''duration `'' @ text @ ''` does not start with a number'')
                 | Some amount \<Rightarrow>
                     let u = trim rest
                     in (case unit_scale u of
                           None \<Rightarrow> Inl (''unknown duration unit `'' @ u @ ''` in `'' @ text @ ''`'')
                         | Some scale \<Rightarrow>
                             Inr (Enabled (from_millis (round_u64 (f64_mul (f64_mul amount scale) (1000, 0)))))))"

text \<open>What the file holds for a duration key: an integer or a text; everything else is an error
  of the TOML deserializer.\<close>

datatype duration_repr = ReprSeconds u64 | ReprText string

fun deserialize_duration :: "duration_repr \<Rightarrow> string + RawDuration" where
  "deserialize_duration (ReprSeconds seconds) = Inr (Enabled (from_secs seconds))"
| "deserialize_duration (ReprText text) = parse_duration text"

section \<open>Applying\<close>

fun apply_required_duration :: "duration \<Rightarrow> RawDuration option \<Rightarrow> string \<Rightarrow> string + duration" where
  "apply_required_duration target None key = Inr target"
| "apply_required_duration target (Some (Enabled value)) key = Inr value"
| "apply_required_duration target (Some Disabled) key =
     Inl (''config key `'' @ key @ ''` requires a duration; '' @ [CHR 0x22] @ ''off'' @ [CHR 0x22] @ '' is not accepted'')"

fun apply_optional_duration :: "duration option \<Rightarrow> RawDuration option \<Rightarrow> duration option" where
  "apply_optional_duration target None = target"
| "apply_optional_duration target (Some (Enabled value)) = Some value"
| "apply_optional_duration target (Some Disabled) = None"

section \<open>Rounding\<close>

definition binary_val :: "binary \<Rightarrow> real" where
  "binary_val b = real (fst b) * 2 powr real_of_int (snd b)"

lemma round_half_even_error: "\<bar>real (round_half_even n k) * 2 ^ k - real n\<bar> \<le> 2 ^ k / 2"
proof -
  define q r where "q = n div 2 ^ k" and "r = n mod 2 ^ k"
  have n: "real n = real q * 2 ^ k + real r"
    by (metis div_mult_mod_eq of_nat_add of_nat_mult of_nat_numeral of_nat_power q_def r_def)
  have r: "real r < 2 ^ k"
    by (metis mod_less_divisor of_nat_less_iff of_nat_numeral of_nat_power r_def zero_less_numeral zero_less_power)
  consider (up) "round_half_even n k = q + 1" "2 ^ k \<le> 2 * r" | (down) "round_half_even n k = q" "2 * r \<le> 2 ^ k"
    by (cases "2 ^ k < 2 * r \<or> 2 * r = 2 ^ k \<and> odd q") (auto simp: round_half_even_def Let_def q_def r_def)
  then show ?thesis
  proof cases
    case up
    then have "2 ^ k \<le> 2 * real r" by (metis of_nat_le_iff of_nat_mult of_nat_numeral of_nat_power)
    moreover have "real (round_half_even n k) * 2 ^ k - real n = 2 ^ k - real r"
      by (simp add: up(1) n algebra_simps)
    ultimately show ?thesis using r by linarith
  next
    case down
    then have "2 * real r \<le> 2 ^ k" by (metis of_nat_le_iff of_nat_mult of_nat_numeral of_nat_power)
    moreover have "real (round_half_even n k) * 2 ^ k - real n = - real r"
      by (simp add: down(1) n)
    ultimately show ?thesis by linarith
  qed
qed

lemma powr_int_add: "2 powr real_of_int (e + int k) = 2 powr real_of_int e * (2 :: real) ^ k"
  by (simp add: powr_add powr_realpow)

lemma f64_round_error:
  assumes "snd b \<ge> - 1074"
  shows "\<bar>binary_val (f64_round b) - binary_val b\<bar> \<le> binary_val b / 2 ^ 53"
proof -
  obtain m e where b: "b = (m, e)" by (rule prod.exhaust)
  define k where "k = nat (int (bit_length m) - 53)"
  have round: "f64_round (m, e) = (round_half_even m k, e + int k)"
    using assms by (simp add: f64_round_def b Let_def max_def k_def)
  have val: "binary_val (f64_round b) - binary_val b = (real (round_half_even m k) * 2 ^ k - real m) * 2 powr real_of_int e"
    by (simp only: round b binary_val_def powr_int_add fst_conv snd_conv) (simp add: algebra_simps)
  have "\<bar>real (round_half_even m k) * 2 ^ k - real m\<bar> \<le> real m / 2 ^ 53"
  proof (cases "k = 0")
    case True
    then show ?thesis by (simp add: round_half_even_def)
  next
    case False
    then have l: "bit_length m = k + 53" by (simp add: k_def)
    then have m: "m \<noteq> 0" "bit_length m - 1 = k + 52" by (cases "m = 0"; simp add: bit_length.simps[of 0])+
    then have "2 ^ (k + 52) \<le> m" using bit_length_bounds[of m] by simp
    then have "2 ^ (k + 52) \<le> real m" by (metis of_nat_le_iff of_nat_numeral of_nat_power)
    then have "2 ^ k / 2 \<le> real m / 2 ^ 53" by (simp add: power_add field_simps)
    then show ?thesis using round_half_even_error[of m k] by linarith
  qed
  then have "\<bar>real (round_half_even m k) * 2 ^ k - real m\<bar> * 2 powr real_of_int e \<le> real m / 2 ^ 53 * 2 powr real_of_int e"
    by (rule mult_right_mono) simp
  moreover have "\<bar>binary_val (f64_round b) - binary_val b\<bar> = \<bar>real (round_half_even m k) * 2 ^ k - real m\<bar> * 2 powr real_of_int e"
    by (simp only: val abs_mult) simp
  moreover have "binary_val b / 2 ^ 53 = real m / 2 ^ 53 * 2 powr real_of_int e" by (simp add: b binary_val_def)
  ultimately show ?thesis by simp
qed

lemma binary_val_nonneg: "0 \<le> binary_val b"
  by (simp add: binary_val_def)

lemma f64_mul_error:
  assumes "snd a + snd b \<ge> - 1074"
  shows "\<bar>binary_val (f64_mul a b) - binary_val a * binary_val b\<bar> \<le> binary_val a * binary_val b / 2 ^ 53"
  using f64_round_error[of "(fst a * fst b, snd a + snd b)"] assms
  by (simp add: f64_mul_def binary_val_def powr_add mult_ac)

lemma f64_ratio_nat: "\<exists>k\<le>56. f64_ratio n 1 = f64_round (2 * (n * 2 ^ k), - int k - 1)"
proof -
  define k where "k = nat (int (bit_length 1) + 55 - int (bit_length n))"
  have "bit_length (Suc 0) = 1" by (simp add: bit_length.simps[of 0] bit_length.simps[of "Suc 0"])
  then have "k \<le> 56" by (simp add: k_def)
  moreover have "f64_ratio n 1 = f64_round (2 * (n * 2 ^ k), - int k - 1)" by (simp add: f64_ratio_def Let_def k_def)
  ultimately show ?thesis by blast
qed

lemma f64_nat_error: "\<bar>binary_val (f64_ratio n 1) - real n\<bar> \<le> real n / 2 ^ 53"
proof -
  obtain k where k: "k \<le> 56" "f64_ratio n 1 = f64_round (2 * (n * 2 ^ k), - int k - 1)" using f64_ratio_nat[of n] by blast
  have "binary_val (2 * (n * 2 ^ k), - int k - 1) = real n"
    by (simp add: binary_val_def powr_diff powr_minus powr_realpow field_simps)
  then show ?thesis using f64_round_error[of "(2 * (n * 2 ^ k), - int k - 1)"] k by simp
qed

lemma round_u64_near:
  assumes "\<bar>binary_val b - real r\<bar> < 1 / 2" "r \<le> U64_MAX"
  shows "round_u64 b = r"
proof -
  obtain m e where b: "b = (m, e)" by (rule prod.exhaust)
  show ?thesis
  proof (cases "e \<ge> 0")
    case True
    then have "binary_val b = real (m * 2 ^ nat e)"
      by (simp add: b binary_val_def powr_real_of_int)
    then have "m * 2 ^ nat e = r" using assms(1) by linarith
    then show ?thesis using assms(2) True by (simp add: round_u64_def b)
  next
    case False
    define j where "j = nat (- e) - 1"
    have e: "e = - int j - 1" "nat (- e) = Suc j" using False by (auto simp: j_def)
    have "binary_val b = real m / 2 ^ Suc j"
      by (simp add: b binary_val_def e(1) powr_diff powr_minus powr_realpow field_simps)
    then have "real m - real r * 2 ^ Suc j = (binary_val b - real r) * 2 ^ Suc j" by (simp add: field_simps)
    then have "\<bar>real m - real r * 2 ^ Suc j\<bar> = \<bar>binary_val b - real r\<bar> * 2 ^ Suc j" by (simp only: abs_mult) simp
    also have "\<dots> < 1 / 2 * 2 ^ Suc j"
      using assms(1) by (rule mult_strict_right_mono) simp
    finally have "\<bar>real m - real r * 2 ^ Suc j\<bar> < 2 ^ j" by simp
    then have "real (r * 2 ^ Suc j) < real (m + 2 ^ j)" "real (m + 2 ^ j) < real ((r + 1) * 2 ^ Suc j)"
      by (simp_all add: abs_less_iff algebra_simps)
    then have "(m + 2 ^ j) div 2 ^ Suc j = r" unfolding of_nat_less_iff
      by (intro div_nat_eqI) (simp_all add: algebra_simps)
    then show ?thesis using assms(2) False by (simp add: round_u64_def b e(2))
  qed
qed

section \<open>Relative errors\<close>

definition near :: "real \<Rightarrow> real \<Rightarrow> real \<Rightarrow> bool" where
  "near c x y \<longleftrightarrow> \<bar>x - y\<bar> \<le> c * y \<and> 0 \<le> y"

lemma near_trans:
  assumes "near a x y" "near b y z" "0 \<le> a"
  shows "near (a * (1 + b) + b) x z"
proof -
  have "y \<le> (1 + b) * z" using assms(2) by (simp add: near_def algebra_simps abs_le_iff)
  then have "a * y \<le> a * ((1 + b) * z)" using assms(3) by (rule mult_left_mono)
  moreover have "\<bar>x - z\<bar> \<le> a * y + b * z" using assms(1,2) by (simp add: near_def abs_le_iff)
  ultimately show ?thesis using assms(2) by (simp add: near_def algebra_simps)
qed

lemma near_mult: "near c x y \<Longrightarrow> 0 \<le> t \<Longrightarrow> near c (x * t) (y * t)"
  by (simp add: near_def flip: left_diff_distrib mult.assoc) (simp add: abs_mult mult_right_mono)

lemma near_mono: "near c x y \<Longrightarrow> c \<le> d \<Longrightarrow> y = z \<Longrightarrow> near d x z"
  by (auto simp: near_def intro: order_trans[OF _ mult_right_mono])

lemma f64_round_exponent: "snd b \<le> snd (f64_round b)"
  by (simp add: f64_round_def Let_def split: prod.splits)

lemma f64_nat_exponent: "- 57 \<le> snd (f64_ratio n 1)"
proof -
  obtain k where k: "k \<le> 56" "f64_ratio n 1 = f64_round (2 * (n * 2 ^ k), - int k - 1)" using f64_ratio_nat[of n] by blast
  then show ?thesis using f64_round_exponent[of "(2 * (n * 2 ^ k), - int k - 1)"] by simp
qed

text \<open>The amount times the scale times a thousand is within one half of the exact product.\<close>

lemma scaled_amount:
  assumes "near (1 / 2 ^ 53) (binary_val sc * 1000) (real k)" "- 100 \<le> snd sc" "n * k < 2 ^ 49"
  shows "round_u64 (f64_mul (f64_mul (f64_ratio n 1) sc) (1000, 0)) = n * k"
proof -
  let ?a = "f64_ratio n 1" and ?e = "1 / 2 ^ 53 :: real"
  let ?p = "f64_mul ?a sc"
  have th: "binary_val (1000, 0) = 1000" by (simp add: binary_val_def)
  have e1: "- 157 \<le> snd ?p" using f64_nat_exponent[of n] assms(2) f64_round_exponent[of "(fst ?a * fst sc, snd ?a + snd sc)"]
    by (simp add: f64_mul_def)
  have n0: "near ?e (binary_val ?a) (real n)"
    using f64_nat_error[of n] by (simp add: near_def)
  have n1: "near ?e (binary_val ?p) (binary_val ?a * binary_val sc)"
    using f64_mul_error[of ?a sc] f64_nat_exponent[of n] assms(2) by (simp add: near_def binary_val_nonneg)
  have n2: "near ?e (binary_val (f64_mul ?p (1000, 0))) (binary_val ?p * 1000)"
    using f64_mul_error[of ?p "(1000, 0)"] e1 by (simp add: near_def binary_val_nonneg th)
  have "near ?e (binary_val ?p * 1000) (binary_val ?a * binary_val sc * 1000)"
    by (rule near_mult[OF n1]) simp
  note c1 = near_trans[OF n2 this]
  have "near ?e (binary_val ?a * binary_val sc * 1000) (real n * (binary_val sc * 1000))"
    using near_mult[OF n0, of "binary_val sc * 1000"] binary_val_nonneg[of sc] by (simp add: mult.assoc)
  note c2 = near_trans[OF c1 this]
  have "near ?e (real n * (binary_val sc * 1000)) (real n * real k)"
    using near_mult[OF assms(1), of "real n"] by (simp add: mult_ac)
  note c3 = near_trans[OF c2 this]
  have "near (8 / 2 ^ 53) (binary_val (f64_mul ?p (1000, 0))) (real (n * k))"
    using c3 by (rule near_mono) simp_all
  moreover have "real (n * k) < 2 ^ 49" using assms(3) by (metis of_nat_less_iff of_nat_numeral of_nat_power)
  then have "8 / 2 ^ 53 * real (n * k) < 1 / 2" by (simp add: mult.commute)
  ultimately have "\<bar>binary_val (f64_mul ?p (1000, 0)) - real (n * k)\<bar> < 1 / 2"
    unfolding near_def by linarith
  then show ?thesis by (rule round_u64_near) (use assms(3) in simp)
qed

section \<open>Texts\<close>

definition letter :: "char \<Rightarrow> bool" where
  "letter c \<longleftrightarrow> CHR ''a'' \<le> c \<and> c \<le> CHR ''z''"

definition visible_ascii :: "char \<Rightarrow> bool" where
  "visible_ascii c \<longleftrightarrow> CHR 0x20 < c \<and> c < CHR 0x7F"

lemma digit_visible: "is_ascii_digit c \<Longrightarrow> visible_ascii c"
  by (auto simp: is_ascii_digit_def visible_ascii_def less_eq_char_def less_char_def)

lemma lowercase_letter:
  assumes "letter (ascii_lower c)"
  shows "visible_ascii c" "\<not> is_ascii_digit c" "c \<noteq> CHR ''.''"
  using assms
  by (auto simp: letter_def ascii_lower_def is_ascii_uppercase_def visible_ascii_def is_ascii_digit_def less_eq_char_def less_char_def split: if_splits)

lemma drop_seqs_visible:
  assumes "visible_ascii c" "\<forall>w\<in>set seqs. w \<noteq> [] \<longrightarrow> \<not> visible_ascii (hd w)"
  shows "drop_seqs seqs (c # cs) = c # cs"
proof -
  have "find (\<lambda>w. w \<noteq> [] \<and> prefix w (c # cs)) seqs = None"
    using assms by (auto simp: find_None_iff prefix_def Cons_eq_append_conv)
  then show ?thesis by simp
qed

lemma whitespace_not_visible:
  "\<forall>w\<in>set whitespace_seqs. w \<noteq> [] \<longrightarrow> \<not> visible_ascii (hd w)"
  "\<forall>w\<in>set (map rev whitespace_seqs). w \<noteq> [] \<longrightarrow> \<not> visible_ascii (hd w)"
  by code_simp+

lemma trim_visible:
  assumes "s \<noteq> []" "visible_ascii (hd s)" "visible_ascii (last s)"
  shows "trim s = s"
proof -
  have "trim_start s = s"
    using assms drop_seqs_visible[OF _ whitespace_not_visible(1), of "hd s" "tl s"] by (simp add: trim_start_def)
  moreover have "rev s = last s # rev (butlast s)" using assms(1) by (metis append_butlast_last_id rev_eq_Cons_iff rev_rev_ident)
  then have "drop_seqs (map rev whitespace_seqs) (rev s) = rev s"
    by (simp only: drop_seqs_visible[OF assms(3) whitespace_not_visible(2)])
  ultimately show ?thesis by (simp add: trim_def trim_end_def)
qed

text \<open>The number of milliseconds of a unit.\<close>

definition unit_millis :: "string \<Rightarrow> nat option" where
  "unit_millis u =
     (let low = to_ascii_lowercase u
      in if low \<in> set MS_UNITS then Some 1
         else if low \<in> set S_UNITS then Some 1000
         else if low \<in> set M_UNITS then Some 60000
         else if low \<in> set H_UNITS then Some 3600000
         else if low \<in> set D_UNITS then Some 86400000
         else None)"

lemma unit_names_lower:
  "map to_ascii_lowercase MS_UNITS = MS_UNITS" "map to_ascii_lowercase S_UNITS = S_UNITS" "map to_ascii_lowercase M_UNITS = M_UNITS"
  "map to_ascii_lowercase H_UNITS = H_UNITS" "map to_ascii_lowercase D_UNITS = D_UNITS"
  by code_simp+

lemma unit_names_letters:
  "list_all (\<lambda>n. n \<noteq> [] \<and> list_all letter n) (MS_UNITS @ S_UNITS @ M_UNITS @ H_UNITS @ D_UNITS)"
  by code_simp

lemma is_any_of_lower:
  assumes "map to_ascii_lowercase names = names"
  shows "is_any_of names u \<longleftrightarrow> to_ascii_lowercase u \<in> set names"
proof -
  have "set names = to_ascii_lowercase ` set names" using arg_cong[OF assms, of set] by simp
  then show ?thesis by (auto simp: is_any_of_def eq_ignore_ascii_case_def list_ex_iff)
qed

lemmas unit_tests =
  is_any_of_lower[OF unit_names_lower(1)] is_any_of_lower[OF unit_names_lower(2)] is_any_of_lower[OF unit_names_lower(3)]
  is_any_of_lower[OF unit_names_lower(4)] is_any_of_lower[OF unit_names_lower(5)]

lemma unit_letters:
  assumes "unit_millis u = Some k"
  shows "u \<noteq> [] \<and> list_all (\<lambda>c. letter (ascii_lower c)) u"
proof -
  have "to_ascii_lowercase u \<noteq> [] \<and> list_all letter (to_ascii_lowercase u)"
    using assms unit_names_letters by (auto simp: unit_millis_def Let_def list_all_iff split: if_splits)
  then show ?thesis by (simp add: to_ascii_lowercase_def list.pred_map comp_def)
qed

lemma unit_scale_near:
  assumes "unit_millis u = Some k"
  shows "\<exists>sc. unit_scale u = Some sc \<and> near (1 / 2 ^ 53) (binary_val sc * 1000) (real k) \<and> - 100 \<le> snd sc"
proof -
  have len: "bit_length 1 = 1" "bit_length 1000 = 10" "bit_length 36893488147419103 = 56"
    using bit_length_eq[of 0 1] bit_length_eq[of 9 1000] bit_length_eq[of 55 36893488147419103] by simp_all
  have milli: "F64_MILLI = (4611686018427388, - 62)"
    by (simp add: F64_MILLI_def f64_ratio_def len[simplified] f64_round_def round_half_even_def)
  have "near (1 / 2 ^ 53) (binary_val F64_MILLI * 1000) 1"
    by (simp add: milli near_def binary_val_def powr_minus flip: powr_realpow)
  then show ?thesis
    using assms unfolding unit_millis_def unit_scale_def Let_def unit_tests
    by (auto simp: near_def binary_val_def milli split: if_splits)
qed

lemma takeWhile_digits:
  assumes "unit_millis u = Some k"
  shows "takeWhile (\<lambda>c. is_ascii_digit c \<or> c = CHR ''.'') (show_nat n @ u) = show_nat n"
    and "dropWhile (\<lambda>c. is_ascii_digit c \<or> c = CHR ''.'') (show_nat n @ u) = u"
proof -
  let ?P = "\<lambda>c. is_ascii_digit c \<or> c = CHR ''.''"
  obtain c cs where u: "u = c # cs" "letter (ascii_lower c)"
    using unit_letters[OF assms] by (cases u) auto
  then have "\<not> ?P c" using lowercase_letter[of c] by blast
  moreover have "\<forall>x\<in>set (show_nat n). ?P x" using show_nat_digits[of n] by (auto simp: list_all_iff)
  ultimately show "takeWhile ?P (show_nat n @ u) = show_nat n" "dropWhile ?P (show_nat n @ u) = u"
    by (simp_all add: u(1))
qed

lemma parse_f64_show_nat: "parse_f64 (show_nat n) = Some (f64_ratio n 1)"
proof -
  have d: "show_nat n \<noteq> []" "list_all is_ascii_digit (show_nat n)" "digits_value (show_nat n) = n"
    using show_nat_digits[of n] by (simp_all add: digits_value_def)
  have "\<forall>c\<in>set (show_nat n). c \<noteq> CHR ''.''"
    using d(2) by (auto simp: list_all_iff is_ascii_digit_def less_eq_char_def)
  then have tw: "takeWhile (\<lambda>c. c \<noteq> CHR ''.'') (show_nat n) = show_nat n" "dropWhile (\<lambda>c. c \<noteq> CHR ''.'') (show_nat n) = []"
    by simp_all
  show ?thesis unfolding parse_f64_def tw Let_def using d by simp
qed

lemma trim_amount:
  assumes "unit_millis u = Some k"
  shows "trim (show_nat n @ u) = show_nat n @ u" "trim (show_nat n) = show_nat n" "trim u = u"
    "\<not> is_any_of [''off'', ''none'', ''never'', ''disabled''] (show_nat n @ u)"
proof -
  obtain d ds where n: "show_nat n = d # ds" "is_ascii_digit d" "is_ascii_digit (last (show_nat n))"
    using show_nat_digits[of n] by (cases "show_nat n") (auto simp: list_all_iff)
  have u: "u \<noteq> []" "visible_ascii (hd u)" "visible_ascii (last u)"
    using unit_letters[OF assms] lowercase_letter(1) by (auto simp: list_all_iff)
  have v: "visible_ascii d" "visible_ascii (last (show_nat n))" using n digit_visible by auto
  show "trim (show_nat n @ u) = show_nat n @ u" "trim (show_nat n) = show_nat n" "trim u = u"
    using n(1) u v by (simp_all add: trim_visible)
  have "ascii_lower d = d" using n(2) by (auto simp: ascii_lower_def is_ascii_uppercase_def is_ascii_digit_def less_eq_char_def)
  then show "\<not> is_any_of [''off'', ''none'', ''never'', ''disabled''] (show_nat n @ u)"
    using n(1,2) by (auto simp: is_any_of_def eq_ignore_ascii_case_def to_ascii_lowercase_def ascii_lower_def is_ascii_uppercase_def
        is_ascii_digit_def less_eq_char_def)
qed

section \<open>Properties\<close>

text \<open>C33: reading back a duration.  A whole number of any of the accepted units, written in decimal
  and followed by the unit in any letter case, parses to exactly that duration, although the
  parser multiplies in double precision: below 2 to the 49 milliseconds the rounding errors of
  its three operations never reach half a millisecond.\<close>
theorem duration_text_exact:
  assumes "unit_millis u = Some k" "n * k < 2 ^ 49"
  shows "parse_duration (show_nat n @ u) = Inr (Enabled (from_millis (n * k)))"
proof -
  obtain sc where sc: "unit_scale u = Some sc" "near (1 / 2 ^ 53) (binary_val sc * 1000) (real k)" "- 100 \<le> snd sc"
    using unit_scale_near[OF assms(1)] by blast
  have "u \<noteq> []" using unit_letters[OF assms(1)] by simp
  then show ?thesis
    unfolding parse_duration_def Let_def trim_amount[OF assms(1)] takeWhile_digits[OF assms(1)] parse_f64_show_nat
    using scaled_amount[OF sc(2,3) assms(2)] by (simp add: trim_amount(4)[OF assms(1)] sc(1))
qed

theorem duration_text_exact_witness:
  "parse_duration (show_nat 250 @ ''ms'') = Inr (Enabled (from_millis 250)) \<and>
   parse_duration (show_nat 7 @ ''Days'') = Inr (Enabled (from_millis 604800000))"
proof -
  have low: "to_ascii_lowercase ''ms'' = ''ms''" "to_ascii_lowercase ''Days'' = ''days''" by code_simp+
  have "unit_millis ''ms'' = Some 1" "unit_millis ''Days'' = Some 86400000"
    by (simp_all add: unit_millis_def low MS_UNITS_def S_UNITS_def M_UNITS_def H_UNITS_def D_UNITS_def)
  then show ?thesis using duration_text_exact[of "''ms''" 1 250] duration_text_exact[of "''Days''" 86400000 7] by simp
qed

end
