(* ===== verification/Socket_Addr.thy ===== *)
theory Socket_Addr
  imports Rust_Bytes
begin

text \<open>
  \<open>std::net::SocketAddr\<close> as the configuration code uses it: the parser behind
  \<open>str::parse::<SocketAddr>\<close> and the classification of an address.  The parser follows
  \<open>core::net::parser\<close>: each reader consumes a prefix of the text or fails, and the whole text
  must be consumed.  The flow label and scope of an IPv6 address are read and dropped.
\<close>

section \<open>Readers\<close>

type_synonym 'a reader = "string \<Rightarrow> ('a \<times> string) option"

definition to_digit :: "nat \<Rightarrow> char \<Rightarrow> nat option" where
  "to_digit radix c =
     (let n = of_char c :: nat;
          d = (if 48 \<le> n \<and> n \<le> 57 then Some (n - 48)
               else if 97 \<le> n \<and> n \<le> 122 then Some (n - 87)
               else if 65 \<le> n \<and> n \<le> 90 then Some (n - 55) else None)
      in case d of Some k \<Rightarrow> if k < radix then Some k else None | None \<Rightarrow> None)"

definition read_number :: "nat \<Rightarrow> nat option \<Rightarrow> bool \<Rightarrow> nat \<Rightarrow> nat reader" where
  "read_number radix max_digits allow_zero_prefix bound s =
     (let digit = (\<lambda>c. to_digit radix c \<noteq> None);
          ds = takeWhile digit s;
          n = fold (\<lambda>c n. radix * n + the (to_digit radix c)) ds 0
      in if ds = [] \<or> (case max_digits of Some k \<Rightarrow> length ds > k | None \<Rightarrow> False) \<or> n > bound
            \<or> (\<not> allow_zero_prefix \<and> hd ds = CHR ''0'' \<and> length ds > 1)
         then None else Some (n, dropWhile digit s))"

fun read_given_char :: "char \<Rightarrow> unit reader" where
  "read_given_char c [] = None"
| "read_given_char c (x # xs) = (if x = c then Some ((), xs) else None)"

definition read_separator :: "char \<Rightarrow> nat \<Rightarrow> 'a reader \<Rightarrow> 'a reader" where
  "read_separator sep i inner s =
     (if i > 0 then Option.bind (read_given_char sep s) (\<lambda>(_, rest). inner rest) else inner s)"

fun read_octets :: "nat \<Rightarrow> nat \<Rightarrow> nat list reader" where
  "read_octets i 0 s = Some ([], s)"
| "read_octets i (Suc k) s =
     Option.bind (read_separator CHR ''.'' i (read_number 10 (Some 3) False 255) s) (\<lambda>(o1, s1).
       Option.bind (read_octets (Suc i) k s1) (\<lambda>(os, s2). Some (o1 # os, s2)))"

definition read_ipv4_addr :: "nat list reader" where
  "read_ipv4_addr s = read_octets 0 4 s"

function read_groups :: "nat \<Rightarrow> nat \<Rightarrow> string \<Rightarrow> nat list \<times> bool \<times> string" where
  "read_groups limit i s =
     (if i \<ge> limit then ([], False, s)
      else case (if i < limit - 1 then read_separator CHR '':'' i read_ipv4_addr s else None) of
             Some (os, rest) \<Rightarrow> ([os ! 0 * 256 + os ! 1, os ! 2 * 256 + os ! 3], True, rest)
           | None \<Rightarrow>
               (case read_separator CHR '':'' i (read_number 16 (Some 4) True 65535) s of
                  Some (g, rest) \<Rightarrow> (case read_groups limit (Suc i) rest of (gs, v4, rest') \<Rightarrow> (g # gs, v4, rest'))
                | None \<Rightarrow> ([], False, s)))"
  by pat_completeness auto

termination
  by (relation "measure (\<lambda>(limit, i, s). limit - i)") auto

declare read_groups.simps [simp del]

definition read_ipv6_addr :: "nat list reader" where
  "read_ipv6_addr s =
     (case read_groups 8 0 s of
        (groups, v4, rest) \<Rightarrow>
          if length groups = 8 then Some (groups, rest)
          else if v4 then None
          else Option.bind (read_given_char CHR '':'' rest) (\<lambda>(_, s1).
               Option.bind (read_given_char CHR '':'' s1) (\<lambda>(_, s2).
                 case read_groups (8 - (length groups + 1)) 0 s2 of
                   (tail, _, rest') \<Rightarrow>
                     Some (groups @ replicate (8 - length groups - length tail) 0 @ tail, rest'))))"

definition read_port :: "nat reader" where
  "read_port s = Option.bind (read_given_char CHR '':'' s) (\<lambda>(_, rest). read_number 10 None True 65535 rest)"

definition read_scope_id :: "nat reader" where
  "read_scope_id s = Option.bind (read_given_char CHR ''%'' s) (\<lambda>(_, rest). read_number 10 None True (2 ^ 32 - 1) rest)"

section \<open>Addresses\<close>

datatype IpAddr = V4 "nat list" | V6 "nat list"

record SocketAddr =
  sa_ip :: IpAddr
  sa_port :: nat

definition read_socket_addr_v4 :: "SocketAddr reader" where
  "read_socket_addr_v4 s =
     Option.bind (read_ipv4_addr s) (\<lambda>(os, s1).
     Option.bind (read_port s1) (\<lambda>(p, s2). Some (\<lparr>sa_ip = V4 os, sa_port = p\<rparr>, s2)))"

definition read_socket_addr_v6 :: "SocketAddr reader" where
  "read_socket_addr_v6 s =
     Option.bind (read_given_char CHR ''['' s) (\<lambda>(_, s1).
     Option.bind (read_ipv6_addr s1) (\<lambda>(gs, s2).
       let s3 = (case read_scope_id s2 of Some (_, r) \<Rightarrow> r | None \<Rightarrow> s2)
       in Option.bind (read_given_char CHR '']'' s3) (\<lambda>(_, s4).
          Option.bind (read_port s4) (\<lambda>(p, s5). Some (\<lparr>sa_ip = V6 gs, sa_port = p\<rparr>, s5)))))"

definition parse_socket_addr :: "string \<Rightarrow> SocketAddr option" where
  "parse_socket_addr s =
     (case (case read_socket_addr_v4 s of Some r \<Rightarrow> Some r | None \<Rightarrow> read_socket_addr_v6 s) of
        Some (addr, []) \<Rightarrow> Some addr
      | _ \<Rightarrow> None)"

fun is_loopback :: "IpAddr \<Rightarrow> bool" where
  "is_loopback (V4 os) \<longleftrightarrow> hd os = 127"
| "is_loopback (V6 gs) \<longleftrightarrow> gs = [0, 0, 0, 0, 0, 0, 0, 1]"

fun is_unspecified :: "IpAddr \<Rightarrow> bool" where
  "is_unspecified (V4 os) \<longleftrightarrow> os = [0, 0, 0, 0]"
| "is_unspecified (V6 gs) \<longleftrightarrow> gs = [0, 0, 0, 0, 0, 0, 0, 0]"

section \<open>Well-formed results\<close>

lemma read_number_bound: "read_number radix k z bound s = Some (n, rest) \<Longrightarrow> n \<le> bound"
  by (auto simp: read_number_def Let_def split: if_splits)

lemma read_octets_length: "read_octets i k s = Some (os, rest) \<Longrightarrow> length os = k \<and> list_all (\<lambda>x. x \<le> 255) os"
proof (induction i k s arbitrary: os rest rule: read_octets.induct)
  case (2 i k s)
  then show ?case
    by (fastforce simp: read_separator_def bind_eq_Some_conv dest: read_number_bound split: if_splits)
qed simp

lemma parse_socket_addr_port: "parse_socket_addr s = Some addr \<Longrightarrow> sa_port addr \<le> 65535"
  by (auto simp: parse_socket_addr_def read_socket_addr_v4_def read_socket_addr_v6_def read_port_def bind_eq_Some_conv Let_def
      dest!: read_number_bound split: option.splits prod.splits list.splits)

lemma read_ipv4_addr_unfold: "read_ipv4_addr s = read_octets 0 (Suc (Suc (Suc (Suc 0)))) s"
  by (simp add: read_ipv4_addr_def numeral_eq_Suc)

lemmas parse_simps =
  parse_socket_addr_def read_socket_addr_v4_def read_socket_addr_v6_def read_ipv4_addr_unfold read_port_def
  read_separator_def read_number_def to_digit_def

lemma parse_socket_addr_samples:
  "parse_socket_addr ''127.0.0.1:4317'' = Some \<lparr>sa_ip = V4 [127, 0, 0, 1], sa_port = 4317\<rparr>"
  "parse_socket_addr ''localhost:80'' = None"
  "parse_socket_addr ''127.0.0.01:80'' = None"
  by (simp_all add: parse_simps)

lemma parse_ipv6_loopback: "parse_socket_addr ''[::1]:80'' = Some \<lparr>sa_ip = V6 [0, 0, 0, 0, 0, 0, 0, 1], sa_port = 80\<rparr>"
  by (simp add: parse_simps read_ipv6_addr_def read_groups.simps read_scope_id_def) (simp add: numeral_eq_Suc)

end
