(* ===== verification/Storage_Lifecycle.thy ===== *)
theory Storage_Lifecycle
  imports Storage_Stats Insert_Batcher Sqlite_Iface
begin

text \<open>
  Start-up and shutdown of the storage pipeline (\<open>otel-sqlite-storage/src/lib.rs\<close> and
  \<open>config.rs\<close>) and the file modes it sets (\<open>permissions.rs\<close>, the Unix build).

  A thread is known by when it ends and how; \<open>wake t\<close> is when a poll that went to sleep at \<open>t\<close>
  runs again.  What starting the two threads gives and which readiness signal arrives are the
  fields of \<open>open_env\<close>.
\<close>

section \<open>Configuration\<close>

definition DEFAULT_COMMAND_QUEUE_CAPACITY :: usize where
  "DEFAULT_COMMAND_QUEUE_CAPACITY = 50000"

definition DEFAULT_STARTUP_TIMEOUT :: duration where
  "DEFAULT_STARTUP_TIMEOUT = from_secs 30"

definition STORAGE_SHUTDOWN_TIMEOUT :: duration where
  "STORAGE_SHUTDOWN_TIMEOUT = from_secs 30"

record StorageConfig =
  sc_sqlite_path :: string
  sc_insert_batcher :: InsertBatcherConfig
  sc_command_queue_capacity :: usize
  sc_max_db_bytes :: "u64 option"
  sc_synchronous :: SyncMode
  sc_startup_timeout :: duration
  sc_shutdown_timeout :: duration

definition default_storage_config :: StorageConfig where
  "default_storage_config =
     \<lparr>sc_sqlite_path = ''otel-logs.db'', sc_insert_batcher = default_batcher_config,
      sc_command_queue_capacity = DEFAULT_COMMAND_QUEUE_CAPACITY, sc_max_db_bytes = None, sc_synchronous = SyncNormal,
      sc_startup_timeout = DEFAULT_STARTUP_TIMEOUT, sc_shutdown_timeout = STORAGE_SHUTDOWN_TIMEOUT\<rparr>"

section \<open>Threads\<close>

datatype 'a thread_end = Panicked | Returned 'a

record 'a JoinHandle =
  jh_finished_at :: "instant option"
  jh_end :: "'a thread_end"

definition is_finished :: "'a JoinHandle \<Rightarrow> instant \<Rightarrow> bool" where
  "is_finished h now = (case jh_finished_at h of Some t \<Rightarrow> t \<le> now | None \<Rightarrow> False)"

definition JOIN_POLL_INTERVAL :: duration where
  "JOIN_POLL_INTERVAL = from_millis 5"

definition STARTUP_REAP_BUDGET :: duration where
  "STARTUP_REAP_BUDGET = from_secs 2"

definition as_secs :: "duration \<Rightarrow> u64" where
  "as_secs d = d div 1000000000"

partial_function (option) join_wait_loop ::
  "(instant \<Rightarrow> instant) \<Rightarrow> 'a JoinHandle \<Rightarrow> (instant \<times> duration) option \<Rightarrow> instant \<Rightarrow> ((StorageError + unit) \<times> instant) option" where
  "join_wait_loop wake h budget now =
     (if is_finished h now then Some (Inr (), now)
      else case budget of
             Some (deadline, timeout) \<Rightarrow>
               if now \<ge> deadline then Some (Inl (ShutdownTimeout (as_secs timeout)), now)
               else join_wait_loop wake h budget (wake now)
           | None \<Rightarrow> join_wait_loop wake h budget (wake now))"

definition wait_finished ::
  "(instant \<Rightarrow> instant) \<Rightarrow> 'a JoinHandle option \<Rightarrow> (instant \<times> duration) option \<Rightarrow> instant \<Rightarrow> ((StorageError + unit) \<times> instant) option" where
  "wait_finished wake handle budget now =
     (case handle of None \<Rightarrow> Some (Inr (), now) | Some h \<Rightarrow> join_wait_loop wake h budget now)"

text \<open>\<open>reap_startup\<close>: whether the thread was joined, and when.\<close>

partial_function (option) reap_loop :: "(instant \<Rightarrow> instant) \<Rightarrow> 'a JoinHandle \<Rightarrow> instant \<Rightarrow> instant \<Rightarrow> instant option" where
  "reap_loop wake h deadline now =
     (if \<not> is_finished h now \<and> now < deadline then reap_loop wake h deadline (wake now) else Some now)"

definition reap_startup :: "(instant \<Rightarrow> instant) \<Rightarrow> 'a JoinHandle \<Rightarrow> instant \<Rightarrow> (bool \<times> instant) option" where
  "reap_startup wake h now =
     map_option (\<lambda>t. (is_finished h t, t)) (reap_loop wake h (saturating_deadline now STARTUP_REAP_BUDGET) now)"

section \<open>The pipeline handle\<close>

record Storage =
  stg_stats :: WriterStats
  stg_batcher_stats :: BatcherStats
  stg_ledger :: CommitLedger
  stg_batcher_handle :: "unit JoinHandle option"
  stg_join_handle :: "(StorageError + unit) JoinHandle option"
  stg_command_queue_capacity :: usize
  stg_commands :: bool

text \<open>\<open>Storage::producer\<close> panics (\<open>None\<close>) once the handle is joined.\<close>

definition producer :: "Storage \<Rightarrow> unit option" where
  "producer s = (if stg_commands s then Some () else None)"

definition storage_health :: "Storage \<Rightarrow> StorageHealth" where
  "storage_health s =
     \<lparr>sh_writer = stg_stats s, sh_batcher = stg_batcher_stats s, sh_ledger = stg_ledger s,
      sh_queue_capacity = stg_command_queue_capacity s\<rparr>"

definition join_writer ::
  "(instant \<Rightarrow> instant) \<Rightarrow> (instant \<times> duration) option \<Rightarrow> instant \<Rightarrow> Storage \<Rightarrow> ((StorageError + unit) \<times> instant \<times> Storage) option" where
  "join_writer wake budget now s =
     Option.bind (wait_finished wake (stg_join_handle s) budget now) (\<lambda>(r, t).
       case r of
         Inl e \<Rightarrow> Some (Inl e, t, s)
       | Inr _ \<Rightarrow>
           (case stg_join_handle s of
              None \<Rightarrow> Some (Inr (), t, s)
            | Some h \<Rightarrow>
                Some (case jh_end h of Panicked \<Rightarrow> Inl WriterPanicked | Returned result \<Rightarrow> result,
                      t, s\<lparr>stg_join_handle := None\<rparr>)))"

definition join_inner ::
  "(instant \<Rightarrow> instant) \<Rightarrow> duration option \<Rightarrow> instant \<Rightarrow> Storage \<Rightarrow> ((StorageError + unit) \<times> instant \<times> Storage) option" where
  "join_inner wake timeout now s0 =
     (let budget = map_option (\<lambda>d. (saturating_deadline now d, d)) timeout;
          s = s0\<lparr>stg_commands := False\<rparr>
      in Option.bind (wait_finished wake (stg_batcher_handle s) budget now) (\<lambda>(r, t).
           case r of
             Inl e \<Rightarrow> Some (Inl e, t, s)
           | Inr _ \<Rightarrow>
               (case stg_batcher_handle s of
                  Some h \<Rightarrow>
                    let s1 = s\<lparr>stg_batcher_handle := None\<rparr>
                    in if jh_end h = Panicked then Some (Inl BatcherPanicked, t, s1) else join_writer wake budget t s1
                | None \<Rightarrow> join_writer wake budget t s)))"

definition join :: "(instant \<Rightarrow> instant) \<Rightarrow> instant \<Rightarrow> Storage \<Rightarrow> ((StorageError + unit) \<times> instant \<times> Storage) option" where
  "join wake now s = join_inner wake None now s"

definition join_timeout ::
  "(instant \<Rightarrow> instant) \<Rightarrow> duration \<Rightarrow> instant \<Rightarrow> Storage \<Rightarrow> ((StorageError + unit) \<times> instant \<times> Storage) option" where
  "join_timeout wake timeout now s = join_inner wake (Some timeout) now s"

section \<open>Opening\<close>

datatype ready_signal = Ready | ReadyFailed string | ReadyTimedOut | ReadyDisconnected

record open_env =
  oe_now_ms :: u64
  oe_writer_spawn :: "nat + (StorageError + unit) JoinHandle"
  oe_writer_ready :: ready_signal
  oe_batcher_spawn :: "nat + unit JoinHandle"
  oe_batcher_ready :: ready_signal
  oe_failed_at :: instant
  oe_wake :: "instant \<Rightarrow> instant"

text \<open>Who holds the ends of the two channels: the input receiver, and the receiver and the two
  senders of the command queue.  A value of the frame of \<open>open\<close> is dropped when the call
  returns; a value moved into a closure belongs to the thread that runs it, or is dropped with
  the closure when the thread does not start.\<close>

datatype holder = NotCreated | Frame | WriterThread | BatcherThread | StorageValue | Released

record Endpoints =
  ep_input :: holder
  ep_receiver :: holder
  ep_commands :: holder
  ep_producer :: holder

definition called_with_input :: Endpoints where
  "called_with_input = \<lparr>ep_input = Frame, ep_receiver = NotCreated, ep_commands = NotCreated, ep_producer = NotCreated\<rparr>"

definition create_queue :: "Endpoints \<Rightarrow> Endpoints" where
  "create_queue ep = ep\<lparr>ep_receiver := Frame, ep_commands := Frame, ep_producer := Frame\<rparr>"

definition spawn_writer :: "open_env \<Rightarrow> Endpoints \<Rightarrow> (nat + (StorageError + unit) JoinHandle) \<times> Endpoints" where
  "spawn_writer env ep =
     (case oe_writer_spawn env of
        Inl e \<Rightarrow> (Inl e, ep\<lparr>ep_receiver := Released\<rparr>)
      | Inr h \<Rightarrow> (Inr h, ep\<lparr>ep_receiver := WriterThread\<rparr>))"

definition spawn_batcher :: "open_env \<Rightarrow> Endpoints \<Rightarrow> (nat + unit JoinHandle) \<times> Endpoints" where
  "spawn_batcher env ep =
     (case oe_batcher_spawn env of
        Inl e \<Rightarrow> (Inl e, ep\<lparr>ep_input := Released, ep_commands := Released\<rparr>)
      | Inr b \<Rightarrow> (Inr b, ep\<lparr>ep_input := BatcherThread, ep_commands := BatcherThread\<rparr>))"

definition drop_commands :: "Endpoints \<Rightarrow> Endpoints" where
  "drop_commands ep = ep\<lparr>ep_commands := Released\<rparr>"

definition drop_producer_source :: "Endpoints \<Rightarrow> Endpoints" where
  "drop_producer_source ep = ep\<lparr>ep_producer := Released\<rparr>"

definition drop_local :: "holder \<Rightarrow> holder" where
  "drop_local h = (if h = Frame then Released else h)"

definition leave_frame :: "Endpoints \<Rightarrow> Endpoints" where
  "leave_frame ep =
     \<lparr>ep_input = drop_local (ep_input ep), ep_receiver = drop_local (ep_receiver ep),
      ep_commands = drop_local (ep_commands ep), ep_producer = drop_local (ep_producer ep)\<rparr>"

text \<open>\<open>oo_reap\<close> is set when the writer was reaped: the channel ends when the wait began, and whether
  the writer was joined.\<close>

record open_outcome =
  oo_result :: "StorageError + Storage"
  oo_endpoints :: Endpoints
  oo_reap :: "(Endpoints \<times> bool) option"

definition fail_open ::
  "open_env \<Rightarrow> (StorageError + unit) JoinHandle \<Rightarrow> Endpoints \<Rightarrow> StorageError \<Rightarrow> open_outcome option" where
  "fail_open env h ep e =
     map_option (\<lambda>(joined, _). \<lparr>oo_result = Inl e, oo_endpoints = leave_frame ep, oo_reap = Some (ep, joined)\<rparr>)
       (reap_startup (oe_wake env) h (oe_failed_at env))"

definition open_storage :: "open_env \<Rightarrow> StorageConfig \<Rightarrow> open_outcome option" where
  "open_storage env config =
     (if max_batch_records (sc_insert_batcher config) = 0
      then Some \<lparr>oo_result = Inl (StartupFailed ''insert_batcher.max_batch_records must be at least 1''),
                 oo_endpoints = leave_frame called_with_input, oo_reap = None\<rparr>
      else case spawn_writer env (create_queue called_with_input) of
        (Inl e, ep) \<Rightarrow> Some \<lparr>oo_result = Inl (Io e), oo_endpoints = leave_frame ep, oo_reap = None\<rparr>
      | (Inr h, ep) \<Rightarrow>
          (case oe_writer_ready env of
             ReadyFailed message \<Rightarrow>
               fail_open env h (drop_producer_source (drop_commands ep)) (StartupFailed message)
           | ReadyTimedOut \<Rightarrow>
               fail_open env h (drop_producer_source (drop_commands ep)) (StartupTimeout (as_secs (sc_startup_timeout config)))
           | ReadyDisconnected \<Rightarrow> fail_open env h (drop_producer_source (drop_commands ep)) WriterPanicked
           | Ready \<Rightarrow>
               (case spawn_batcher env ep of
                  (Inl e, ep1) \<Rightarrow> fail_open env h (drop_producer_source ep1) (Io e)
                | (Inr b, ep1) \<Rightarrow>
                    (case oe_batcher_ready env of
                       Ready \<Rightarrow>
                         Some \<lparr>oo_result = Inr \<lparr>stg_stats = new_writer_stats (oe_now_ms env),
                                                 stg_batcher_stats = new_batcher_stats (oe_now_ms env),
                                                 stg_ledger = new_ledger (oe_now_ms env),
                                                 stg_batcher_handle = Some b, stg_join_handle = Some h,
                                                 stg_command_queue_capacity = max (sc_command_queue_capacity config) 1,
                                                 stg_commands = True\<rparr>,
                               oo_endpoints = leave_frame (ep1\<lparr>ep_producer := StorageValue\<rparr>), oo_reap = None\<rparr>
                     | ReadyTimedOut \<Rightarrow>
                         fail_open env h (drop_producer_source ep1) (StartupTimeout (as_secs (sc_startup_timeout config)))
                     | _ \<Rightarrow> fail_open env h (drop_producer_source ep1) BatcherPanicked))))"

text \<open>Whether a channel end still exists at a time: a thread keeps what it holds until it ends.\<close>

fun held :: "open_env \<Rightarrow> instant \<Rightarrow> holder \<Rightarrow> bool" where
  "held env t WriterThread = (case oe_writer_spawn env of Inr h \<Rightarrow> \<not> is_finished h t | Inl e \<Rightarrow> False)"
| "held env t BatcherThread = (case oe_batcher_spawn env of Inr b \<Rightarrow> \<not> is_finished b t | Inl e \<Rightarrow> False)"
| "held env t h \<longleftrightarrow> h = Frame \<or> h = StorageValue"

definition input_open :: "open_env \<Rightarrow> instant \<Rightarrow> Endpoints \<Rightarrow> bool" where
  "input_open env t ep = held env t (ep_input ep)"

definition queue_open :: "open_env \<Rightarrow> instant \<Rightarrow> Endpoints \<Rightarrow> bool" where
  "queue_open env t ep \<longleftrightarrow> held env t (ep_commands ep) \<or> held env t (ep_producer ep)"

definition batcher_started :: "open_env \<Rightarrow> StorageConfig \<Rightarrow> bool" where
  "batcher_started env config \<longleftrightarrow>
     max_batch_records (sc_insert_batcher config) \<noteq> 0 \<and> \<not> isl (oe_writer_spawn env) \<and>
     oe_writer_ready env = Ready \<and> \<not> isl (oe_batcher_spawn env)"

section \<open>File modes\<close>

definition SIDECAR_SUFFIXES :: "string list" where
  "SIDECAR_SUFFIXES = [''-wal'', ''-shm'', ''-journal'']"

text \<open>The modes of the files that exist, and the paths on which the operating system refuses a
  change.\<close>

type_synonym modes = "string \<rightharpoonup> nat"

definition set_permissions :: "string set \<Rightarrow> string \<Rightarrow> nat \<Rightarrow> modes \<Rightarrow> bool \<times> modes" where
  "set_permissions denied path mode m =
     (if m path = None \<or> path \<in> denied then (False, m) else (True, m(path \<mapsto> mode)))"

definition restrict_permissions :: "string set \<Rightarrow> string \<Rightarrow> modes \<Rightarrow> bool \<times> modes" where
  "restrict_permissions denied path m = set_permissions denied path 384 m"

definition harden_database_files :: "string set \<Rightarrow> string \<Rightarrow> modes \<Rightarrow> modes" where
  "harden_database_files denied db m =
     fold (\<lambda>suffix m. snd (restrict_permissions denied (db @ suffix) m)) SIDECAR_SUFFIXES (snd (restrict_permissions denied db m))"

definition harden_database_dir :: "string set \<Rightarrow> string \<Rightarrow> bool \<Rightarrow> modes \<Rightarrow> modes" where
  "harden_database_dir denied dir created m = (if created then snd (set_permissions denied dir 448 m) else m)"

section \<open>Bounded waits\<close>

text \<open>A sleep lasts at least the poll interval and at most \<open>slack\<close>.\<close>

definition wakes :: "duration \<Rightarrow> (instant \<Rightarrow> instant) \<Rightarrow> bool" where
  "wakes slack wake \<longleftrightarrow> (\<forall>t. t + JOIN_POLL_INTERVAL \<le> wake t \<and> wake t \<le> t + slack)"

lemma wakes_later: "wakes slack wake \<Longrightarrow> t < wake t"
  unfolding wakes_def JOIN_POLL_INTERVAL_def by (rule less_le_trans[of _ "t + from_millis 5"]) simp_all

lemma wait_loop_returns:
  assumes "wakes slack wake"
  shows "\<exists>r t. join_wait_loop wake h (Some (deadline, timeout)) now = Some (r, t) \<and> now \<le> t \<and> t \<le> max now (deadline + slack) \<and>
    (r = Inr () \<and> is_finished h t \<or> r = Inl (ShutdownTimeout (as_secs timeout)) \<and> deadline \<le> t \<and> \<not> is_finished h t)"
proof (induction "deadline - now" arbitrary: now rule: less_induct)
  case less
  show ?case
  proof (cases "is_finished h now \<or> deadline \<le> now")
    case True
    then show ?thesis by (auto simp: join_wait_loop.simps[of wake h "Some (deadline, timeout)" now])
  next
    case False
    then have "deadline - wake now < deadline - now" using wakes_later[OF assms, of now] by linarith
    moreover have "wake now \<le> deadline + slack" "now \<le> wake now"
      using assms wakes_later[OF assms, of now] False by (auto simp: wakes_def intro: order_trans[of _ "now + slack"])
    moreover have "join_wait_loop wake h (Some (deadline, timeout)) now = join_wait_loop wake h (Some (deadline, timeout)) (wake now)"
      using False by (simp add: join_wait_loop.simps[of wake h "Some (deadline, timeout)" now])
    ultimately show ?thesis
      using less[of "wake now"] by (fastforce simp: max_def split: if_splits)
  qed
qed

lemma wait_finished_returns:
  assumes "wakes slack wake"
  shows "\<exists>r t. wait_finished wake ho (Some (deadline, timeout)) now = Some (r, t) \<and> now \<le> t \<and> t \<le> max now (deadline + slack) \<and>
    (r = Inr () \<and> (\<forall>h. ho = Some h \<longrightarrow> is_finished h t) \<or>
     r = Inl (ShutdownTimeout (as_secs timeout)) \<and> deadline \<le> t \<and> (\<exists>h. ho = Some h \<and> \<not> is_finished h t))"
proof (cases ho)
  case (Some h)
  then show ?thesis using wait_loop_returns[OF assms, of h deadline timeout now] by (auto simp: wait_finished_def)
qed (auto simp: wait_finished_def)

lemma reap_loop_returns:
  assumes "wakes slack wake"
  shows "\<exists>t. reap_loop wake h deadline now = Some t"
proof (induction "deadline - now" arbitrary: now rule: less_induct)
  case less
  show ?case
  proof (cases "is_finished h now \<or> deadline \<le> now")
    case False
    then have "deadline - wake now < deadline - now" using wakes_later[OF assms, of now] by linarith
    then show ?thesis using less[of "wake now"] False by (simp add: reap_loop.simps[of wake h deadline now])
  qed (auto simp: reap_loop.simps[of wake h deadline now])
qed

lemma is_finished_mono: "is_finished h t \<Longrightarrow> t \<le> u \<Longrightarrow> is_finished h u"
  by (auto simp: is_finished_def split: option.splits)

lemma fail_open_returns:
  "wakes slack (oe_wake env) \<Longrightarrow>
   \<exists>joined. fail_open env h ep e = Some \<lparr>oo_result = Inl e, oo_endpoints = leave_frame ep, oo_reap = Some (ep, joined)\<rparr>"
  using reap_loop_returns[of slack "oe_wake env" h] by (fastforce simp: fail_open_def reap_startup_def)

lemmas endpoint_defs = called_with_input_def create_queue_def drop_commands_def drop_producer_source_def
  leave_frame_def drop_local_def input_open_def queue_open_def

lemma join_writer_returns:
  assumes "wakes slack wake"
  shows "\<exists>r t s'. join_writer wake (Some (deadline, timeout)) now s = Some (r, t, s') \<and> now \<le> t \<and> t \<le> max now (deadline + slack) \<and>
    stg_batcher_handle s' = stg_batcher_handle s \<and> stg_commands s' = stg_commands s \<and>
    (r = Inr () \<longrightarrow> stg_join_handle s' = None \<and>
       (\<forall>h. stg_join_handle s = Some h \<longrightarrow> is_finished h t \<and> jh_end h = Returned (Inr ()))) \<and>
    (\<forall>h. stg_join_handle s = Some h \<and> \<not> is_finished h t \<longrightarrow>
       r = Inl (ShutdownTimeout (as_secs timeout)) \<and> stg_join_handle s' = Some h)"
proof -
  obtain r t where w: "wait_finished wake (stg_join_handle s) (Some (deadline, timeout)) now = Some (r, t)"
    "now \<le> t" "t \<le> max now (deadline + slack)"
    "r = Inr () \<and> (\<forall>h. stg_join_handle s = Some h \<longrightarrow> is_finished h t) \<or>
     r = Inl (ShutdownTimeout (as_secs timeout)) \<and> deadline \<le> t \<and> (\<exists>h. stg_join_handle s = Some h \<and> \<not> is_finished h t)"
    using wait_finished_returns[OF assms, of "stg_join_handle s" deadline timeout now] by blast
  then show ?thesis
    by (cases "stg_join_handle s") (auto simp: join_writer_def split: thread_end.splits)
qed

section \<open>Properties\<close>

text \<open>C34: a bounded shutdown returns.  Whatever the two threads do, even if one never ends, the
  call returns no later than one poll sleep after the timeout.  It reports success only when
  both threads have ended without a panic and the writer without an error, and then holds no
  handle any more; a batcher that has not ended by then is reported as a shutdown timeout and
  its handle is kept for a later join.\<close>
theorem join_timeout_bounded:
  assumes "wakes slack wake"
  shows "\<exists>r t s'. join_timeout wake timeout now s = Some (r, t, s') \<and> t \<le> now + timeout + slack \<and> \<not> stg_commands s' \<and>
    (r = Inr () \<longrightarrow> stg_batcher_handle s' = None \<and> stg_join_handle s' = None \<and>
       (\<forall>h. stg_batcher_handle s = Some h \<longrightarrow> is_finished h t \<and> jh_end h \<noteq> Panicked) \<and>
       (\<forall>h. stg_join_handle s = Some h \<longrightarrow> is_finished h t \<and> jh_end h = Returned (Inr ()))) \<and>
    (\<forall>h. stg_batcher_handle s = Some h \<and> \<not> is_finished h t \<longrightarrow>
       r = Inl (ShutdownTimeout (as_secs timeout)) \<and> stg_batcher_handle s' = Some h)"
proof -
  let ?d = "saturating_deadline now timeout"
  have d: "max now (?d + slack) \<le> now + timeout + slack" using saturating_deadline_upper[of now timeout] by simp
  obtain r t where w: "wait_finished wake (stg_batcher_handle s) (Some (?d, timeout)) now = Some (r, t)"
    "now \<le> t" "t \<le> max now (?d + slack)"
    "r = Inr () \<and> (\<forall>h. stg_batcher_handle s = Some h \<longrightarrow> is_finished h t) \<or>
     r = Inl (ShutdownTimeout (as_secs timeout)) \<and> ?d \<le> t \<and> (\<exists>h. stg_batcher_handle s = Some h \<and> \<not> is_finished h t)"
    using wait_finished_returns[OF assms, of "stg_batcher_handle s" ?d timeout now] by blast
  show ?thesis
  proof (cases "r = Inr () \<and> (\<forall>h. stg_batcher_handle s = Some h \<longrightarrow> jh_end h \<noteq> Panicked)")
    case False
    then show ?thesis using w d
      by (cases "stg_batcher_handle s") (auto simp: join_timeout_def join_inner_def)
  next
    case True
    let ?s = "s\<lparr>stg_commands := False, stg_batcher_handle := None\<rparr>"
    obtain r' t' s' where j: "join_writer wake (Some (?d, timeout)) t ?s = Some (r', t', s')" "t \<le> t'" "t' \<le> max t (?d + slack)"
      "stg_batcher_handle s' = None" "\<not> stg_commands s'"
      "r' = Inr () \<longrightarrow> stg_join_handle s' = None \<and> (\<forall>h. stg_join_handle s = Some h \<longrightarrow> is_finished h t' \<and> jh_end h = Returned (Inr ()))"
      using join_writer_returns[OF assms, of ?d timeout t ?s] by auto
    have same: "stg_batcher_handle s = None \<Longrightarrow> ?s = s\<lparr>stg_commands := False\<rparr>" by (cases s) simp
    have "join_timeout wake timeout now s = Some (r', t', s')"
      using w(1) True j(1) same by (cases "stg_batcher_handle s") (auto simp: join_timeout_def join_inner_def)
    moreover have "\<forall>h. stg_batcher_handle s = Some h \<longrightarrow> is_finished h t'"
      using w(4) True j(2) is_finished_mono by blast
    moreover have "t' \<le> now + timeout + slack" using j(3) w(3) d by simp
    ultimately show ?thesis using True j(4-6) by auto
  qed
qed

text \<open>C35: what opening the pipeline leaves behind.  The call always returns, provided a sleep between two
  polls lasts at least the poll interval and ends.  It succeeds exactly
  when the batch capacity is positive, both threads started and both reported ready; then the
  batcher holds the input receiver and a sender of the command queue, the writer the receiver of
  that queue, and the handle its second sender.  When the call fails, the input receiver exists
  at a later time exactly when the batcher thread was started and has not ended by then, and the
  same holds of the senders of the command queue: in every other case ingress and the writer see
  the disconnection, but a batcher that started and did not report in time keeps both, although
  the caller is told that the start failed.  A writer that was started is always waited for, and
  the call itself holds no sender of its queue when that wait begins.\<close>
theorem open_outcome_exact:
  assumes "wakes slack (oe_wake env)"
  shows "\<exists>oo. open_storage env config = Some oo \<and>
    (case oo_result oo of
       Inr s \<Rightarrow> batcher_started env config \<and> oe_batcher_ready env = Ready \<and>
         oo_endpoints oo = \<lparr>ep_input = BatcherThread, ep_receiver = WriterThread, ep_commands = BatcherThread, ep_producer = StorageValue\<rparr> \<and>
         oe_batcher_spawn env = Inr (the (stg_batcher_handle s)) \<and> oe_writer_spawn env = Inr (the (stg_join_handle s))
     | Inl e \<Rightarrow> \<not> (batcher_started env config \<and> oe_batcher_ready env = Ready) \<and>
         (\<forall>t. (input_open env t (oo_endpoints oo) \<longleftrightarrow> batcher_started env config \<and> held env t BatcherThread) \<and>
              (queue_open env t (oo_endpoints oo) \<longleftrightarrow> batcher_started env config \<and> held env t BatcherThread)) \<and>
         (\<not> isl (oe_writer_spawn env) \<and> max_batch_records (sc_insert_batcher config) \<noteq> 0 \<longrightarrow>
            (\<exists>ep joined. oo_reap oo = Some (ep, joined) \<and> ep_commands ep \<noteq> Frame \<and> ep_producer ep \<noteq> Frame)))"
proof (cases "max_batch_records (sc_insert_batcher config) = 0 \<or> isl (oe_writer_spawn env)")
  case True
  then show ?thesis by (auto simp: open_storage_def spawn_writer_def batcher_started_def endpoint_defs isl_def)
next
  case False
  then obtain h where h: "oe_writer_spawn env = Inr h" by (cases "oe_writer_spawn env") auto
  note fail = fail_open_returns[OF assms]
  show ?thesis
  proof (cases "oe_writer_ready env = Ready")
    case ready: True
    show ?thesis
    proof (cases "oe_batcher_spawn env")
      case (Inl e)
      then show ?thesis
        using False h ready fail[of h "drop_producer_source (snd (spawn_batcher env (snd (spawn_writer env (create_queue called_with_input)))))" "Io e"]
        by (auto simp: open_storage_def spawn_writer_def spawn_batcher_def batcher_started_def endpoint_defs)
    next
      case (Inr b)
      let ?ep = "drop_producer_source (snd (spawn_batcher env (snd (spawn_writer env (create_queue called_with_input)))))"
      show ?thesis
        using False h ready Inr fail[of h ?ep "StartupTimeout (as_secs (sc_startup_timeout config))"] fail[of h ?ep BatcherPanicked]
        by (cases "oe_batcher_ready env")
          (auto simp: open_storage_def spawn_writer_def spawn_batcher_def batcher_started_def endpoint_defs)
    qed
  next
    case nr: False
    let ?ep = "drop_producer_source (drop_commands (snd (spawn_writer env (create_queue called_with_input))))"
    have "\<exists>e. open_storage env config = fail_open env h ?ep e"
      using False h nr by (cases "oe_writer_ready env") (auto simp: open_storage_def spawn_writer_def)
    then obtain e joined where
      "open_storage env config = Some \<lparr>oo_result = Inl e, oo_endpoints = leave_frame ?ep, oo_reap = Some (?ep, joined)\<rparr>"
      using fail[of h ?ep] by metis
    then show ?thesis using False h nr by (simp add: spawn_writer_def batcher_started_def endpoint_defs)
  qed
qed

lemma hardened_files_private:
  "harden_database_files denied db m path =
     (if path \<in> {db, db @ ''-wal'', db @ ''-shm'', db @ ''-journal''} \<and> m path \<noteq> None \<and> path \<notin> denied
      then Some 384 else m path)"
  by (auto simp: harden_database_files_def SIDECAR_SUFFIXES_def restrict_permissions_def set_permissions_def)

section \<open>Witnesses\<close>

definition sample_wake :: "instant \<Rightarrow> instant" where
  "sample_wake t = t + JOIN_POLL_INTERVAL"

definition stuck_batcher :: "unit JoinHandle" where
  "stuck_batcher = \<lparr>jh_finished_at = None, jh_end = Panicked\<rparr>"

definition stuck_storage :: Storage where
  "stuck_storage =
     \<lparr>stg_stats = new_writer_stats 0, stg_batcher_stats = new_batcher_stats 0, stg_ledger = new_ledger 0,
      stg_batcher_handle = Some stuck_batcher,
      stg_join_handle = Some \<lparr>jh_finished_at = None, jh_end = Panicked\<rparr>,
      stg_command_queue_capacity = 1, stg_commands = True\<rparr>"

definition late_batcher :: open_env where
  "late_batcher =
     \<lparr>oe_now_ms = 0, oe_writer_spawn = Inr \<lparr>jh_finished_at = None, jh_end = Panicked\<rparr>, oe_writer_ready = Ready,
      oe_batcher_spawn = Inr stuck_batcher, oe_batcher_ready = ReadyTimedOut, oe_failed_at = 0, oe_wake = sample_wake\<rparr>"

lemma sample_wakes: "wakes JOIN_POLL_INTERVAL sample_wake"
  by (simp add: wakes_def sample_wake_def)

theorem join_timeout_bounded_witness:
  "\<exists>t s'. join_timeout sample_wake (from_secs 1) 0 stuck_storage = Some (Inl (ShutdownTimeout 1), t, s') \<and>
     t \<le> from_secs 1 + JOIN_POLL_INTERVAL \<and> stg_batcher_handle s' = Some stuck_batcher"
proof -
  have b: "stg_batcher_handle stuck_storage = Some stuck_batcher" "\<And>t. \<not> is_finished stuck_batcher t" "as_secs (from_secs 1) = 1"
    by (simp_all add: stuck_storage_def stuck_batcher_def is_finished_def as_secs_def)
  then show ?thesis using join_timeout_bounded[OF sample_wakes, of "from_secs 1" 0 stuck_storage] by auto
qed

theorem open_outcome_exact_witness:
  "\<exists>oo. open_storage late_batcher default_storage_config = Some oo \<and> (\<exists>e. oo_result oo = Inl e) \<and>
     (\<forall>t. input_open late_batcher t (oo_endpoints oo))"
proof -
  have "wakes JOIN_POLL_INTERVAL (oe_wake late_batcher)" "oe_batcher_ready late_batcher \<noteq> Ready"
    "batcher_started late_batcher default_storage_config" "\<And>t. held late_batcher t BatcherThread"
    using sample_wakes
    by (simp_all add: late_batcher_def batcher_started_def stuck_batcher_def is_finished_def default_storage_config_def
        default_batcher_config_def)
  then show ?thesis
    using open_outcome_exact[of JOIN_POLL_INTERVAL late_batcher default_storage_config] by (fastforce split: sum.splits)
qed

end
