(* ===== verification/Scheduler.thy ===== *)
theory Scheduler
  imports Origin_Buffers
begin

text \<open>
  The maintenance scheduler and its worker thread
  (\<open>otel-sqlite-runtime/src/scheduler.rs\<close>, \<open>worker.rs\<close>, \<open>config.rs\<close>).

  The command queue is an oracle: the result of the \<open>n\<close>-th \<open>try_send\<close> is
  \<open>sk_outcome n\<close>, whatever the writer and the batcher do to the queue meanwhile; accepted
  commands are recorded in order.  The worker's loop runs over the list of its turns, each
  with the clock readings and the shutdown signals it finds.  Metrics and log lines are
  omitted; the sent-once warning flag \<open>deferred\<close> is kept.
\<close>

section \<open>Configuration\<close>

record MaintenanceConfig =
  mc_retention :: "duration option"
  mc_purge_interval :: "duration option"
  mc_checkpoint_interval :: "duration option"
  mc_checkpoint_mode :: CheckpointMode
  mc_optimize_interval :: "duration option"
  mc_vacuum_interval :: "duration option"
  mc_rebuild_fts_interval :: "duration option"
  mc_retry_delay :: duration

definition default_maintenance_config :: MaintenanceConfig where
  "default_maintenance_config =
     \<lparr>mc_retention = None,
      mc_purge_interval = Some (from_secs (15 * 60)),
      mc_checkpoint_interval = Some (from_secs (5 * 60)),
      mc_checkpoint_mode = Passive,
      mc_optimize_interval = Some (from_secs (12 * 60 * 60)),
      mc_vacuum_interval = Some (from_secs (24 * 60 * 60)),
      mc_rebuild_fts_interval = None,
      mc_retry_delay = from_secs 2\<rparr>"

definition MIN_RETRY_DELAY :: duration where
  "MIN_RETRY_DELAY = from_millis 10"

section \<open>Operations and tasks\<close>

datatype Operation = Purge | CheckpointOp | Optimize | VacuumOp | RebuildFtsOp

fun operation_label :: "Operation \<Rightarrow> string" where
  "operation_label Purge = ''purge''"
| "operation_label CheckpointOp = ''checkpoint''"
| "operation_label Optimize = ''optimize''"
| "operation_label VacuumOp = ''vacuum''"
| "operation_label RebuildFtsOp = ''rebuild_fts''"

fun build :: "MaintenanceConfig \<Rightarrow> Operation \<Rightarrow> WriteCommand" where
  "build config Purge = Maintenance (Prune (mc_retention config))"
| "build config CheckpointOp = Checkpoint (mc_checkpoint_mode config)"
| "build config Optimize = Maintenance Analyze"
| "build config VacuumOp = Maintenance Vacuum"
| "build config RebuildFtsOp = Maintenance RebuildFts"

record TickReport =
  tr_scheduled :: usize
  tr_deferred :: usize
  tr_disconnected :: bool

record Task =
  tk_operation :: Operation
  tk_interval :: "duration option"
  tk_next_due :: "instant option"
  tk_deferred :: bool

definition new_task :: "Operation \<Rightarrow> duration option \<Rightarrow> instant \<Rightarrow> Task" where
  "new_task operation interval now =
     (let interval' = (case interval of Some d \<Rightarrow> if d = 0 then None else Some d | None \<Rightarrow> None)
      in \<lparr>tk_operation = operation, tk_interval = interval',
          tk_next_due = map_option (saturating_deadline now) interval', tk_deferred = False\<rparr>)"

definition due :: "instant \<Rightarrow> Task \<Rightarrow> bool" where
  "due now task = (case tk_next_due task of Some next_due \<Rightarrow> next_due \<le> now | None \<Rightarrow> False)"

definition reschedule :: "instant \<Rightarrow> Task \<Rightarrow> Task" where
  "reschedule now task =
     (case tk_interval task of
        Some interval \<Rightarrow> task\<lparr>tk_deferred := False, tk_next_due := Some (saturating_deadline now interval)\<rparr>
      | None \<Rightarrow> task\<lparr>tk_deferred := False\<rparr>)"

definition defer_task :: "instant \<Rightarrow> duration \<Rightarrow> Task \<Rightarrow> Task" where
  "defer_task now retry_delay task =
     task\<lparr>tk_deferred := True, tk_next_due := Some (saturating_deadline now retry_delay)\<rparr>"

section \<open>The scheduler\<close>

datatype try_send_result = Sent | QueueFull | QueueClosed

record sink =
  sk_sent :: "WriteCommand list"
  sk_tries :: nat
  sk_outcome :: "nat \<Rightarrow> try_send_result"

definition try_send :: "WriteCommand \<Rightarrow> sink \<Rightarrow> try_send_result \<times> sink" where
  "try_send c s =
     (let r = sk_outcome s (sk_tries s)
      in (r, s\<lparr>sk_tries := Suc (sk_tries s), sk_sent := (if r = Sent then sk_sent s @ [c] else sk_sent s)\<rparr>))"

record Scheduler =
  sch_tasks :: "Task list"
  sch_config :: MaintenanceConfig

definition purge_interval :: "MaintenanceConfig \<Rightarrow> duration option" where
  "purge_interval config = (case mc_retention config of None \<Rightarrow> None | Some _ \<Rightarrow> mc_purge_interval config)"

definition new_scheduler :: "MaintenanceConfig \<Rightarrow> instant \<Rightarrow> Scheduler" where
  "new_scheduler config0 now =
     (let config = config0\<lparr>mc_retry_delay := max (mc_retry_delay config0) MIN_RETRY_DELAY\<rparr>
      in \<lparr>sch_tasks =
            [new_task Purge (purge_interval config) now,
             new_task CheckpointOp (mc_checkpoint_interval config) now,
             new_task Optimize (mc_optimize_interval config) now,
             new_task VacuumOp (mc_vacuum_interval config) now,
             new_task RebuildFtsOp (mc_rebuild_fts_interval config) now],
          sch_config = config\<rparr>)"

definition enabled_task_count :: "Scheduler \<Rightarrow> usize" where
  "enabled_task_count s = length (filter (\<lambda>task. tk_interval task \<noteq> None) (sch_tasks s))"

fun tick_tasks :: "MaintenanceConfig \<Rightarrow> instant \<Rightarrow> Task list \<Rightarrow> sink \<Rightarrow> TickReport \<Rightarrow> Task list \<times> sink \<times> TickReport" where
  "tick_tasks config now [] sk report = ([], sk, report)"
| "tick_tasks config now (task # tasks) sk report =
     (if \<not> due now task
      then case tick_tasks config now tasks sk report of (tasks', r) \<Rightarrow> (task # tasks', r)
      else case try_send (build config (tk_operation task)) sk of
             (Sent, sk1) \<Rightarrow>
               (case tick_tasks config now tasks sk1 (report\<lparr>tr_scheduled := tr_scheduled report + 1\<rparr>) of
                  (tasks', r) \<Rightarrow> (reschedule now task # tasks', r))
           | (QueueFull, sk1) \<Rightarrow>
               (case tick_tasks config now tasks sk1 (report\<lparr>tr_deferred := tr_deferred report + 1\<rparr>) of
                  (tasks', r) \<Rightarrow> (defer_task now (mc_retry_delay config) task # tasks', r))
           | (QueueClosed, sk1) \<Rightarrow> (task # tasks, sk1, report\<lparr>tr_disconnected := True\<rparr>))"

definition tick :: "instant \<Rightarrow> Scheduler \<Rightarrow> sink \<Rightarrow> Scheduler \<times> sink \<times> TickReport" where
  "tick now s sk =
     (case tick_tasks (sch_config s) now (sch_tasks s) sk \<lparr>tr_scheduled = 0, tr_deferred = 0, tr_disconnected = False\<rparr> of
        (tasks, r) \<Rightarrow> (s\<lparr>sch_tasks := tasks\<rparr>, r))"

definition next_deadline :: "Scheduler \<Rightarrow> instant option" where
  "next_deadline s = min_deadline (map tk_next_due (sch_tasks s))"

section \<open>The worker\<close>

text \<open>\<open>try_recv\<close> on the shutdown channel: \<open>None\<close> is empty, \<open>Some\<close> a signal or a disconnect.\<close>

definition shutdown_signalled :: "unit option \<Rightarrow> bool" where
  "shutdown_signalled received \<longleftrightarrow> received \<noteq> None"

record worker_turn =
  wt_shutdown :: "unit option"
  wt_now :: instant
  wt_woken_by_shutdown :: bool

datatype worker_exit = ShutDown | WriterGone | Waiting

fun worker_loop :: "worker_turn list \<Rightarrow> Scheduler \<Rightarrow> sink \<Rightarrow> worker_exit \<times> Scheduler \<times> sink" where
  "worker_loop [] s sk = (Waiting, s, sk)"
| "worker_loop (t # ts) s sk =
     (if shutdown_signalled (wt_shutdown t) then (ShutDown, s, sk)
      else case tick (wt_now t) s sk of
             (s1, sk1, report) \<Rightarrow>
               if tr_disconnected report then (WriterGone, s1, sk1)
               else case next_deadline s1 of
                      None \<Rightarrow> (ShutDown, s1, sk1)
                    | Some deadline \<Rightarrow>
                        if wt_woken_by_shutdown t then (ShutDown, s1, sk1) else worker_loop ts s1 sk1)"

definition run_worker :: "MaintenanceConfig \<Rightarrow> instant \<Rightarrow> worker_turn list \<Rightarrow> sink \<Rightarrow> worker_exit \<times> Scheduler \<times> sink" where
  "run_worker config start turns sk = worker_loop turns (new_scheduler config start) sk"

section \<open>One tick\<close>

text \<open>What a tick does with each task: leave it, send and reschedule it, or defer it.\<close>

datatype task_act = Keep | Reschedule | Defer

fun act :: "MaintenanceConfig \<Rightarrow> instant \<Rightarrow> task_act \<Rightarrow> Task \<Rightarrow> Task" where
  "act config now Keep task = task"
| "act config now Reschedule task = reschedule now task"
| "act config now Defer task = defer_task now (mc_retry_delay config) task"

definition sent_by :: "MaintenanceConfig \<Rightarrow> task_act list \<Rightarrow> Task list \<Rightarrow> WriteCommand list" where
  "sent_by config acts tasks =
     map (\<lambda>(a, task). build config (tk_operation task)) (filter (\<lambda>(a, task). a = Reschedule) (zip acts tasks))"

lemma sent_by_simps [simp]:
  "sent_by config [] [] = []"
  "sent_by config (a # acts) (task # tasks) =
     (if a = Reschedule then [build config (tk_operation task)] else []) @ sent_by config acts tasks"
  by (simp_all add: sent_by_def)

definition tick_acts :: "MaintenanceConfig \<Rightarrow> instant \<Rightarrow> Task list \<Rightarrow> sink \<Rightarrow> task_act list \<Rightarrow> Task list \<Rightarrow> sink \<Rightarrow> TickReport \<Rightarrow> bool" where
  "tick_acts config now tasks sk acts tasks' sk' report' \<longleftrightarrow>
     length acts = length tasks \<and> tasks' = map2 (act config now) acts tasks \<and>
     sk_sent sk' = sk_sent sk @ sent_by config acts tasks \<and>
     list_all2 (\<lambda>a task. (a \<noteq> Keep \<longrightarrow> due now task) \<and> (due now task \<and> \<not> tr_disconnected report' \<longrightarrow> a \<noteq> Keep)) acts tasks"

lemma tick_tasks_disconnected:
  "tick_tasks config now tasks sk report = (tasks', sk', report') \<Longrightarrow> tr_disconnected report \<Longrightarrow> tr_disconnected report'"
  by (induction config now tasks sk report arbitrary: tasks' rule: tick_tasks.induct)
    (auto split: if_splits prod.splits try_send_result.splits)

lemma keep_all: "sent_by config (replicate (length tasks) Keep) tasks = []"
  "map2 (act config now) (replicate (length tasks) Keep) tasks = tasks"
  by (induction tasks) simp_all

lemma tick_tasks_acts:
  assumes "tick_tasks config now tasks sk report = (tasks', sk', report')"
  shows "\<exists>acts. tick_acts config now tasks sk acts tasks' sk' report'"
  using assms
proof (induction config now tasks sk report arbitrary: tasks' rule: tick_tasks.induct)
  case (1 config now sk report)
  thus ?case by (auto simp: tick_acts_def)
next
  case (2 config now task tasks sk report)
  obtain res sk1 where send: "try_send (build config (tk_operation task)) sk = (res, sk1)" by fastforce
  have sent: "sk_sent sk1 = sk_sent sk @ (if res = Sent then [build config (tk_operation task)] else [])"
    using send by (auto simp: try_send_def Let_def)
  show ?case
  proof (cases "due now task")
    case False
    then obtain ts where r: "tick_tasks config now tasks sk report = (ts, sk', report')" "tasks' = task # ts"
      using "2.prems" by (auto split: prod.splits)
    obtain acts where "tick_acts config now tasks sk acts ts sk' report'" using "2.IH"(1)[OF _ r(1)] False by blast
    hence "tick_acts config now (task # tasks) sk (Keep # acts) tasks' sk' report'"
      using False r(2) by (auto simp: tick_acts_def)
    thus ?thesis by blast
  next
    case d: True
    show ?thesis
    proof (cases res)
      case Sent
      then obtain ts where r: "tick_tasks config now tasks sk1 (report\<lparr>tr_scheduled := tr_scheduled report + 1\<rparr>) = (ts, sk', report')"
        "tasks' = reschedule now task # ts" using "2.prems" d send by (auto split: prod.splits)
      obtain acts where "tick_acts config now tasks sk1 acts ts sk' report'" using "2.IH"(2)[OF _ send[symmetric] Sent r(1)] d by blast
      hence "tick_acts config now (task # tasks) sk (Reschedule # acts) tasks' sk' report'"
        using d r(2) sent Sent by (auto simp: tick_acts_def)
      thus ?thesis by blast
    next
      case QueueFull
      then obtain ts where r: "tick_tasks config now tasks sk1 (report\<lparr>tr_deferred := tr_deferred report + 1\<rparr>) = (ts, sk', report')"
        "tasks' = defer_task now (mc_retry_delay config) task # ts" using "2.prems" d send by (auto split: prod.splits)
      obtain acts where "tick_acts config now tasks sk1 acts ts sk' report'" using "2.IH"(3)[OF _ send[symmetric] QueueFull r(1)] d by blast
      hence "tick_acts config now (task # tasks) sk (Defer # acts) tasks' sk' report'"
        using d r(2) sent QueueFull by (auto simp: tick_acts_def)
      thus ?thesis by blast
    next
      case QueueClosed
      hence "tasks' = task # tasks" "sk' = sk1" "tr_disconnected report'" using "2.prems" d send by auto
      hence "tick_acts config now (task # tasks) sk (replicate (length (task # tasks)) Keep) tasks' sk' report'"
        using sent QueueClosed keep_all(1)[of config "task # tasks"] keep_all(2)[where config = config and now = now and tasks = "task # tasks"]
        by (auto simp: tick_acts_def list_all2_conv_all_nth simp del: replicate_Suc length_Cons)
      thus ?thesis by blast
    qed
  qed
qed

section \<open>Histories\<close>

lemma act_simps [simp]:
  "tk_operation (act config now a task) = tk_operation task" "tk_interval (act config now a task) = tk_interval task"
  by (cases a; simp add: reschedule_def defer_task_def split: option.splits)+

lemma build_inj [simp]: "build config op = build config op' \<longleftrightarrow> op = op'"
  by (cases op; cases op') auto

text \<open>A well-formed scheduler: one task per operation, positive intervals and retry delay.\<close>

definition scheduler_inv :: "Scheduler \<Rightarrow> bool" where
  "scheduler_inv s \<longleftrightarrow> distinct (map tk_operation (sch_tasks s)) \<and> 0 < mc_retry_delay (sch_config s) \<and>
     list_all (\<lambda>task. tk_interval task \<noteq> Some 0 \<and> (tk_interval task = None \<longrightarrow> tk_next_due task = None)) (sch_tasks s)"

lemma new_task_simps [simp]:
  "tk_operation (new_task op interval now) = op" "tk_interval (new_task op interval now) \<noteq> Some 0"
  "tk_interval (new_task op interval now) = None \<Longrightarrow> tk_next_due (new_task op interval now) = None"
  "d \<noteq> 0 \<Longrightarrow> tk_interval (new_task op (Some d) now) = Some d"
  "d \<noteq> 0 \<Longrightarrow> tk_next_due (new_task op (Some d) now) = Some (saturating_deadline now d)"
  by (auto simp: new_task_def Let_def split: option.splits)

lemma new_scheduler_inv: "scheduler_inv (new_scheduler config now)"
  by (simp add: scheduler_inv_def new_scheduler_def MIN_RETRY_DELAY_def Let_def)

lemma tickE:
  assumes "tick now s sk = (s', sk', report)"
  obtains acts where "tick_acts (sch_config s) now (sch_tasks s) sk acts (sch_tasks s') sk' report" "sch_config s' = sch_config s"
  using assms tick_tasks_acts by (fastforce simp: tick_def split: prod.splits)

lemma tick_inv:
  assumes "scheduler_inv s" "tick now s sk = (s', sk', report)"
  shows "scheduler_inv s'"
proof -
  obtain acts where a: "tick_acts (sch_config s) now (sch_tasks s) sk acts (sch_tasks s') sk' report"
    "sch_config s' = sch_config s" using tickE[OF assms(2)] .
  let ?c = "sch_config s"
  have len: "length acts = length (sch_tasks s)" and ts: "sch_tasks s' = map2 (act ?c now) acts (sch_tasks s)"
    and dueK: "list_all2 (\<lambda>a task. a \<noteq> Keep \<longrightarrow> due now task) acts (sch_tasks s)"
    using a(1) by (auto simp: tick_acts_def elim: list_all2_mono)
  have "map tk_operation (sch_tasks s') = map tk_operation (sch_tasks s)"
    unfolding ts using len by (induction rule: list_induct2) auto
  moreover have "list_all (\<lambda>task. tk_interval task \<noteq> Some 0 \<and> (tk_interval task = None \<longrightarrow> tk_next_due task = None)) (sch_tasks s')"
    unfolding ts using len dueK assms(1)[unfolded scheduler_inv_def, THEN conjunct2, THEN conjunct2]
  proof (induction rule: list_induct2)
    case (Cons a acts task tasks)
    have "tk_next_due (act ?c now a task) = None" if "tk_interval task = None"
      using that Cons.prems by (cases a) (auto simp: due_def)
    thus ?case using Cons by simp
  qed simp
  ultimately show ?thesis using assms(1) a(2) by (simp add: scheduler_inv_def)
qed

fun run_ticks :: "instant list \<Rightarrow> Scheduler \<Rightarrow> sink \<Rightarrow> (instant \<times> WriteCommand list) list \<times> Scheduler \<times> sink" where
  "run_ticks [] s sk = ([], s, sk)"
| "run_ticks (now # ts) s sk =
     (case tick now s sk of
        (s1, sk1, report) \<Rightarrow>
          (case run_ticks ts s1 sk1 of (log, r) \<Rightarrow> ((now, drop (length (sk_sent sk)) (sk_sent sk1)) # log, r)))"

text \<open>The times at which a command was enqueued, once for each time it was.\<close>

definition times_of :: "WriteCommand \<Rightarrow> (instant \<times> WriteCommand list) list \<Rightarrow> instant list" where
  "times_of c log = concat (map (\<lambda>(t, cs). replicate (count_list cs c) t) log)"

lemma times_of_Cons [simp]:
  "times_of c ((t, cs) # log) = replicate (count_list cs c) t @ times_of c log"
  "times_of c [] = []"
  by (simp_all add: times_of_def)

lemma sent_by_count:
  assumes "length acts = length tasks" "distinct (map tk_operation tasks)" "k < length tasks"
  shows "count_list (sent_by config acts tasks) (build config (tk_operation (tasks ! k))) = of_bool (acts ! k = Reschedule)"
  using assms
proof (induction acts tasks arbitrary: k rule: list_induct2)
  case (Cons a acts task tasks)
  have "build config (tk_operation task) \<notin> set (sent_by config acts tasks)"
    using Cons.prems(1) by (auto simp: sent_by_def dest!: set_zip_rightD)
  hence other: "count_list (sent_by config acts tasks) (build config (tk_operation task)) = 0" by simp
  show ?case
  proof (cases k)
    case (Suc j)
    hence "tk_operation (tasks ! j) \<in> tk_operation ` set tasks" using Cons.prems(2) by simp
    hence "tk_operation (tasks ! j) \<noteq> tk_operation task" using Cons.prems(1) by (metis distinct.simps(2) list.map(2) set_map)
    thus ?thesis using Cons.IH[of j] Cons.prems Suc by auto
  qed (use other in auto)
qed simp

lemma sent_by_index:
  assumes "length acts = length tasks" "distinct (map tk_operation tasks)" "k < length tasks"
  shows "build config (tk_operation (tasks ! k)) \<in> set (sent_by config acts tasks) \<longleftrightarrow> acts ! k = Reschedule"
  using sent_by_count[OF assms, of config] by (metis count_list_0_iff of_bool_eq_0_iff)

lemma saturating_deadline_later:
  "now < INSTANT_MAX \<Longrightarrow> 0 < d \<Longrightarrow> now < saturating_deadline now d"
proof (induction now d rule: saturating_deadline.induct)
  case (1 now d)
  show ?case
  proof (cases "now + d \<le> INSTANT_MAX")
    case True
    thus ?thesis using "1.prems" by (simp add: saturating_deadline_exact)
  next
    case False
    hence n: "checked_add now d = None" by (simp add: checked_add_def)
    have "0 < d div 2" using False "1.prems" by (cases "d = 1") auto
    hence "now < saturating_deadline now (d div 2)" using "1.IH"[OF n] "1.prems" by simp
    thus ?thesis using n "1.prems" by (simp add: saturating_deadline.simps[of now d])
  qed
qed

lemma act_next_due:
  assumes "tk_interval task = Some d" "tk_next_due task = Some nd" "a \<noteq> Keep \<longrightarrow> nd \<le> now" "now + d \<le> INSTANT_MAX"
  shows "\<exists>nd'. tk_next_due (act config now a task) = Some nd' \<and> nd \<le> nd' \<and> (a = Reschedule \<longrightarrow> nd \<le> now \<and> nd' = now + d)"
proof (cases a)
  case Reschedule
  thus ?thesis using assms by (simp add: reschedule_def saturating_deadline_exact)
next
  case Defer
  thus ?thesis using assms saturating_deadline_range[of now "mc_retry_delay config"] by (simp add: defer_task_def)
qed (use assms in simp)

lemma ticks_spaced:
  assumes "run_ticks ts s sk = (log, s', sk')" "scheduler_inv s" "k < length (sch_tasks s)"
    and "tk_interval (sch_tasks s ! k) = Some d" "tk_next_due (sch_tasks s ! k) = Some nd"
    and "\<forall>t \<in> set ts. t + d \<le> INSTANT_MAX"
  shows "(\<forall>t \<in> set (times_of (build (sch_config s) (tk_operation (sch_tasks s ! k))) log). nd \<le> t) \<and>
         sorted_wrt (\<lambda>t t'. t + d \<le> t') (times_of (build (sch_config s) (tk_operation (sch_tasks s ! k))) log)"
  using assms
proof (induction ts arbitrary: s sk log nd)
  case (Cons now ts)
  obtain s1 sk1 rep log' where r: "tick now s sk = (s1, sk1, rep)" "run_ticks ts s1 sk1 = (log', s', sk')"
    "log = (now, drop (length (sk_sent sk)) (sk_sent sk1)) # log'"
    using Cons.prems(1) by (auto split: prod.splits)
  obtain acts where a: "tick_acts (sch_config s) now (sch_tasks s) sk acts (sch_tasks s1) sk1 rep"
    "sch_config s1 = sch_config s" using tickE[OF r(1)] .
  let ?task = "sch_tasks s ! k" and ?a = "acts ! k" and ?c = "build (sch_config s) (tk_operation (sch_tasks s ! k))"
  have len: "length acts = length (sch_tasks s)" using a(1) by (simp add: tick_acts_def)
  have k: "sch_tasks s1 ! k = act (sch_config s) now ?a ?task" "k < length (sch_tasks s1)"
    using a(1) len Cons.prems(3) by (simp_all add: tick_acts_def)
  have "list_all2 (\<lambda>a task. a \<noteq> Keep \<longrightarrow> due now task) acts (sch_tasks s)"
    using a(1) by (auto simp: tick_acts_def elim: list_all2_mono)
  hence "?a \<noteq> Keep \<longrightarrow> nd \<le> now" using Cons.prems(3,5) len by (auto simp: list_all2_conv_all_nth due_def)
  from act_next_due[OF Cons.prems(4,5) this] Cons.prems(6) obtain nd' where
    nd': "tk_next_due (sch_tasks s1 ! k) = Some nd'" "nd \<le> nd'" "?a = Reschedule \<longrightarrow> nd \<le> now \<and> nd' = now + d"
    unfolding k(1) by auto
  have sent: "count_list (drop (length (sk_sent sk)) (sk_sent sk1)) ?c = of_bool (?a = Reschedule)"
    using sent_by_count[OF len _ Cons.prems(3)] a(1) Cons.prems(2) by (simp add: tick_acts_def scheduler_inv_def)
  have IH: "(\<forall>t \<in> set (times_of ?c log'). nd' \<le> t) \<and> sorted_wrt (\<lambda>t t'. t + d \<le> t') (times_of ?c log')"
    using Cons.IH[OF r(2) tick_inv[OF Cons.prems(2) r(1)] k(2) _ nd'(1)] Cons.prems(4,6) a(2) by (simp add: k(1))
  show ?case
  proof (cases "?a = Reschedule")
    case True
    thus ?thesis using IH nd' sent unfolding r(3) by auto
  next
    case False
    thus ?thesis using IH nd'(2) sent unfolding r(3) by auto
  qed
qed simp

lemma min_deadline_in: "min_deadline ds = Some d \<Longrightarrow> Some d \<in> set ds"
  by (induction ds arbitrary: d rule: min_deadline.induct) (auto split: option.splits simp: min_def split: if_splits)

section \<open>Properties\<close>

fun configured_interval :: "MaintenanceConfig \<Rightarrow> Operation \<Rightarrow> duration option" where
  "configured_interval config Purge = purge_interval config"
| "configured_interval config CheckpointOp = mc_checkpoint_interval config"
| "configured_interval config Optimize = mc_optimize_interval config"
| "configured_interval config VacuumOp = mc_vacuum_interval config"
| "configured_interval config RebuildFtsOp = mc_rebuild_fts_interval config"

text \<open>
  C27: Maintenance commands never bunch up.  Over any sequence of ticks and any behaviour of
  the command queue, an operation with a positive interval is first enqueued a full interval
  after start-up, and any two enqueues of it, within one tick or in different ticks, are at
  least one interval apart, deferrals included.  A time plus the interval is taken to be
  representable as an instant.
\<close>

theorem maintenance_never_bunches:
  assumes "run_ticks ts (new_scheduler config start) sk = (log, s', sk')"
    and "configured_interval config op = Some d" "d \<noteq> 0"
    and "start + d \<le> INSTANT_MAX" "\<forall>t \<in> set ts. t + d \<le> INSTANT_MAX"
  shows "(\<forall>t \<in> set (times_of (build config op) log). start + d \<le> t) \<and>
         sorted_wrt (\<lambda>t t'. t + d \<le> t') (times_of (build config op) log)"
proof -
  let ?s = "new_scheduler config start"
  have cfg: "build (sch_config ?s) op = build config op" by (cases op) (simp_all add: new_scheduler_def Let_def)
  have "purge_interval (config\<lparr>mc_retry_delay := r\<rparr>) = purge_interval config" for r
    by (simp add: purge_interval_def split: option.split)
  hence "new_task op (Some d) start \<in> set (sch_tasks ?s)"
    using assms(2) by (cases op) (simp_all add: new_scheduler_def Let_def)
  then obtain k where k: "k < length (sch_tasks ?s)" "sch_tasks ?s ! k = new_task op (Some d) start"
    by (auto simp: in_set_conv_nth)
  hence "tk_interval (sch_tasks ?s ! k) = Some d" "tk_next_due (sch_tasks ?s ! k) = Some (start + d)"
    using assms(3,4) by (simp_all add: saturating_deadline_exact)
  from ticks_spaced[OF assms(1) new_scheduler_inv k(1) this assms(5)] show ?thesis unfolding k(2) new_task_simps(1) cfg .
qed


lemma tick_never_spins:
  assumes "scheduler_inv s" "now < INSTANT_MAX" "tick now s sk = (s', sk', report)" "\<not> tr_disconnected report"
  shows "(\<forall>task \<in> set (sch_tasks s). due now task \<longrightarrow>
            build (sch_config s) (tk_operation task) \<in> set (drop (length (sk_sent sk)) (sk_sent sk')) \<or>
            defer_task now (mc_retry_delay (sch_config s)) task \<in> set (sch_tasks s')) \<and>
         (\<forall>deadline. next_deadline s' = Some deadline \<longrightarrow> now < deadline)"
proof -
  obtain acts where a: "tick_acts (sch_config s) now (sch_tasks s) sk acts (sch_tasks s') sk' report"
    "sch_config s' = sch_config s" using tickE[OF assms(3)] .
  let ?c = "sch_config s" and ?tasks = "sch_tasks s"
  have len: "length acts = length ?tasks" and ts: "sch_tasks s' = map2 (act ?c now) acts ?tasks"
    and sent: "sk_sent sk' = sk_sent sk @ sent_by ?c acts ?tasks"
    and all2: "list_all2 (\<lambda>a task. (a \<noteq> Keep \<longrightarrow> due now task) \<and> (due now task \<and> \<not> tr_disconnected report \<longrightarrow> a \<noteq> Keep))
      acts ?tasks"
    using a(1) unfolding tick_acts_def by blast+
  have acts: "acts ! k \<noteq> Keep \<longleftrightarrow> due now (?tasks ! k)" if "k < length ?tasks" for k
    using list_all2_nthD2[OF all2 that] assms(4) by blast
  have inv: "distinct (map tk_operation ?tasks)" "0 < mc_retry_delay ?c"
    using assms(1) by (simp_all add: scheduler_inv_def)
  have iv: "tk_interval (?tasks ! k) \<noteq> Some 0 \<and> (tk_interval (?tasks ! k) = None \<longrightarrow> tk_next_due (?tasks ! k) = None)"
    if "k < length ?tasks" for k
    using assms(1) that by (simp add: scheduler_inv_def list_all_length)
  have "build ?c (tk_operation (?tasks ! k)) \<in> set (sent_by ?c acts ?tasks) \<or>
        defer_task now (mc_retry_delay ?c) (?tasks ! k) \<in> set (sch_tasks s')" if "k < length ?tasks" "due now (?tasks ! k)" for k
  proof (cases "acts ! k")
    case Defer
    hence "sch_tasks s' ! k = defer_task now (mc_retry_delay ?c) (?tasks ! k)" using that(1) len unfolding ts by simp
    thus ?thesis using that(1) len nth_mem[of k "sch_tasks s'"] unfolding ts by simp
  qed (use that acts sent_by_index[OF len inv(1)] in auto)
  note handled = this
  have later: "now < nd" if k: "k < length ?tasks" and nd: "tk_next_due (sch_tasks s' ! k) = Some nd" for k nd
  proof -
    have tk: "sch_tasks s' ! k = act ?c now (acts ! k) (?tasks ! k)" using k len unfolding ts by simp
    show ?thesis
    proof (cases "acts ! k")
      case Keep
      thus ?thesis using acts[OF k] nd unfolding tk by (simp add: due_def)
    next
      case Reschedule
      then obtain d where "tk_interval (?tasks ! k) = Some d" "0 < d"
        using acts[OF k] iv[OF k] by (cases "tk_interval (?tasks ! k)") (auto simp: due_def)
      thus ?thesis using Reschedule nd saturating_deadline_later[OF assms(2)] unfolding tk by (auto simp: reschedule_def)
    next
      case Defer
      thus ?thesis using nd saturating_deadline_later[OF assms(2) inv(2)] unfolding tk by (auto simp: defer_task_def)
    qed
  qed
  have "now < deadline" if "next_deadline s' = Some deadline" for deadline
  proof -
    have "Some deadline \<in> tk_next_due ` set (sch_tasks s')"
      using min_deadline_in[OF that[unfolded next_deadline_def]] by simp
    then obtain task where "task \<in> set (sch_tasks s')" "tk_next_due task = Some deadline" by auto
    moreover have "length (sch_tasks s') = length ?tasks" using ts len by simp
    ultimately show ?thesis using later by (metis in_set_conv_nth)
  qed
  moreover have "build ?c (tk_operation task) \<in> set (sent_by ?c acts ?tasks) \<or>
        defer_task now (mc_retry_delay ?c) task \<in> set (sch_tasks s')" if "task \<in> set ?tasks" "due now task" for task
    using handled that by (metis in_set_conv_nth)
  ultimately show ?thesis using sent by simp
qed

subsection \<open>Witnesses\<close>

text \<open>A purge every 10 ns; the second attempt finds the queue full.\<close>

definition sample_maintenance :: MaintenanceConfig where
  "sample_maintenance = default_maintenance_config\<lparr>mc_retention := Some 50, mc_purge_interval := Some 10\<rparr>"

definition sample_sink :: sink where
  "sample_sink = \<lparr>sk_sent = [], sk_tries = 0, sk_outcome = \<lambda>n. if n = 1 then QueueFull else Sent\<rparr>"

theorem maintenance_never_bunches_witness:
  "\<exists>log s' sk'. run_ticks [5, 12, 25, 10000100] (new_scheduler sample_maintenance 0) sample_sink = (log, s', sk') \<and>
     (\<forall>t \<in> set (times_of (build sample_maintenance Purge) log). 10 \<le> t)"
proof -
  obtain log s' sk' where run: "run_ticks [5, 12, 25, 10000100] (new_scheduler sample_maintenance 0) sample_sink = (log, s', sk')"
    by (rule prod_cases3)
  have "configured_interval sample_maintenance Purge = Some 10"
    by (simp add: sample_maintenance_def purge_interval_def)
  from maintenance_never_bunches[OF run this] run show ?thesis by simp
qed

end
