(* ===== verification/Otlp_Mapping.thy ===== *)
theory Otlp_Mapping
  imports Rust_Bytes Storage_Commands
begin

text \<open>
  The mapping of OTLP log requests to ingest chunks (\<open>otel-sqlite-ingress/src/mapping/common.rs\<close>
  and \<open>mapping/logs.rs\<close>), the limits of \<open>config.rs\<close>, and the request messages of
  \<open>proto/opentelemetry/proto\<close>.

  The sizes of compiled structures (\<open>size_of\<close>) are a parameter \<open>layout\<close>; the text of a JSON
  tree and of a floating-point number are the parameters \<open>render\<close> and \<open>display_f64\<close>.  The
  counters of mapping losses are omitted.  An error is its message.
\<close>

section \<open>Messages\<close>

datatype AnyValue = AnyValue (any_value: "AnyValueKind option")
and AnyValueKind =
    StringValue string
  | BoolValue bool
  | IntValue i64
  | DoubleValue f64
  | ArrayValue "AnyValue list"
  | KvlistValue "KeyValue list"
  | BytesValue "u8 list"
  | StringValueStrindex int
and KeyValue = KeyValue (kv_key: string) (kv_value: "AnyValue option") (kv_key_strindex: int)

record InstrumentationScope =
  is_name :: string
  is_version :: string
  is_attributes :: "KeyValue list"
  is_dropped_attributes_count :: u32

record ProtoResource =
  pr_attributes :: "KeyValue list"
  pr_dropped_attributes_count :: u32

record ProtoLogRecord =
  pl_time_unix_nano :: u64
  pl_observed_time_unix_nano :: u64
  pl_severity_number :: int
  pl_severity_text :: string
  pl_body :: "AnyValue option"
  pl_attributes :: "KeyValue list"
  pl_dropped_attributes_count :: u32
  pl_flags :: u32
  pl_trace_id :: "u8 list"
  pl_span_id :: "u8 list"
  pl_event_name :: string

record ScopeLogs =
  sl_scope :: "InstrumentationScope option"
  sl_log_records :: "ProtoLogRecord list"
  sl_schema_url :: string

record ResourceLogs =
  rl_resource :: "ProtoResource option"
  rl_scope_logs :: "ScopeLogs list"
  rl_schema_url :: string

section \<open>Limits and errors\<close>

record TlsConfig =
  tls_cert :: string
  tls_key :: string
  tls_client_ca :: "string option"

record AuthConfig =
  token_file :: string

record IngressConfig =
  listen_address :: string
  max_recv_msg_size :: usize
  max_concurrent_streams :: u32
  mapping_concurrency :: usize
  shutdown_timeout :: duration
  max_records_per_request :: usize
  max_attributes_per_record :: usize
  max_attribute_key_bytes :: usize
  max_attribute_value_bytes :: usize
  max_body_bytes :: usize
  max_scope_metadata_expansion_bytes :: usize
  durability_mode :: DurabilityMode
  ingress_tls :: "TlsConfig option"
  ingress_auth :: "AuthConfig option"

definition default_ingress_config :: IngressConfig where
  "default_ingress_config =
     \<lparr>listen_address = ''127.0.0.1:4317'', max_recv_msg_size = 16 * 1024 * 1024, max_concurrent_streams = 64,
      mapping_concurrency = 2 * 64, shutdown_timeout = from_secs 30, max_records_per_request = 100000,
      max_attributes_per_record = 1000, max_attribute_key_bytes = 512, max_attribute_value_bytes = 64 * 1024,
      max_body_bytes = 1024 * 1024, max_scope_metadata_expansion_bytes = 16 * 1024 * 1024,
      durability_mode = CommitMode, ingress_tls = None, ingress_auth = None\<rparr>"

text \<open>\<open>expand_bind_address\<close>: a bare port binds all interfaces.\<close>

definition expand_bind_address :: "string \<Rightarrow> string" where
  "expand_bind_address address =
     (case address of c # cs \<Rightarrow> if c = CHR '':'' then ''0.0.0.0'' @ address else address | [] \<Rightarrow> address)"

datatype IngressError =
    InvalidListenAddress string
  | Transport
  | Tls string
  | Auth string
  | Mapping string

text \<open>The size of an \<open>AnyValue\<close>, a \<open>KeyValue\<close> and an \<open>Attribute\<close> in memory.\<close>

record layout =
  sz_any_value :: usize
  sz_key_value :: usize
  sz_attribute :: usize

definition MAX_NESTING_DEPTH :: usize where
  "MAX_NESTING_DEPTH = 32"

section \<open>Identifiers and timestamps\<close>

datatype ParsedId = Absent | Valid "u8 list" | Invalid

definition parse_id :: "nat \<Rightarrow> u8 list \<Rightarrow> ParsedId" where
  "parse_id n value =
     (if value = [] then Absent
      else if length value = n \<and> value \<noteq> replicate n 0 then Valid value else Invalid)"

fun into_id :: "ParsedId \<Rightarrow> u8 list option" where
  "into_id (Valid i) = Some i"
| "into_id Absent = None"
| "into_id Invalid = None"

definition parse_trace_id :: "u8 list \<Rightarrow> ParsedId" where
  "parse_trace_id value = parse_id 16 value"

definition parse_span_id :: "u8 list \<Rightarrow> ParsedId" where
  "parse_span_id value = parse_id 8 value"

definition timestamp :: "u64 \<Rightarrow> i64" where
  "timestamp value = (if int value \<le> I64_MAX then int value else I64_MAX)"

definition severity :: "int \<Rightarrow> Severity" where
  "severity value =
     (case (if 0 \<le> value \<and> value \<le> 255 then severity_from_u8 (nat value) else None) of
        Some s \<Rightarrow> s | None \<Rightarrow> Unspecified)"

section \<open>Attribute vals\<close>

definition too_deep :: "string \<Rightarrow> IngressError" where
  "too_deep what = Mapping (what @ '' exceeds maximum nesting depth of '' @ show_nat MAX_NESTING_DEPTH)"

text \<open>A missing value of an entry is the empty \<open>AnyValue\<close>, which converts to null.\<close>

fun attribute_value_with_depth :: "usize \<Rightarrow> AnyValue \<Rightarrow> IngressError + AttributeValue"
and array_values :: "usize \<Rightarrow> AnyValue list \<Rightarrow> IngressError + AttributeValue list"
and kvlist_values :: "usize \<Rightarrow> KeyValue list \<Rightarrow> IngressError + Attribute list" where
  "attribute_value_with_depth depth (AnyValue None) = Inr AvNull"
| "attribute_value_with_depth depth (AnyValue (Some (StringValue s))) = Inr (AvString s)"
| "attribute_value_with_depth depth (AnyValue (Some (IntValue n))) = Inr (AvInt n)"
| "attribute_value_with_depth depth (AnyValue (Some (DoubleValue x))) = Inr (AvDouble x)"
| "attribute_value_with_depth depth (AnyValue (Some (BoolValue b))) = Inr (AvBool b)"
| "attribute_value_with_depth depth (AnyValue (Some (BytesValue b))) = Inr (AvBytes b)"
| "attribute_value_with_depth depth (AnyValue (Some (ArrayValue vals))) =
     (if depth \<ge> MAX_NESTING_DEPTH then Inl (too_deep ''attribute value'')
      else try_bind (array_values (depth + 1) vals) (\<lambda>vs. Inr (AvArray vs)))"
| "attribute_value_with_depth depth (AnyValue (Some (KvlistValue vals))) =
     (if depth \<ge> MAX_NESTING_DEPTH then Inl (too_deep ''attribute value'')
      else try_bind (kvlist_values (depth + 1) vals) (\<lambda>vs. Inr (AvKvlist vs)))"
| "attribute_value_with_depth depth (AnyValue (Some (StringValueStrindex i))) = Inr AvNull"
| "array_values depth [] = Inr []"
| "array_values depth (v # vs) =
     try_bind (attribute_value_with_depth depth v) (\<lambda>a. try_bind (array_values depth vs) (\<lambda>as. Inr (a # as)))"
| "kvlist_values depth [] = Inr []"
| "kvlist_values depth (KeyValue key value strindex # kvs) =
     try_bind (case value of None \<Rightarrow> Inr AvNull | Some v \<Rightarrow> attribute_value_with_depth depth v)
       (\<lambda>a. try_bind (kvlist_values depth kvs) (\<lambda>as. Inr (Attribute key a # as)))"

definition attribute_value :: "AnyValue \<Rightarrow> IngressError + AttributeValue" where
  "attribute_value v = attribute_value_with_depth 0 v"

text \<open>The same loop as for the entries of a nested list, from depth 0.\<close>

definition convert_attributes :: "KeyValue list \<Rightarrow> IngressError + Attribute list" where
  "convert_attributes vals = kvlist_values 0 vals"

section \<open>Validation\<close>

definition exceeds :: "string \<Rightarrow> nat \<Rightarrow> nat \<Rightarrow> IngressError" where
  "exceeds what n limit = Mapping (what @ '' exceeds '' @ show_nat n @ '' bytes (limit '' @ show_nat limit @ '')'')"

fun check_nested_keys :: "IngressConfig \<Rightarrow> string \<Rightarrow> KeyValue list \<Rightarrow> IngressError + unit" where
  "check_nested_keys limits what [] = Inr ()"
| "check_nested_keys limits what (kv # kvs) =
     (if length (kv_key kv) > max_attribute_key_bytes limits
      then Inl (exceeds (what @ '' nested key'') (length (kv_key kv)) (max_attribute_key_bytes limits))
      else check_nested_keys limits what kvs)"

text \<open>The loop of \<open>check_any_value\<close> over its explicit stack, the top of the stack first.\<close>

lemma sum_list_entries: "sum_list (map size (List.map_filter kv_value kvs)) \<le> size_list size kvs"
proof (induction kvs)
  case (Cons kv kvs)
  thus ?case by (cases kv; cases "kv_value kv") (auto simp: List.map_filter_simps)
qed (simp add: List.map_filter_simps)

lemma walk_sizes:
  "0 < size (v :: AnyValue)"
  "any_value v = Some (ArrayValue vs) \<Longrightarrow> sum_list (map size (rev vs)) < size v"
  "any_value v = Some (KvlistValue kvs) \<Longrightarrow> sum_list (map size (rev (List.map_filter kv_value kvs))) < size v"
proof -
  have "sum_list (map size vs) \<le> size_list size vs" by (induction vs) auto
  thus "any_value v = Some (ArrayValue vs) \<Longrightarrow> sum_list (map size (rev vs)) < size v"
    by (cases v) (simp add: rev_map[symmetric])
  show "any_value v = Some (KvlistValue kvs) \<Longrightarrow> sum_list (map size (rev (List.map_filter kv_value kvs))) < size v"
    using sum_list_entries[of kvs] by (cases v) (simp add: rev_map[symmetric])
qed (cases v, simp)

function check_walk :: "IngressConfig \<Rightarrow> string \<Rightarrow> (AnyValue \<times> usize) list \<Rightarrow> IngressError + unit" where
  "check_walk limits what [] = Inr ()"
| "check_walk limits what ((current, depth) # stack) =
     (case any_value current of
        Some (StringValue s) \<Rightarrow>
          if length s > max_attribute_value_bytes limits
          then Inl (exceeds (what @ '' string value'') (length s) (max_attribute_value_bytes limits))
          else check_walk limits what stack
      | Some (BytesValue b) \<Rightarrow>
          if length b > max_attribute_value_bytes limits
          then Inl (exceeds (what @ '' bytes value'') (length b) (max_attribute_value_bytes limits))
          else check_walk limits what stack
      | Some (ArrayValue vals) \<Rightarrow>
          if depth \<ge> MAX_NESTING_DEPTH then Inl (too_deep what)
          else check_walk limits what (rev (map (\<lambda>v. (v, depth + 1)) vals) @ stack)
      | Some (KvlistValue vals) \<Rightarrow>
          if depth \<ge> MAX_NESTING_DEPTH then Inl (too_deep what)
          else try_bind (check_nested_keys limits what vals)
                 (\<lambda>_. check_walk limits what (rev (map (\<lambda>v. (v, depth + 1)) (List.map_filter kv_value vals)) @ stack))
      | _ \<Rightarrow> check_walk limits what stack)"
  by pat_completeness auto

termination
  by (relation "measure (\<lambda>(limits, what, stack). sum_list (map (size \<circ> fst) stack))")
    (auto simp: walk_sizes rev_map comp_def)

definition check_any_value :: "IngressConfig \<Rightarrow> string \<Rightarrow> AnyValue \<Rightarrow> IngressError + unit" where
  "check_any_value limits what v = check_walk limits what [(v, 0)]"

fun check_entries :: "IngressConfig \<Rightarrow> string \<Rightarrow> KeyValue list \<Rightarrow> IngressError + unit" where
  "check_entries limits what [] = Inr ()"
| "check_entries limits what (kv # kvs) =
     (if length (kv_key kv) > max_attribute_key_bytes limits
      then Inl (exceeds (what @ '' key'') (length (kv_key kv)) (max_attribute_key_bytes limits))
      else try_bind (case kv_value kv of None \<Rightarrow> Inr () | Some v \<Rightarrow> check_any_value limits what v)
             (\<lambda>_. check_entries limits what kvs))"

definition check_attributes :: "IngressConfig \<Rightarrow> string \<Rightarrow> KeyValue list \<Rightarrow> IngressError + unit" where
  "check_attributes limits what vals =
     (if length vals > max_attributes_per_record limits
      then Inl (Mapping (what @ '' holds '' @ show_nat (length vals) @ '' attributes, limit is '' @
                  show_nat (max_attributes_per_record limits)))
      else check_entries limits what vals)"

definition check_plain_string :: "IngressConfig \<Rightarrow> string \<Rightarrow> string \<Rightarrow> IngressError + unit" where
  "check_plain_string limits what value =
     (if length value > max_attribute_value_bytes limits
      then Inl (exceeds what (length value) (max_attribute_value_bytes limits))
      else Inr ())"

text \<open>The loop of \<open>any_value_size\<close>; \<open>stack.extend\<close> and \<open>push\<close> leave the last element on top.\<close>

fun entry_sizes :: "layout \<Rightarrow> KeyValue list \<Rightarrow> usize \<Rightarrow> usize" where
  "entry_sizes ly [] tot = tot"
| "entry_sizes ly (kv # kvs) tot =
     entry_sizes ly kvs (saturating_add tot (saturating_add (length (kv_key kv)) (sz_key_value ly)))"

function size_walk :: "layout \<Rightarrow> AnyValue list \<Rightarrow> usize \<Rightarrow> usize" where
  "size_walk ly [] tot = tot"
| "size_walk ly (current # stack) tot =
     (let tot1 = saturating_add tot (sz_any_value ly)
      in case any_value current of
           Some (StringValue s) \<Rightarrow> size_walk ly stack (saturating_add tot1 (length s))
         | Some (BytesValue b) \<Rightarrow> size_walk ly stack (saturating_add tot1 (length b))
         | Some (ArrayValue vals) \<Rightarrow> size_walk ly (rev vals @ stack) tot1
         | Some (KvlistValue vals) \<Rightarrow>
             size_walk ly (rev (List.map_filter kv_value vals) @ stack) (entry_sizes ly vals tot1)
         | _ \<Rightarrow> size_walk ly stack tot1)"
  by pat_completeness auto
termination
  by (relation "measure (\<lambda>(ly, stack, tot). sum_list (map size stack))") (auto simp: walk_sizes)

definition any_value_size :: "layout \<Rightarrow> AnyValue \<Rightarrow> usize" where
  "any_value_size ly v = size_walk ly [v] 0"

fun scope_attribute_bytes :: "layout \<Rightarrow> KeyValue list \<Rightarrow> usize \<Rightarrow> usize" where
  "scope_attribute_bytes ly [] tot = tot"
| "scope_attribute_bytes ly (kv # kvs) tot =
     (let tot1 = saturating_add tot (saturating_add (length (kv_key kv)) (sz_attribute ly))
      in scope_attribute_bytes ly kvs
           (case kv_value kv of Some v \<Rightarrow> saturating_add tot1 (any_value_size ly v) | None \<Rightarrow> tot1))"

definition scope_metadata_bytes :: "layout \<Rightarrow> InstrumentationScope option \<Rightarrow> string \<Rightarrow> usize" where
  "scope_metadata_bytes ly sc schema_url =
     (case sc of
        None \<Rightarrow> length schema_url
      | Some s \<Rightarrow>
          scope_attribute_bytes ly (is_attributes s)
            (saturating_add (saturating_add (length (is_name s)) (length (is_version s))) (length schema_url)))"

definition check_scope_expansion :: "IngressConfig \<Rightarrow> string \<Rightarrow> usize \<Rightarrow> usize \<Rightarrow> IngressError + unit" where
  "check_scope_expansion limits what metadata_bytes members =
     (if members = 0 \<or> metadata_bytes = 0 then Inr ()
      else let budget = max_scope_metadata_expansion_bytes limits
           in if metadata_bytes > budget div members
              then Inl (Mapping (what @ '' scope metadata ('' @ show_nat metadata_bytes @ '' bytes) repeated across '' @
                     show_nat members @ '' records exceeds the '' @ show_nat budget @
                     ''-byte expansion budget; reduce scope attributes or split the request''))
              else Inr ())"

definition check_body :: "IngressConfig \<Rightarrow> AnyValue option \<Rightarrow> IngressError + unit" where
  "check_body limits b =
     (case b of
        None \<Rightarrow> Inr ()
      | Some v \<Rightarrow>
          (case any_value v of
             Some (StringValue s) \<Rightarrow>
               if length s > max_body_bytes limits then Inl (exceeds ''log body'' (length s) (max_body_bytes limits)) else Inr ()
           | Some (BytesValue bs) \<Rightarrow>
               if length bs > max_body_bytes limits then Inl (exceeds ''log body'' (length bs) (max_body_bytes limits)) else Inr ()
           | _ \<Rightarrow> check_any_value limits ''log.body'' v))"

text \<open>A \<open>for\<close> loop whose body can fail.\<close>

fun for_each :: "('a \<Rightarrow> 'e + unit) \<Rightarrow> 'a list \<Rightarrow> 'e + unit" where
  "for_each f [] = Inr ()"
| "for_each f (x # xs) = try_bind (f x) (\<lambda>_. for_each f xs)"

definition validate_record :: "IngressConfig \<Rightarrow> ProtoLogRecord \<Rightarrow> IngressError + unit" where
  "validate_record limits r =
     try_bind (check_attributes limits ''log.attributes'' (pl_attributes r)) (\<lambda>_.
     try_bind (check_plain_string limits ''severity_text'' (pl_severity_text r)) (\<lambda>_.
     try_bind (check_plain_string limits ''event_name'' (pl_event_name r)) (\<lambda>_.
       check_body limits (pl_body r))))"

definition validate_scope :: "layout \<Rightarrow> IngressConfig \<Rightarrow> ScopeLogs \<Rightarrow> IngressError + unit" where
  "validate_scope ly limits sl =
     try_bind (case sl_scope sl of
         None \<Rightarrow> Inr ()
       | Some s \<Rightarrow>
           try_bind (check_attributes limits ''scope.attributes'' (is_attributes s)) (\<lambda>_.
           try_bind (check_plain_string limits ''scope.name'' (is_name s)) (\<lambda>_.
             check_plain_string limits ''scope.version'' (is_version s)))) (\<lambda>_.
     try_bind (check_plain_string limits ''scope.schema_url'' (sl_schema_url sl)) (\<lambda>_.
     try_bind (check_scope_expansion limits ''log'' (scope_metadata_bytes ly (sl_scope sl) (sl_schema_url sl))
                (length (sl_log_records sl))) (\<lambda>_.
       for_each (validate_record limits) (sl_log_records sl))))"

definition validate_group :: "layout \<Rightarrow> IngressConfig \<Rightarrow> ResourceLogs \<Rightarrow> IngressError + unit" where
  "validate_group ly limits grp =
     try_bind (check_plain_string limits ''resource.schema_url'' (rl_schema_url grp)) (\<lambda>_.
     try_bind (check_attributes limits ''resource.attributes''
                (case rl_resource grp of None \<Rightarrow> [] | Some r \<Rightarrow> pr_attributes r)) (\<lambda>_.
       for_each (validate_scope ly limits) (rl_scope_logs grp)))"

definition validate_request :: "layout \<Rightarrow> IngressConfig \<Rightarrow> ResourceLogs list \<Rightarrow> IngressError + unit" where
  "validate_request ly limits resource_logs = for_each (validate_group ly limits) resource_logs"

section \<open>Conversion\<close>

text \<open>A loop that collects the results of a fallible body.\<close>

fun collect_results :: "('a \<Rightarrow> 'e + 'b) \<Rightarrow> 'a list \<Rightarrow> 'e + 'b list" where
  "collect_results f [] = Inr []"
| "collect_results f (x # xs) = try_bind (f x) (\<lambda>y. try_bind (collect_results f xs) (\<lambda>ys. Inr (y # ys)))"

definition convert_resource :: "ProtoResource \<Rightarrow> string \<Rightarrow> IngressError + Resource" where
  "convert_resource value schema_url =
     try_bind (convert_attributes (pr_attributes value))
       (\<lambda>attrs. Inr \<lparr>res_id = [], res_attributes = attrs, res_schema_url = schema_url\<rparr>)"

definition body_value ::
  "(json \<Rightarrow> string) \<Rightarrow> (f64 \<Rightarrow> string) \<Rightarrow> AnyValue option \<Rightarrow> IngressError + (string \<times> string option)" where
  "body_value render display_f64 value =
     (case Option.bind value any_value of
        Some (StringValue s) \<Rightarrow> Inr (s, None)
      | Some (IntValue n) \<Rightarrow> Inr (show_int n, None)
      | Some (DoubleValue x) \<Rightarrow> Inr (display_f64 x, None)
      | Some (BoolValue b) \<Rightarrow> Inr (show_bool b, None)
      | Some (BytesValue bs) \<Rightarrow> Inr (from_utf8_lossy bs, None)
      | Some (ArrayValue vals) \<Rightarrow>
          try_bind (collect_results attribute_value vals)
            (\<lambda>items. Inr ([], Some (to_canonical_json render (AvArray items))))
      | Some (KvlistValue vals) \<Rightarrow>
          try_bind (convert_attributes vals) (\<lambda>attrs. Inr ([], Some (to_canonical_json render (AvKvlist attrs))))
      | _ \<Rightarrow> Inr ([], None))"

definition convert_record ::
  "(json \<Rightarrow> string) \<Rightarrow> (f64 \<Rightarrow> string) \<Rightarrow> LogScope \<Rightarrow> ProtoLogRecord \<Rightarrow> IngressError + LogRecord" where
  "convert_record render display_f64 sc r =
     try_bind (body_value render display_f64 (pl_body r)) (\<lambda>(b, b_json).
       let observed = timestamp (pl_observed_time_unix_nano r)
       in try_bind (convert_attributes (pl_attributes r)) (\<lambda>attrs.
            Inr \<lparr>time_unix_nano = (if pl_time_unix_nano r = 0 then observed else timestamp (pl_time_unix_nano r)),
                 observed_time_unix_nano = observed,
                 severity_number = severity (pl_severity_number r),
                 severity_text = pl_severity_text r,
                 trace_id = (case into_id (parse_trace_id (pl_trace_id r)) of Some i \<Rightarrow> i | None \<Rightarrow> replicate 16 0),
                 span_id = (case into_id (parse_span_id (pl_span_id r)) of Some i \<Rightarrow> i | None \<Rightarrow> replicate 8 0),
                 body = b, body_json = b_json, attributes = attrs,
                 dropped_attributes_count = pl_dropped_attributes_count r, flags = pl_flags r,
                 event_name = pl_event_name r, scope = sc\<rparr>))"

definition convert_scope ::
  "(json \<Rightarrow> string) \<Rightarrow> (f64 \<Rightarrow> string) \<Rightarrow> ScopeLogs \<Rightarrow> IngressError + LogRecord list" where
  "convert_scope render display_f64 sl =
     (let (name, version, attrs) =
            (case sl_scope sl of Some s \<Rightarrow> (is_name s, is_version s, is_attributes s) | None \<Rightarrow> ([], [], []))
      in try_bind (convert_attributes attrs) (\<lambda>scope_attributes.
           if sl_log_records sl = [] then Inr []
           else let sc = new_scope render name version scope_attributes (sl_schema_url sl)
                in collect_results (convert_record render display_f64 sc) (sl_log_records sl)))"

definition try_convert_batch ::
  "(json \<Rightarrow> string) \<Rightarrow> (f64 \<Rightarrow> string) \<Rightarrow> ResourceLogs \<Rightarrow> IngressError + LogChunk" where
  "try_convert_batch render display_f64 grp =
     try_bind (case rl_resource grp of
         None \<Rightarrow> Inr None
       | Some r \<Rightarrow> try_bind (convert_resource r (rl_schema_url grp)) (\<lambda>r'. Inr (Some r'))) (\<lambda>resource.
     try_bind (collect_results (convert_scope render display_f64) (rl_scope_logs grp)) (\<lambda>records.
       Inr \<lparr>chunk_origin = \<lparr>origin_resource = resource, origin_schema_url = rl_schema_url grp\<rparr>,
            chunk_records = concat records, chunk_commit_seq = 0\<rparr>))"

definition request_count :: "ResourceLogs list \<Rightarrow> usize" where
  "request_count resource_logs =
     sum_list (map (\<lambda>grp. sum_list (map (\<lambda>sl. length (sl_log_records sl)) (rl_scope_logs grp))) resource_logs)"

fun map_chunks ::
  "(json \<Rightarrow> string) \<Rightarrow> (f64 \<Rightarrow> string) \<Rightarrow> ResourceLogs list \<Rightarrow> IngressError + IngestMessage list" where
  "map_chunks render display_f64 [] = Inr []"
| "map_chunks render display_f64 (grp # grps) =
     try_bind (try_convert_batch render display_f64 grp) (\<lambda>chunk.
     try_bind (map_chunks render display_f64 grps) (\<lambda>chunks.
       Inr (if chunk_records chunk = [] then chunks else Logs chunk # chunks)))"

section \<open>The accepted values\<close>

text \<open>The reference for the stack walk: a recursive predicate.\<close>

fun fits :: "IngressConfig \<Rightarrow> usize \<Rightarrow> AnyValue \<Rightarrow> bool"
and entry_fits :: "IngressConfig \<Rightarrow> usize \<Rightarrow> KeyValue \<Rightarrow> bool" where
  "fits limits depth (AnyValue (Some (StringValue s))) \<longleftrightarrow> length s \<le> max_attribute_value_bytes limits"
| "fits limits depth (AnyValue (Some (BytesValue b))) \<longleftrightarrow> length b \<le> max_attribute_value_bytes limits"
| "fits limits depth (AnyValue (Some (ArrayValue vs))) \<longleftrightarrow>
     depth < MAX_NESTING_DEPTH \<and> (\<forall>v \<in> set vs. fits limits (depth + 1) v)"
| "fits limits depth (AnyValue (Some (KvlistValue kvs))) \<longleftrightarrow>
     depth < MAX_NESTING_DEPTH \<and> (\<forall>kv \<in> set kvs. entry_fits limits (depth + 1) kv)"
| "fits limits depth _ \<longleftrightarrow> True"
| "entry_fits limits depth (KeyValue key v i) \<longleftrightarrow>
     length key \<le> max_attribute_key_bytes limits \<and> (case v of None \<Rightarrow> True | Some x \<Rightarrow> fits limits depth x)"

text \<open>The same bounds on a model value with \<open>n\<close> levels of nesting left.\<close>

fun av_fits :: "IngressConfig \<Rightarrow> nat \<Rightarrow> AttributeValue \<Rightarrow> bool"
and attr_fits :: "IngressConfig \<Rightarrow> nat \<Rightarrow> Attribute \<Rightarrow> bool" where
  "av_fits limits n (AvString s) \<longleftrightarrow> length s \<le> max_attribute_value_bytes limits"
| "av_fits limits n (AvBytes b) \<longleftrightarrow> length b \<le> max_attribute_value_bytes limits"
| "av_fits limits n (AvArray vs) \<longleftrightarrow> 0 < n \<and> (\<forall>v \<in> set vs. av_fits limits (n - 1) v)"
| "av_fits limits n (AvKvlist as) \<longleftrightarrow> 0 < n \<and> (\<forall>a \<in> set as. attr_fits limits (n - 1) a)"
| "av_fits limits n _ \<longleftrightarrow> True"
| "attr_fits limits n (Attribute key v) \<longleftrightarrow> length key \<le> max_attribute_key_bytes limits \<and> av_fits limits n v"

lemma check_nested_keys_iff:
  "check_nested_keys limits what kvs = Inr () \<longleftrightarrow> (\<forall>kv \<in> set kvs. length (kv_key kv) \<le> max_attribute_key_bytes limits)"
  by (induction kvs) auto

lemma set_map_filter_value: "v \<in> set (List.map_filter kv_value kvs) \<longleftrightarrow> (\<exists>kv \<in> set kvs. kv_value kv = Some v)"
  by (force simp: List.map_filter_def)

lemma entry_fits_iff:
  "entry_fits limits d kv \<longleftrightarrow>
     length (kv_key kv) \<le> max_attribute_key_bytes limits \<and> (\<forall>v. kv_value kv = Some v \<longrightarrow> fits limits d v)"
  by (cases kv; cases "kv_value kv") auto

lemma check_walk_iff: "check_walk limits what stack = Inr () \<longleftrightarrow> (\<forall>(v, d) \<in> set stack. fits limits d v)"
proof (induction limits what stack rule: check_walk.induct)
  case (2 limits what current depth stack)
  note IH = "2.IH"
  show ?case
  proof (cases "any_value current")
    case None
    thus ?thesis using IH(1) by (cases current) auto
  next
    case (Some kind)
    hence c: "current = AnyValue (Some kind)" by (cases current) simp
    show ?thesis
    proof (cases kind)
      case (ArrayValue vs)
      thus ?thesis using IH(6)[OF Some ArrayValue] by (auto simp: c)
    next
      case (KvlistValue kvs)
      have "(\<forall>(v, d) \<in> set (rev (map (\<lambda>v. (v, depth + 1)) (List.map_filter kv_value kvs)) @ stack). fits limits d v) \<longleftrightarrow>
          (\<forall>kv \<in> set kvs. \<forall>v. kv_value kv = Some v \<longrightarrow> fits limits (depth + 1) v) \<and> (\<forall>(v, d) \<in> set stack. fits limits d v)"
        using set_map_filter_value[of _ kvs] by (simp add: ball_Un) blast
      thus ?thesis using IH(7)[OF Some KvlistValue] KvlistValue
        by (auto simp: c check_nested_keys_iff entry_fits_iff)
    qed (use IH Some c in auto)
  qed
qed simp

lemma fits_shallower: "fits limits d v \<Longrightarrow> d' \<le> d \<Longrightarrow> fits limits d' v"
  and entry_fits_shallower: "entry_fits limits d kv \<Longrightarrow> d' \<le> d \<Longrightarrow> entry_fits limits d' kv"
  by (induction limits d v and limits d kv arbitrary: d' and d' rule: fits_entry_fits.induct) (auto split: option.splits)

text \<open>Accepted values convert, and the result keeps the bounds.\<close>

lemma convert_fits:
  "fits limits d v \<Longrightarrow> \<exists>a. attribute_value_with_depth d v = Inr a \<and> av_fits limits (MAX_NESTING_DEPTH - d) a"
  "(\<forall>v \<in> set vs. fits limits d v) \<Longrightarrow>
     \<exists>as. array_values d vs = Inr as \<and> (\<forall>a \<in> set as. av_fits limits (MAX_NESTING_DEPTH - d) a)"
  "(\<forall>kv \<in> set kvs. entry_fits limits d kv) \<Longrightarrow>
     \<exists>as. kvlist_values d kvs = Inr as \<and> (\<forall>a \<in> set as. attr_fits limits (MAX_NESTING_DEPTH - d) a)"
  by (induction d v and d vs and d kvs rule: attribute_value_with_depth_array_values_kvlist_values.induct)
    (auto simp: Suc_diff_Suc split: option.splits)

lemma any_value_ok: "check_any_value limits what v = Inr () \<longleftrightarrow> fits limits 0 v"
  unfolding check_any_value_def check_walk_iff by simp

lemma check_entries_iff: "check_entries limits what kvs = Inr () \<longleftrightarrow> (\<forall>kv \<in> set kvs. entry_fits limits 0 kv)"
  by (induction kvs) (auto simp: any_value_ok entry_fits_iff split: option.splits)

lemma check_attributes_iff:
  "check_attributes limits what kvs = Inr () \<longleftrightarrow>
     length kvs \<le> max_attributes_per_record limits \<and> (\<forall>kv \<in> set kvs. entry_fits limits 0 kv)"
  by (auto simp: check_attributes_def check_entries_iff)

lemma check_plain_string_iff: "check_plain_string limits what s = Inr () \<longleftrightarrow> length s \<le> max_attribute_value_bytes limits"
  by (simp add: check_plain_string_def)

lemma check_scope_expansion_iff:
  "check_scope_expansion limits what n m = Inr () \<longleftrightarrow> n * m \<le> max_scope_metadata_expansion_bytes limits"
proof (cases "m = 0 \<or> n = 0")
  case False
  hence "max_scope_metadata_expansion_bytes limits div m < n \<longleftrightarrow> \<not> n * m \<le> max_scope_metadata_expansion_bytes limits"
    by (metis less_eq_div_iff_mult_less_eq not_gr_zero not_less)
  thus ?thesis using False unfolding check_scope_expansion_def Let_def by simp
qed (auto simp: check_scope_expansion_def)

lemma for_each_iff: "for_each f xs = Inr () \<longleftrightarrow> (\<forall>x \<in> set xs. f x = Inr ())"
  by (induction xs) auto

lemma collect_attribute_values: "collect_results attribute_value vs = array_values 0 vs"
  by (induction vs) (auto simp: attribute_value_def try_bind_def split: sum.splits)

lemma collect_results_list:
  "collect_results f xs = Inr ys \<longleftrightarrow> list_all2 (\<lambda>x y. f x = Inr y) xs ys"
  by (induction xs arbitrary: ys) (auto simp: list_all2_Cons1)

lemma collect_results_ok:
  "(\<And>x. x \<in> set xs \<Longrightarrow> \<exists>y. f x = Inr y \<and> P x y) \<Longrightarrow> \<exists>ys. collect_results f xs = Inr ys \<and> list_all2 P xs ys"
  by (induction xs) (auto simp: list_all2_Cons1, fastforce)

section \<open>Validation implies conversion\<close>

lemma convert_attributes_ok:
  assumes "check_attributes limits what kvs = Inr ()"
  shows "\<exists>as. convert_attributes kvs = Inr as \<and> (\<forall>a \<in> set as. attr_fits limits MAX_NESTING_DEPTH a)"
  using convert_fits(3)[of kvs limits 0] assms by (simp add: check_attributes_iff convert_attributes_def)

lemma body_value_ok:
  assumes "check_body limits b = Inr ()"
  shows "\<exists>r. body_value render display b = Inr r"
proof (cases "Option.bind b any_value")
  case None
  thus ?thesis by (simp add: body_value_def)
next
  case (Some kind)
  then obtain v where v: "b = Some v" "v = AnyValue (Some kind)" by (cases b) (auto, metis AnyValue.exhaust_sel)
  show ?thesis
  proof (cases kind)
    case (ArrayValue vs)
    hence "\<forall>v \<in> set vs. fits limits 1 v" using assms v by (simp add: check_body_def any_value_ok)
    hence "\<forall>v \<in> set vs. fits limits 0 v" using fits_shallower by blast
    thus ?thesis using convert_fits(2)[of vs limits 0] Some ArrayValue by (auto simp: body_value_def collect_attribute_values)
  next
    case (KvlistValue kvs)
    hence "\<forall>kv \<in> set kvs. entry_fits limits 1 kv" using assms v by (simp add: check_body_def any_value_ok)
    hence "\<forall>kv \<in> set kvs. entry_fits limits 0 kv" using entry_fits_shallower by blast
    thus ?thesis using convert_fits(3)[of kvs limits 0] Some KvlistValue by (auto simp: body_value_def convert_attributes_def)
  qed (use Some in \<open>auto simp: body_value_def\<close>)
qed

section \<open>Requests as record sequences\<close>

definition group_records :: "ResourceLogs \<Rightarrow> ProtoLogRecord list" where
  "group_records g = concat (map sl_log_records (rl_scope_logs g))"

definition request_records :: "ResourceLogs list \<Rightarrow> ProtoLogRecord list" where
  "request_records gs = concat (map group_records gs)"

fun message_records :: "IngestMessage \<Rightarrow> LogRecord list" where
  "message_records (Logs c) = chunk_records c"
| "message_records FlushBarrier = []"

abbreviation mapped_records :: "IngestMessage list \<Rightarrow> LogRecord list" where
  "mapped_records ms \<equiv> concat (map message_records ms)"

lemma length_request_records: "length (request_records gs) = request_count gs"
  by (induction gs) (simp_all add: request_records_def group_records_def request_count_def length_concat comp_def)

lemma length_message_records: "length (message_records m) = message_record_count m"
  by (cases m) simp_all

text \<open>What a mapped record keeps of the received one.\<close>

definition record_maps :: "ProtoLogRecord \<Rightarrow> LogRecord \<Rightarrow> bool" where
  "record_maps p r \<longleftrightarrow>
     observed_time_unix_nano r = timestamp (pl_observed_time_unix_nano p) \<and>
     time_unix_nano r = timestamp (if pl_time_unix_nano p = 0 then pl_observed_time_unix_nano p else pl_time_unix_nano p) \<and>
     severity_number r = severity (pl_severity_number p) \<and> severity_text r = pl_severity_text p \<and>
     trace_id r = (if length (pl_trace_id p) = 16 then pl_trace_id p else replicate 16 0) \<and>
     span_id r = (if length (pl_span_id p) = 8 then pl_span_id p else replicate 8 0) \<and>
     map attr_key (attributes r) = map kv_key (pl_attributes p) \<and>
     dropped_attributes_count r = pl_dropped_attributes_count p \<and> flags r = pl_flags p \<and> event_name r = pl_event_name p"

lemma id_or_zero:
  "0 < n \<Longrightarrow> (case into_id (parse_id n v) of Some i \<Rightarrow> i | None \<Rightarrow> replicate n 0) = (if length v = n then v else replicate n 0)"
  by (auto simp: parse_id_def)

lemma kvlist_keys: "kvlist_values d kvs = Inr as \<Longrightarrow> map attr_key as = map kv_key kvs"
proof (induction kvs arbitrary: as)
  case (Cons kv kvs)
  thus ?case by (cases kv) (auto split: option.splits)
qed simp

lemma convert_record_maps: "convert_record render display sc p = Inr r \<Longrightarrow> record_maps p r"
  by (auto simp: convert_record_def record_maps_def Let_def parse_trace_id_def parse_span_id_def id_or_zero
      convert_attributes_def dest: kvlist_keys split: prod.splits)

lemma convert_scope_maps:
  "convert_scope render display sl = Inr rs \<Longrightarrow> list_all2 record_maps (sl_log_records sl) rs"
  by (auto simp: convert_scope_def Let_def collect_results_list split: prod.splits if_splits
      elim!: list_all2_mono intro: convert_record_maps)

lemma list_all2_concat: "list_all2 (\<lambda>x ys. list_all2 P (f x) ys) xs yss \<Longrightarrow> list_all2 P (concat (map f xs)) (concat yss)"
  by (induction rule: list_all2_induct) (auto intro: list_all2_appendI)

lemma try_convert_batch_maps:
  assumes "try_convert_batch render display g = Inr c"
  shows "list_all2 record_maps (group_records g) (chunk_records c)" "chunk_commit_seq c = 0"
proof -
  obtain rss where rss: "collect_results (convert_scope render display) (rl_scope_logs g) = Inr rss" "chunk_records c = concat rss"
    and "chunk_commit_seq c = 0" using assms by (auto simp: try_convert_batch_def)
  thus "chunk_commit_seq c = 0" by simp
  have "list_all2 (\<lambda>sl rs. list_all2 record_maps (sl_log_records sl) rs) (rl_scope_logs g) rss"
    using rss(1) unfolding collect_results_list by (rule list_all2_mono) (rule convert_scope_maps)
  thus "list_all2 record_maps (group_records g) (chunk_records c)"
    unfolding group_records_def rss(2) by (rule list_all2_concat)
qed

lemma map_chunks_maps:
  assumes "map_chunks render display gs = Inr ms"
  shows "list_all2 record_maps (request_records gs) (mapped_records ms) \<and>
         (\<forall>m \<in> set ms. 0 < message_record_count m \<and> commit_seq m = Some 0) \<and> length ms \<le> length gs"
  using assms
proof (induction gs arbitrary: ms)
  case (Cons g gs)
  then obtain c ms' where c: "try_convert_batch render display g = Inr c" "map_chunks render display gs = Inr ms'"
    "ms = (if chunk_records c = [] then ms' else Logs c # ms')" by auto
  have "list_all2 record_maps (group_records g @ request_records gs) (chunk_records c @ mapped_records ms')"
    using try_convert_batch_maps(1)[OF c(1)] Cons.IH[OF c(2)] by (intro list_all2_appendI) auto
  thus ?case using Cons.IH[OF c(2)] try_convert_batch_maps(2)[OF c(1)] c(3) by (auto simp: request_records_def)
qed (simp add: request_records_def)

text \<open>The bounds on a mapped record.\<close>

definition record_fits :: "IngressConfig \<Rightarrow> LogRecord \<Rightarrow> bool" where
  "record_fits limits r \<longleftrightarrow>
     length (attributes r) \<le> max_attributes_per_record limits \<and>
     (\<forall>a \<in> set (attributes r). attr_fits limits MAX_NESTING_DEPTH a) \<and>
     length (severity_text r) \<le> max_attribute_value_bytes limits \<and> length (event_name r) \<le> max_attribute_value_bytes limits"

lemma convert_record_ok:
  assumes "validate_record limits p = Inr ()"
  shows "\<exists>r. convert_record render display sc p = Inr r \<and> record_fits limits r"
proof -
  have v: "check_attributes limits ''log.attributes'' (pl_attributes p) = Inr ()" "check_body limits (pl_body p) = Inr ()"
    "length (pl_severity_text p) \<le> max_attribute_value_bytes limits" "length (pl_event_name p) \<le> max_attribute_value_bytes limits"
    using assms by (auto simp: validate_record_def check_plain_string_iff)
  obtain as where as: "convert_attributes (pl_attributes p) = Inr as" "\<forall>a \<in> set as. attr_fits limits MAX_NESTING_DEPTH a"
    using convert_attributes_ok[OF v(1)] by blast
  have "length as = length (pl_attributes p)" using as(1) kvlist_keys by (metis convert_attributes_def length_map)
  moreover obtain b bj where "body_value render display (pl_body p) = Inr (b, bj)" using body_value_ok[OF v(2)] by (metis surj_pair)
  ultimately show ?thesis using v as by (simp add: convert_record_def Let_def record_fits_def check_attributes_iff)
qed

lemma convert_scope_ok:
  assumes "validate_scope ly limits sl = Inr ()"
  shows "\<exists>rs. convert_scope render display sl = Inr rs \<and> list_all (record_fits limits) rs"
proof -
  obtain name version kvs where sc: "(case sl_scope sl of Some s \<Rightarrow> (is_name s, is_version s, is_attributes s) | None \<Rightarrow> ([], [], [])) =
      (name, version, kvs)" by (rule prod_cases3)
  have "\<exists>as. convert_attributes kvs = Inr as"
  proof (cases "sl_scope sl")
    case None
    thus ?thesis using sc by (simp add: convert_attributes_def)
  next
    case (Some s)
    hence "check_attributes limits ''scope.attributes'' kvs = Inr ()" using assms sc by (auto simp: validate_scope_def)
    thus ?thesis using convert_attributes_ok by blast
  qed
  then obtain as where as: "convert_attributes kvs = Inr as" ..
  have "\<forall>p \<in> set (sl_log_records sl). validate_record limits p = Inr ()"
    using assms by (auto simp: validate_scope_def for_each_iff)
  hence "\<exists>rs. collect_results (convert_record render display (new_scope render name version as (sl_schema_url sl)))
      (sl_log_records sl) = Inr rs \<and> list_all2 (\<lambda>p r. record_fits limits r) (sl_log_records sl) rs"
    using convert_record_ok by (intro collect_results_ok) blast
  then obtain rs where rs: "collect_results (convert_record render display (new_scope render name version as (sl_schema_url sl)))
      (sl_log_records sl) = Inr rs" "list_all2 (\<lambda>p r. record_fits limits r) (sl_log_records sl) rs" by blast
  from rs(2) have "list_all (record_fits limits) rs" by (induction rule: list_all2_induct) auto
  thus ?thesis using rs(1) unfolding convert_scope_def sc Let_def prod.case as try_bind_simps by simp
qed

lemma try_convert_batch_ok:
  assumes "validate_group ly limits g = Inr ()"
  shows "\<exists>c. try_convert_batch render display g = Inr c \<and> list_all (record_fits limits) (chunk_records c)"
proof -
  have "\<forall>sl \<in> set (rl_scope_logs g). validate_scope ly limits sl = Inr ()" using assms by (auto simp: validate_group_def for_each_iff)
  then obtain rss where "collect_results (convert_scope render display) (rl_scope_logs g) = Inr rss"
    "list_all2 (\<lambda>sl rs. list_all (record_fits limits) rs) (rl_scope_logs g) rss"
    using collect_results_ok[of "rl_scope_logs g" "convert_scope render display" "\<lambda>sl rs. list_all (record_fits limits) rs"]
      convert_scope_ok by blast
  moreover from this(2) have "list_all (record_fits limits) (concat rss)" by (induction rule: list_all2_induct) auto
  moreover have "\<exists>r. (case rl_resource g of None \<Rightarrow> Inr None
       | Some r \<Rightarrow> try_bind (convert_resource r (rl_schema_url g)) (\<lambda>r'. Inr (Some r'))) = (Inr r :: IngressError + Resource option)"
    using assms convert_attributes_ok[of limits "''resource.attributes''"]
    by (cases "rl_resource g") (fastforce simp: validate_group_def convert_resource_def)+
  ultimately show ?thesis by (auto simp: try_convert_batch_def)
qed

lemma map_chunks_ok:
  "validate_request ly limits gs = Inr () \<Longrightarrow>
   \<exists>ms. map_chunks render display gs = Inr ms \<and> list_all (record_fits limits) (mapped_records ms)"
proof (induction gs)
  case (Cons g gs)
  hence "validate_group ly limits g = Inr ()" "validate_request ly limits gs = Inr ()"
    by (auto simp: validate_request_def)
  then obtain c ms where "try_convert_batch render display g = Inr c" "list_all (record_fits limits) (chunk_records c)"
    "map_chunks render display gs = Inr ms" "list_all (record_fits limits) (mapped_records ms)"
    using try_convert_batch_ok Cons.IH by blast
  thus ?case by simp
qed simp

definition sample_proto_record :: ProtoLogRecord where
  "sample_proto_record =
     \<lparr>pl_time_unix_nano = 0, pl_observed_time_unix_nano = 7, pl_severity_number = 9, pl_severity_text = ''INFO'',
      pl_body = Some (AnyValue (Some (StringValue ''hello''))),
      pl_attributes = [KeyValue ''k'' (Some (AnyValue (Some (ArrayValue [AnyValue (Some (IntValue 3))])))) 0],
      pl_dropped_attributes_count = 0, pl_flags = 1, pl_trace_id = [1], pl_span_id = [], pl_event_name = []\<rparr>"

definition sample_request :: "ResourceLogs list" where
  "sample_request =
     [\<lparr>rl_resource = None,
       rl_scope_logs = [\<lparr>sl_scope = None, sl_log_records = [sample_proto_record], sl_schema_url = []\<rparr>], rl_schema_url = []\<rparr>]"

lemma sample_request_valid: "validate_request ly default_ingress_config sample_request = Inr ()"
  by (simp add: validate_request_def validate_group_def validate_scope_def validate_record_def sample_request_def
      sample_proto_record_def check_plain_string_iff check_attributes_iff check_scope_expansion_iff check_body_def
      scope_metadata_bytes_def MAX_NESTING_DEPTH_def default_ingress_config_def)

section \<open>Properties\<close>

text \<open>
  C30: The explicit-stack validator equals the recursive specification: for every value and
  every limits it accepts exactly the values whose strings, byte strings and nested keys
  are within their limits and whose containers nest at most \<open>MAX_NESTING_DEPTH\<close> deep; it
  terminates on every input.
\<close>

theorem stack_walk_equals_recursion:
  "check_any_value limits what v = Inr () \<longleftrightarrow> fits limits 0 v"
  by (rule any_value_ok)

text \<open>
  C6: A request that passes validation always maps: no depth or size bound of the conversion
  rejects it afterwards, and every mapped record respects the configured limits on the
  number, the keys, the leaves and the nesting of its attributes.
\<close>

theorem validated_request_maps:
  assumes "validate_request ly limits gs = Inr ()"
  shows "\<exists>ms. map_chunks render display gs = Inr ms \<and> (\<forall>r \<in> set (mapped_records ms). record_fits limits r)"
  using map_chunks_ok[OF assms] by (simp add: list_all_iff)

theorem validated_request_maps_witness:
  "\<exists>ms. map_chunks (\<lambda>_. []) (\<lambda>_. []) sample_request = Inr ms \<and> (\<forall>r \<in> set (mapped_records ms). record_fits default_ingress_config r)"
  using validated_request_maps[OF sample_request_valid] by blast

text \<open>
  C19: Mapping neither loses, adds nor reorders records: the records of the chunks are, in
  order, the records of the request, each with its own timestamps (saturated, an unset
  time replaced by the observed time), severity, identifiers (an invalid one zeroed),
  attribute keys and flags; every chunk is non-empty and unstamped, and there are at most
  as many chunks as resource groups.
\<close>

theorem mapping_conserves_records:
  assumes "map_chunks render display gs = Inr ms"
  shows "list_all2 record_maps (request_records gs) (mapped_records ms) \<and>
         sum_list (map message_record_count ms) = request_count gs \<and>
         (\<forall>m \<in> set ms. 0 < message_record_count m \<and> commit_seq m = Some 0) \<and> length ms \<le> length gs"
proof -
  note m = map_chunks_maps[OF assms]
  hence "length (mapped_records ms) = request_count gs"
    using list_all2_lengthD length_request_records by metis
  thus ?thesis using m by (simp add: length_concat comp_def length_message_records)
qed

theorem mapping_conserves_records_witness:
  "\<exists>ms. map_chunks (\<lambda>_. []) (\<lambda>_. []) sample_request = Inr ms \<and> list_all2 record_maps [sample_proto_record] (mapped_records ms) \<and>
        sum_list (map message_record_count ms) = 1"
proof -
  obtain ms where ms: "map_chunks (\<lambda>_. []) (\<lambda>_. []) sample_request = Inr ms"
    using map_chunks_ok[OF sample_request_valid] by blast
  have "request_records sample_request = [sample_proto_record]" "request_count sample_request = 1"
    by (simp_all add: sample_request_def request_records_def group_records_def request_count_def)
  thus ?thesis using mapping_conserves_records[OF ms] ms by auto
qed

end
