(* ===== verification/Ingress_Queue.thy ===== *)
theory Ingress_Queue
  imports Commit_Ledger Otlp_Mapping
begin

text \<open>
  The admission of requests to the ingest queue (\<open>otel-sqlite-ingress/src/lib.rs\<close> and
  \<open>enqueue.rs\<close>).

  The bounded channel is third-party code: a parameter \<open>ch\<close> over a state \<open>'q\<close>, of which the
  sources use the length and \<open>try_send\<close>.  The storage consumer may take messages at any
  moment, so a call may also shorten the queue.  The admission gate makes the operations of
  one request a single sequence; its poisoning is recovered from and not modelled.  What
  happens during the pauses of a control send is the parameter \<open>pause\<close>.  Metrics are omitted.
\<close>

section \<open>The channel\<close>

datatype SendFailure = SendFull | SendDisconnected

record 'q channel =
  ch_len :: "'q \<Rightarrow> usize"
  ch_try_send :: "IngestMessage \<Rightarrow> 'q \<Rightarrow> SendFailure option \<times> 'q"

text \<open>
  The documented behaviour of a bounded channel, while no other producer is let in: a
  successful send appends to the messages accepted so far and adds at most one to the length
  (the consumer only removes); a failed one adds nothing; \<open>Full\<close> is returned only at
  capacity, which the length never exceeds.
\<close>

definition channel_laws :: "'q channel \<Rightarrow> usize \<Rightarrow> ('q \<Rightarrow> IngestMessage list) \<Rightarrow> bool" where
  "channel_laws ch cap accepted \<longleftrightarrow>
     (\<forall>m q q'. ch_try_send ch m q = (None, q') \<longrightarrow> accepted q' = accepted q @ [m] \<and> ch_len ch q' \<le> ch_len ch q + 1) \<and>
     (\<forall>m e q q'. ch_try_send ch m q = (Some e, q') \<longrightarrow> accepted q' = accepted q \<and> ch_len ch q' \<le> ch_len ch q) \<and>
     (\<forall>m q q'. ch_try_send ch m q = (Some SendFull, q') \<longrightarrow> cap \<le> ch_len ch q) \<and>
     (\<forall>q. ch_len ch q \<le> cap)"

section \<open>The sender\<close>

record 'q IngestSender =
  snd_inner :: "'q channel"
  snd_capacity :: usize

definition sender_len :: "'q IngestSender \<Rightarrow> 'q \<Rightarrow> usize" where
  "sender_len s q = ch_len (snd_inner s) q"

definition ingest_channel :: "'q channel \<Rightarrow> usize \<Rightarrow> 'q IngestSender" where
  "ingest_channel ch capacity = \<lparr>snd_inner = ch, snd_capacity = capacity\<rparr>"

text \<open>\<open>reserve\<close> succeeds; the guard it returns holds the gate.\<close>

definition reserve :: "'q IngestSender \<Rightarrow> usize \<Rightarrow> 'q \<Rightarrow> bool" where
  "reserve s n q \<longleftrightarrow> saturating_add (sender_len s q) n \<le> snd_capacity s"

definition guard_try_send :: "'q IngestSender \<Rightarrow> IngestMessage \<Rightarrow> 'q \<Rightarrow> (SendFailure + unit) \<times> 'q" where
  "guard_try_send s m q =
     (case ch_try_send (snd_inner s) m q of
        (None, q') \<Rightarrow> (Inr (), q')
      | (Some e, q') \<Rightarrow> (Inl e, q'))"

partial_function (option) control_send ::
  "'q IngestSender \<Rightarrow> ('q \<Rightarrow> 'q) \<Rightarrow> IngestMessage \<Rightarrow> 'q \<Rightarrow> ((SendFailure + unit) \<times> 'q) option" where
  "control_send s pause m q =
     (case ch_try_send (snd_inner s) m q of
        (None, q') \<Rightarrow> Some (Inr (), q')
      | (Some SendDisconnected, q') \<Rightarrow> Some (Inl SendDisconnected, q')
      | (Some SendFull, q') \<Rightarrow> control_send s pause m (pause q'))"

datatype SendTimeoutFailure = SendTimedOut | SendTimeoutDisconnected

text \<open>The clock is read after each refused attempt.\<close>

partial_function (option) send_until ::
  "'q IngestSender \<Rightarrow> ('q \<Rightarrow> 'q) \<Rightarrow> (nat \<Rightarrow> instant) \<Rightarrow> instant \<Rightarrow> nat \<Rightarrow> IngestMessage \<Rightarrow> 'q \<Rightarrow>
   ((SendTimeoutFailure + unit) \<times> 'q) option" where
  "send_until s pause clock deadline i m q =
     (case ch_try_send (snd_inner s) m q of
        (None, q') \<Rightarrow> Some (Inr (), q')
      | (Some SendDisconnected, q') \<Rightarrow> Some (Inl SendTimeoutDisconnected, q')
      | (Some SendFull, q') \<Rightarrow>
          if clock i \<ge> deadline then Some (Inl SendTimedOut, q')
          else send_until s pause clock deadline (Suc i) m (pause q'))"

text \<open>\<open>Instant::now() + timeout\<close> panics when it is not representable.\<close>

definition send_timeout ::
  "'q IngestSender \<Rightarrow> ('q \<Rightarrow> 'q) \<Rightarrow> (nat \<Rightarrow> instant) \<Rightarrow> instant \<Rightarrow> duration \<Rightarrow> IngestMessage \<Rightarrow> 'q \<Rightarrow>
   ((SendTimeoutFailure + unit) \<times> 'q) option" where
  "send_timeout s pause clock now timeout m q =
     Option.bind (checked_add now timeout) (\<lambda>deadline. send_until s pause clock deadline 0 m q)"

section \<open>Enqueueing a request\<close>

record EnqueueOutcome =
  eo_accepted :: u64
  eo_rejected :: u64
  eo_disconnected :: bool
  eo_last_ticket :: "u64 option"
  eo_total_records :: u64
  eo_tickets :: "(u64 \<times> u64) list"

definition default_outcome :: EnqueueOutcome where
  "default_outcome =
     \<lparr>eo_accepted = 0, eo_rejected = 0, eo_disconnected = False, eo_last_ticket = None, eo_total_records = 0, eo_tickets = []\<rparr>"

fun enqueue_loop ::
  "'q IngestSender \<Rightarrow> u64 \<Rightarrow> IngestMessage list \<Rightarrow> EnqueueOutcome \<Rightarrow> CommitLedger \<Rightarrow> 'q \<Rightarrow> EnqueueOutcome \<times> CommitLedger \<times> 'q" where
  "enqueue_loop s now_ms [] eo l q = (eo, l, q)"
| "enqueue_loop s now_ms (m # ms) eo l q =
     (let records = message_record_count m; (ticket, l1) = issue l
      in case guard_try_send s (set_commit_seq ticket m) q of
           (Inr _, q1) \<Rightarrow>
             enqueue_loop s now_ms ms
               (eo\<lparr>eo_accepted := wrapping_add (eo_accepted eo) records, eo_last_ticket := Some ticket,
                   eo_tickets := eo_tickets eo @ [(ticket, records)]\<rparr>) l1 q1
         | (Inl SendFull, q1) \<Rightarrow>
             (eo\<lparr>eo_rejected := eo_total_records eo - eo_accepted eo\<rparr>, void now_ms ticket l1, q1)
         | (Inl SendDisconnected, q1) \<Rightarrow>
             (eo\<lparr>eo_rejected := eo_total_records eo - eo_accepted eo, eo_disconnected := True\<rparr>, void now_ms ticket l1, q1))"

definition enqueue ::
  "'q IngestSender \<Rightarrow> u64 \<Rightarrow> IngestMessage list \<Rightarrow> CommitLedger \<Rightarrow> 'q \<Rightarrow> (IngressError + EnqueueOutcome) \<times> CommitLedger \<times> 'q" where
  "enqueue s now_ms work l q =
     (let total_records = fold (\<lambda>m n. wrapping_add n (message_record_count m)) work 0;
          eo = default_outcome\<lparr>eo_total_records := total_records\<rparr>
      in if length work > snd_capacity s
         then (Inl (Mapping (''request maps to '' @ show_nat (length work) @
                 '' chunks, which exceeds the ingest queue capacity of '' @ show_nat (snd_capacity s) @ ''; split the request'')),
               l, q)
         else if \<not> reserve s (length work) q then (Inr (eo\<lparr>eo_rejected := total_records\<rparr>), l, q)
         else case enqueue_loop s now_ms work eo l q of (eo', l', q') \<Rightarrow> (Inr eo', l', q'))"

section \<open>The loop under a reservation\<close>

definition record_total :: "IngestMessage list \<Rightarrow> nat" where
  "record_total ms = sum_list (map message_record_count ms)"

lemma record_total_simps [simp]:
  "record_total [] = 0" "record_total (m # ms) = message_record_count m + record_total ms"
  "record_total (ms @ ns) = record_total ms + record_total ns"
  by (simp_all add: record_total_def)

text \<open>Tickets \<open>t + 1, t + 2, ...\<close> paired with messages.\<close>

definition stamped :: "u64 \<Rightarrow> IngestMessage list \<Rightarrow> IngestMessage list" where
  "stamped t ms = map2 set_commit_seq [Suc t..<Suc t + length ms] ms"

definition ticketed :: "u64 \<Rightarrow> IngestMessage list \<Rightarrow> (u64 \<times> u64) list" where
  "ticketed t ms = zip [Suc t..<Suc t + length ms] (map message_record_count ms)"

lemma stamped_simps [simp]:
  "stamped t [] = []" "stamped t (m # ms) = set_commit_seq (Suc t) m # stamped (Suc t) ms"
  by (simp_all add: stamped_def upt_conv_Cons del: upt_Suc)

lemma ticketed_simps [simp]:
  "ticketed t [] = []" "ticketed t (m # ms) = (Suc t, message_record_count m) # ticketed (Suc t) ms"
  by (simp_all add: ticketed_def upt_conv_Cons del: upt_Suc)

lemma fold_total: "n + record_total ms \<le> U64_MAX \<Longrightarrow> fold (\<lambda>m n. wrapping_add n (message_record_count m)) ms n = n + record_total ms"
  by (induction ms arbitrary: n) (simp_all add: wrapping_add_exact)

lemma issue_next: "next_ticket l < U64_MAX \<Longrightarrow> issue l = (Suc (next_ticket l), l\<lparr>next_ticket := Suc (next_ticket l)\<rparr>)"
  by (simp add: issue_def wrapping_add_exact)

text \<open>What the loop leaves after accepting the first \<open>k\<close> messages.\<close>

definition enqueued ::
  "('q \<Rightarrow> IngestMessage list) \<Rightarrow> u64 \<Rightarrow> IngestMessage list \<Rightarrow> EnqueueOutcome \<Rightarrow> CommitLedger \<Rightarrow> 'q \<Rightarrow>
   nat \<Rightarrow> EnqueueOutcome \<Rightarrow> CommitLedger \<Rightarrow> 'q \<Rightarrow> bool" where
  "enqueued accepted now ms eo l q k eo' l' q' \<longleftrightarrow>
     k \<le> length ms \<and> accepted q' = accepted q @ stamped (next_ticket l) (take k ms) \<and>
     eo_accepted eo' = eo_accepted eo + record_total (take k ms) \<and> eo_total_records eo' = eo_total_records eo \<and>
     eo_tickets eo' = eo_tickets eo @ ticketed (next_ticket l) (take k ms) \<and>
     eo_last_ticket eo' = (if k = 0 then eo_last_ticket eo else Some (next_ticket l + k)) \<and>
     (if k = length ms
      then eo_rejected eo' = eo_rejected eo \<and> eo_disconnected eo' = eo_disconnected eo \<and> l' = l\<lparr>next_ticket := next_ticket l + k\<rparr>
      else eo_rejected eo' = eo_total_records eo - eo_accepted eo' \<and> eo_disconnected eo' \<and>
           l' = void now (next_ticket l + k + 1) (l\<lparr>next_ticket := next_ticket l + k + 1\<rparr>))"

lemma enqueue_loop_enqueued:
  assumes laws: "channel_laws (snd_inner s) (snd_capacity s) accepted"
    and "enqueue_loop s now ms eo l q = (eo', l', q')"
    and "sender_len s q + length ms \<le> snd_capacity s" "next_ticket l + length ms \<le> U64_MAX"
    and "eo_accepted eo + record_total ms \<le> U64_MAX"
  shows "\<exists>k. enqueued accepted now ms eo l q k eo' l' q'"
  using assms(2-)
proof (induction ms arbitrary: eo l q)
  case Nil
  thus ?case by (auto simp: enqueued_def intro!: exI[of _ 0])
next
  case (Cons m ms)
  let ?t = "Suc (next_ticket l)" and ?l1 = "l\<lparr>next_ticket := Suc (next_ticket l)\<rparr>"
  have iss: "issue l = (?t, ?l1)" using Cons.prems(3) by (intro issue_next) simp
  obtain r q1 where send: "ch_try_send (snd_inner s) (set_commit_seq ?t m) q = (r, q1)" by fastforce
  show ?case
  proof (cases r)
    case None
    let ?eo = "eo\<lparr>eo_accepted := wrapping_add (eo_accepted eo) (message_record_count m), eo_last_ticket := Some ?t,
                   eo_tickets := eo_tickets eo @ [(?t, message_record_count m)]\<rparr>"
    have q1: "accepted q1 = accepted q @ [set_commit_seq ?t m]" "ch_len (snd_inner s) q1 \<le> ch_len (snd_inner s) q + 1"
      using laws send None unfolding channel_laws_def by blast+
    have acc: "wrapping_add (eo_accepted eo) (message_record_count m) = eo_accepted eo + message_record_count m"
      using Cons.prems(4) by (intro wrapping_add_exact) simp
    have "enqueue_loop s now ms ?eo ?l1 q1 = (eo', l', q')"
      using Cons.prems(1) send None iss by (simp add: guard_try_send_def Let_def)
    then obtain k where k: "enqueued accepted now ms ?eo ?l1 q1 k eo' l' q'"
      using Cons.IH[of ?eo ?l1 q1] Cons.prems q1(2) acc by (auto simp: sender_len_def)
    have "enqueued accepted now (m # ms) eo l q (Suc k) eo' l' q'"
      using k q1(1) acc by (auto simp: enqueued_def)
    thus ?thesis by blast
  next
    case (Some e)
    have "e \<noteq> SendFull" using laws send Some Cons.prems(2) unfolding channel_laws_def sender_len_def by fastforce
    hence "e = SendDisconnected" by (cases e) auto
    moreover have "accepted q1 = accepted q" using laws send Some unfolding channel_laws_def by blast
    ultimately have "enqueued accepted now (m # ms) eo l q 0 eo' l' q'"
      using Cons.prems(1) send Some iss by (auto simp: enqueued_def guard_try_send_def Let_def)
    thus ?thesis by blast
  qed
qed

lemma enqueue_cases:
  assumes "channel_laws (snd_inner s) (snd_capacity s) accepted"
    and "enqueue s now work l q = (r, l', q')"
    and "next_ticket l + length work \<le> U64_MAX" "record_total work \<le> U64_MAX" "snd_capacity s < U64_MAX"
  obtains (too_big) e where "r = Inl e" "snd_capacity s < length work" "l' = l" "q' = q"
  | (no_room) eo where "r = Inr eo" "snd_capacity s < sender_len s q + length work" "work \<noteq> []" "eo_accepted eo = 0"
      "eo_rejected eo = record_total work" "eo_tickets eo = []" "l' = l" "q' = q"
  | (admitted) eo k where "r = Inr eo" "eo_rejected eo = record_total (drop k work)"
      "enqueued accepted now work (default_outcome\<lparr>eo_total_records := record_total work\<rparr>) l q k eo l' q'"
proof -
  have tot: "fold (\<lambda>m n. wrapping_add n (message_record_count m)) work 0 = record_total work"
    using fold_total[of 0 work] assms(4) by simp
  consider (big) "snd_capacity s < length work" | (none) "length work \<le> snd_capacity s" "\<not> reserve s (length work) q"
    | (room) "length work \<le> snd_capacity s" "reserve s (length work) q" by linarith
  thus thesis
  proof cases
    case big
    thus thesis using assms(2) by (intro too_big) (auto simp: enqueue_def Let_def)
  next
    case none
    have full: "snd_capacity s < sender_len s q + length work"
      using none by (auto simp: reserve_def saturating_add_def min_def split: if_splits)
    moreover have "sender_len s q \<le> snd_capacity s" using assms(1) by (simp add: channel_laws_def sender_len_def)
    ultimately have "work \<noteq> []" by auto
    moreover have "r = Inr (default_outcome\<lparr>eo_total_records := record_total work, eo_rejected := record_total work\<rparr>)" "l' = l" "q' = q"
      using none assms(2) tot by (auto simp: enqueue_def Let_def)
    ultimately show thesis using full by (intro no_room) (auto simp: default_outcome_def)
  next
    case room
    let ?eo = "default_outcome\<lparr>eo_total_records := record_total work\<rparr>"
    have fit: "sender_len s q + length work \<le> snd_capacity s"
      using room(2) assms(5) by (auto simp: reserve_def saturating_add_def min_def split: if_splits)
    obtain eo' where run: "enqueue_loop s now work ?eo l q = (eo', l', q')" "r = Inr eo'"
      using assms(2) room tot by (auto simp: enqueue_def Let_def split: prod.splits)
    obtain k where k: "enqueued accepted now work ?eo l q k eo' l' q'"
      using enqueue_loop_enqueued[OF assms(1) run(1) fit assms(3)] assms(4) by (auto simp: default_outcome_def)
    have "record_total work = record_total (take k work) + record_total (drop k work)"
      by (metis append_take_drop_id record_total_simps(3))
    hence "eo_rejected eo' = record_total (drop k work)"
      using k by (auto simp: enqueued_def default_outcome_def split: if_splits)
    thus thesis using k run(2) admitted by blast
  qed
qed

section \<open>Control messages\<close>

lemma send_until_returns:
  "deadline \<le> clock (i + k) \<Longrightarrow> \<exists>r. send_until s pause clock deadline i m q = Some r"
proof (induction k arbitrary: i q)
  case 0
  thus ?case by (subst send_until.simps) (auto split: option.splits SendFailure.splits prod.splits)
next
  case (Suc k)
  have "\<exists>r. send_until s pause clock deadline (Suc i) m (pause q') = Some r" for q' using Suc by simp
  thus ?case by (subst send_until.simps) (auto split: option.splits SendFailure.splits prod.splits)
qed

text \<open>A control send with a deadline returns as soon as the clock has passed it.\<close>

lemma send_timeout_returns:
  "now + timeout \<le> INSTANT_MAX \<Longrightarrow> now + timeout \<le> clock k \<Longrightarrow> \<exists>r. send_timeout s pause clock now timeout m q = Some r"
  using send_until_returns[of "now + timeout" clock 0 k] by (simp add: send_timeout_def checked_add_def)

lemma control_send_once:
  "ch_try_send (snd_inner s) m q = (None, q') \<Longrightarrow> control_send s pause m q = Some (Inr (), q')"
  "ch_try_send (snd_inner s) m q = (Some SendDisconnected, q') \<Longrightarrow> control_send s pause m q = Some (Inl SendDisconnected, q')"
  "ch_try_send (snd_inner s) m q = (Some SendFull, q') \<Longrightarrow> control_send s pause m q = control_send s pause m (pause q')"
  by (subst control_send.simps, simp)+

section \<open>Properties\<close>

text \<open>
  C8: Admission is all-or-nothing.  Either the request has more chunks than the queue can ever
  hold and is refused for good, or there is no room for all of it and it is rejected whole;
  in both cases the queue and the ledger are untouched.  Or it is admitted: a prefix of its
  chunks, in order and stamped with consecutive fresh tickets, enters the queue, which is
  the whole request unless the storage side disconnected, in which case the one unsent
  ticket is voided.  \<open>Full\<close> is never met under a reservation, and the accepted and rejected
  counts always add up to the request.
\<close>

theorem enqueue_all_or_nothing:
  assumes "channel_laws (snd_inner s) (snd_capacity s) accepted"
    and "enqueue s now work l q = (r, l', q')"
    and "next_ticket l + length work \<le> U64_MAX" "record_total work \<le> U64_MAX" "snd_capacity s < U64_MAX"
  shows "case r of
      Inl _ \<Rightarrow> snd_capacity s < length work \<and> l' = l \<and> q' = q
    | Inr eo \<Rightarrow>
        (snd_capacity s < sender_len s q + length work \<and> eo_accepted eo = 0 \<and> eo_rejected eo = record_total work \<and>
         eo_tickets eo = [] \<and> l' = l \<and> q' = q) \<or>
        (\<exists>k \<le> length work.
           accepted q' = accepted q @ stamped (next_ticket l) (take k work) \<and>
           eo_tickets eo = ticketed (next_ticket l) (take k work) \<and>
           eo_last_ticket eo = (if k = 0 then None else Some (next_ticket l + k)) \<and>
           eo_accepted eo = record_total (take k work) \<and> eo_rejected eo = record_total (drop k work) \<and>
           (if k = length work then l' = l\<lparr>next_ticket := next_ticket l + k\<rparr>
            else eo_disconnected eo \<and> l' = void now (next_ticket l + k + 1) (l\<lparr>next_ticket := next_ticket l + k + 1\<rparr>)))"
  using assms
proof (cases rule: enqueue_cases)
  case (admitted eo k)
  hence "k \<le> length work \<and> accepted q' = accepted q @ stamped (next_ticket l) (take k work) \<and>
      eo_tickets eo = ticketed (next_ticket l) (take k work) \<and>
      eo_last_ticket eo = (if k = 0 then None else Some (next_ticket l + k)) \<and>
      eo_accepted eo = record_total (take k work) \<and> eo_rejected eo = record_total (drop k work) \<and>
      (if k = length work then l' = l\<lparr>next_ticket := next_ticket l + k\<rparr>
       else eo_disconnected eo \<and> l' = void now (next_ticket l + k + 1) (l\<lparr>next_ticket := next_ticket l + k + 1\<rparr>))"
    unfolding enqueued_def by (simp add: default_outcome_def)
  thus ?thesis unfolding admitted(1) sum.case by blast
qed auto

text \<open>A queue with four slots that nobody drains.\<close>

definition sample_channel :: "IngestMessage list channel" where
  "sample_channel = \<lparr>ch_len = (\<lambda>q. min 4 (length q)), ch_try_send = (\<lambda>m q. if length q < 4 then (None, q @ [m]) else (Some SendFull, q))\<rparr>"

lemma sample_channel_laws: "channel_laws sample_channel 4 (\<lambda>q. q)"
  by (auto simp: channel_laws_def sample_channel_def split: if_splits)

definition sample_chunk :: IngestMessage where
  "sample_chunk = Logs \<lparr>chunk_origin = \<lparr>origin_resource = None, origin_schema_url = []\<rparr>,
     chunk_records = [default_record (\<lambda>_. [])], chunk_commit_seq = 0\<rparr>"

theorem enqueue_all_or_nothing_witness:
  "\<exists>eo l' q'. enqueue (ingest_channel sample_channel 4) 0 [sample_chunk, sample_chunk] (new_ledger 0) [] = (Inr eo, l', q') \<and>
     eo_accepted eo + eo_rejected eo = 2"
proof -
  let ?s = "ingest_channel sample_channel 4" and ?work = "[sample_chunk, sample_chunk]"
  obtain r l' q' where run: "enqueue ?s 0 ?work (new_ledger 0) [] = (r, l', q')" by (metis surj_pair)
  have tot: "record_total ?work = 2" by (simp add: sample_chunk_def)
  have parts: "record_total (take k ?work) + record_total (drop k ?work) = 2" for k
    using tot by (metis append_take_drop_id record_total_simps(3))
  have "channel_laws (snd_inner ?s) (snd_capacity ?s) (\<lambda>q. q)" "snd_capacity ?s = 4" "next_ticket (new_ledger 0) = 0"
    using sample_channel_laws by (simp_all add: ingest_channel_def new_ledger_def)
  note main = enqueue_all_or_nothing[OF this(1) run]
  have "case r of Inl _ \<Rightarrow> False | Inr eo \<Rightarrow> eo_accepted eo + eo_rejected eo = 2"
  proof (cases r)
    case (Inr eo)
    thus ?thesis using main parts tot \<open>snd_capacity ?s = 4\<close> \<open>next_ticket (new_ledger 0) = 0\<close> by auto
  qed (use main tot \<open>snd_capacity ?s = 4\<close> \<open>next_ticket (new_ledger 0) = 0\<close> in auto)
  thus ?thesis using run by (cases r) auto
qed

end
