(* ===== verification/Log_Export.thy ===== *)
theory Log_Export
  imports Ingress_Queue
begin

text \<open>
  The export handler (\<open>otel-sqlite-ingress/src/logs.rs\<close>) and the budget of its mapping jobs
  (\<open>mapping/budget.rs\<close>).

  The asynchronous runtime is third-party code: whether the limiter is closed, how a mapping
  job ended and whether the enqueue task could run are inputs of a handler run
  (\<open>handler_env\<close>), as are the changes of the ledger seen while waiting and the state read for
  each ticket afterwards.  A handler that still waits is \<open>None\<close>.  Metrics and log lines are
  omitted.
\<close>

section \<open>The mapping budget\<close>

record MappingBudget =
  mb_permits :: usize
  mb_timeout :: duration

datatype MappingError = MapTimeout | MapJoin string | MapClosed

definition MAX_PERMITS :: usize where
  "MAX_PERMITS = USIZE_MAX div 8"

definition new_budget :: "usize \<Rightarrow> duration \<Rightarrow> MappingBudget" where
  "new_budget concurrency timeout = \<lparr>mb_permits = max concurrency 1, mb_timeout = timeout\<rparr>"

definition unlimited :: "duration \<Rightarrow> MappingBudget" where
  "unlimited timeout = new_budget MAX_PERMITS timeout"

text \<open>How the permit was awaited and how the job ended, as \<open>timeout_at\<close> reports them.\<close>

datatype acquired = Acquired | AcquireTimedOut | AcquireClosed
datatype joined = JobDone | JobPanicked string | JobTimedOut

definition budget_run :: "acquired \<Rightarrow> joined \<Rightarrow> 'a \<Rightarrow> MappingError + 'a" where
  "budget_run acq join job =
     (case acq of
        AcquireTimedOut \<Rightarrow> Inl MapTimeout
      | AcquireClosed \<Rightarrow> Inl MapClosed
      | Acquired \<Rightarrow>
          (case join of
             JobDone \<Rightarrow> Inr job
           | JobPanicked e \<Rightarrow> Inl (MapJoin e)
           | JobTimedOut \<Rightarrow> Inl MapTimeout))"

text \<open>The permits over time: a job is submitted with one permit, which its closure holds until
  the job ends, whether or not the caller still waits.\<close>

record budget_state =
  bg_available :: nat
  bg_jobs :: nat

inductive budget_step :: "budget_state \<Rightarrow> budget_state \<Rightarrow> bool" where
  submit_job: "0 < bg_available b \<Longrightarrow> budget_step b (b\<lparr>bg_available := bg_available b - 1, bg_jobs := bg_jobs b + 1\<rparr>)"
| caller_gives_up: "budget_step b b"
| job_ends: "0 < bg_jobs b \<Longrightarrow> budget_step b (b\<lparr>bg_available := bg_available b + 1, bg_jobs := bg_jobs b - 1\<rparr>)"

inductive_cases budget_stepE: "budget_step b b'"

lemma budget_bounded:
  assumes "budget_step\<^sup>*\<^sup>* \<lparr>bg_available = mb_permits mb, bg_jobs = 0\<rparr> b"
  shows "bg_available b + bg_jobs b = mb_permits mb"
  using assms by (induction rule: rtranclp_induct) (auto elim!: budget_stepE)

section \<open>Answers\<close>

datatype Code = InvalidArgument | Unauthenticated | Unavailable | Internal

record Status =
  st_code :: Code
  st_message :: string

definition status :: "Code \<Rightarrow> string \<Rightarrow> Status" where
  "status c m = \<lparr>st_code = c, st_message = m\<rparr>"

record PartialSuccess =
  ps_rejected_log_records :: i64
  ps_error_message :: string

type_synonym ExportResponse = "PartialSuccess option"

definition partial_success :: "u64 \<Rightarrow> string \<Rightarrow> ExportResponse" where
  "partial_success rejected message =
     Some \<lparr>ps_rejected_log_records = (if int rejected \<le> I64_MAX then int rejected else I64_MAX), ps_error_message = message\<rparr>"

fun error_display :: "IngressError \<Rightarrow> string" where
  "error_display (InvalidListenAddress a) =
     ''invalid listen address `'' @ a @ ''`: use an IP:port tuple (e.g. `127.0.0.1:4317`); a bare `:port` binds all interfaces, and hostnames are not supported''"
| "error_display Transport = ''gRPC transport failure''"
| "error_display (Tls e) = ''TLS setup failed: '' @ e"
| "error_display (Auth e) = ''authentication setup failed: '' @ e"
| "error_display (Mapping e) = ''cannot map OTLP request: '' @ e"

section \<open>Finishing a request\<close>

fun tally :: "(u64 \<Rightarrow> TicketState) \<Rightarrow> (u64 \<times> u64) list \<Rightarrow> u64 \<Rightarrow> bool \<Rightarrow> u64 \<times> bool" where
  "tally read [] n any_failed = (n, any_failed)"
| "tally read ((ticket, records) # rest) n any_failed =
     (case read ticket of
        Completed \<Rightarrow> tally read rest (wrapping_add n records) any_failed
      | FailedTicket p \<Rightarrow> tally read rest (wrapping_add n (tp_committed p)) True
      | Unsettled p \<Rightarrow> tally read rest (wrapping_add n (tp_committed p)) any_failed)"

definition report_committed :: "(u64 \<Rightarrow> TicketState) \<Rightarrow> EnqueueOutcome \<Rightarrow> Status + ExportResponse" where
  "report_committed read eo =
     (case tally read (eo_tickets eo) 0 False of
        (n, any_failed) \<Rightarrow>
          let rejected = eo_total_records eo - n
          in if rejected = 0 then Inr None
             else if any_failed \<or> n > 0
             then Inr (partial_success rejected ''storage accepted part of the request; retry only the rejected records'')
             else Inl (status Unavailable ''storage pipeline shut down before commit''))"

definition finish ::
  "IngressConfig \<Rightarrow> CommitLedger \<Rightarrow> wakeup list \<Rightarrow> (u64 \<Rightarrow> TicketState) \<Rightarrow> EnqueueOutcome \<Rightarrow> (Status + ExportResponse) option" where
  "finish config l wakes read eo =
     (if eo_accepted eo = 0 then
        (if eo_disconnected eo then Some (Inl (status Unavailable ''ingress queue is closed''))
         else if eo_rejected eo > 0 then Some (Inl (status Unavailable ''ingress queue is full''))
         else Some (Inr None))
      else if durability_mode config = CommitMode then
        (case eo_last_ticket eo of
           Some ticket \<Rightarrow> map_option (\<lambda>_. report_committed read eo) (wait_watermark ticket l wakes)
         | None \<Rightarrow> Some (report_committed read eo))
      else if eo_rejected eo > 0
      then Some (Inr (partial_success (eo_rejected eo) ''ingress accepted part of the request; retry only the rejected records''))
      else Some (Inr None))"

section \<open>The handler\<close>

record handler_env =
  he_limiter_closed :: bool
  he_acquired :: acquired
  he_joined :: joined
  he_enqueue_cancelled :: "string option"
  he_now_ms :: u64
  he_wakes :: "wakeup list"
  he_read :: "u64 \<Rightarrow> TicketState"

record codec_params =
  cp_layout :: layout
  cp_render :: "json \<Rightarrow> string"
  cp_display_f64 :: "f64 \<Rightarrow> string"

definition map_job :: "codec_params \<Rightarrow> IngressConfig \<Rightarrow> ResourceLogs list \<Rightarrow> IngressError + IngestMessage list" where
  "map_job cp limits resource_logs =
     (if request_count resource_logs > max_records_per_request limits
      then Inl (Mapping (''request contains '' @ show_nat (request_count resource_logs) @ '' log records, limit is '' @
                  show_nat (max_records_per_request limits)))
      else try_bind (validate_request (cp_layout cp) limits resource_logs)
             (\<lambda>_. map_chunks (cp_render cp) (cp_display_f64 cp) resource_logs))"

fun mapping_status :: "MappingError \<Rightarrow> Status" where
  "mapping_status MapTimeout = status Unavailable ''log mapping timed out''"
| "mapping_status MapClosed = status Internal ''log mapping budget is closed''"
| "mapping_status (MapJoin e) = status Internal (''log mapping task failed: '' @ e)"

definition handle_export ::
  "codec_params \<Rightarrow> IngressConfig \<Rightarrow> 'q IngestSender \<Rightarrow> handler_env \<Rightarrow> ResourceLogs list \<Rightarrow> CommitLedger \<Rightarrow> 'q \<Rightarrow>
   (Status + ExportResponse) option \<times> CommitLedger \<times> 'q" where
  "handle_export cp config s env request l q =
     (if he_limiter_closed env then (Some (Inl (status Internal ''log stream limiter is closed'')), l, q)
      else case budget_run (he_acquired env) (he_joined env) (map_job cp config request) of
             Inl e \<Rightarrow> (Some (Inl (mapping_status e)), l, q)
           | Inr (Inl e) \<Rightarrow> (Some (Inl (status InvalidArgument (error_display e))), l, q)
           | Inr (Inr work) \<Rightarrow>
               (case he_enqueue_cancelled env of
                  Some e \<Rightarrow> (Some (Inl (status Internal (''enqueue task failed: '' @ e))), l, q)
                | None \<Rightarrow>
                    (case enqueue s (he_now_ms env) work l q of
                       (Inl e, l', q') \<Rightarrow> (Some (Inl (status InvalidArgument (error_display e))), l', q')
                     | (Inr eo, l', q') \<Rightarrow> (finish config l' (he_wakes env) (he_read env) eo, l', q'))))"

section \<open>The tally\<close>

fun ticket_committed :: "TicketState \<Rightarrow> u64 \<Rightarrow> u64" where
  "ticket_committed Completed records = records"
| "ticket_committed (FailedTicket p) records = tp_committed p"
| "ticket_committed (Unsettled p) records = tp_committed p"

definition committed_sum :: "(u64 \<Rightarrow> TicketState) \<Rightarrow> (u64 \<times> u64) list \<Rightarrow> nat" where
  "committed_sum read ts = sum_list (map (\<lambda>(t, n). ticket_committed (read t) n) ts)"

lemma tally_exact:
  "c + committed_sum read ts \<le> U64_MAX \<Longrightarrow>
   tally read ts c f = (c + committed_sum read ts, f \<or> (\<exists>(t, n) \<in> set ts. \<exists>p. read t = FailedTicket p))"
proof (induction read ts c f rule: tally.induct)
  case (2 read ticket records rest n any_failed)
  thus ?case by (cases "read ticket") (auto simp: committed_sum_def wrapping_add_exact)
qed (simp add: committed_sum_def)

text \<open>Readings that never claim more committed records than the ticket covers.\<close>

definition reads_bounded :: "(u64 \<Rightarrow> TicketState) \<Rightarrow> (u64 \<times> u64) list \<Rightarrow> bool" where
  "reads_bounded read ts \<longleftrightarrow> (\<forall>(t, n) \<in> set ts. ticket_committed (read t) n \<le> n)"

lemma committed_sum_le: "reads_bounded read ts \<Longrightarrow> committed_sum read ts \<le> sum_list (map snd ts)"
  unfolding committed_sum_def reads_bounded_def by (intro sum_list_mono) auto

lemma committed_sum_full:
  assumes "reads_bounded read ts" "sum_list (map snd ts) \<le> committed_sum read ts" "(t, n) \<in> set ts"
  shows "ticket_committed (read t) n = n"
  using assms
proof (induction ts)
  case (Cons x ts)
  have b: "reads_bounded read ts" "ticket_committed (read (fst x)) (snd x) \<le> snd x"
    using Cons.prems(1) by (auto simp: reads_bounded_def split: prod.splits)
  have "ticket_committed (read (fst x)) (snd x) + committed_sum read ts \<ge> snd x + sum_list (map snd ts)"
    using Cons.prems(2) by (simp add: committed_sum_def split: prod.splits)
  hence "ticket_committed (read (fst x)) (snd x) = snd x" "sum_list (map snd ts) \<le> committed_sum read ts"
    using b(2) committed_sum_le[OF b(1)] by linarith+
  thus ?case using Cons.IH[OF b(1)] Cons.prems(3) by auto
qed simp

lemma committed_sum_0: "committed_sum read ts = 0 \<Longrightarrow> (t, n) \<in> set ts \<Longrightarrow> ticket_committed (read t) n = 0"
  by (auto simp: committed_sum_def)

section \<open>The handler's answers\<close>

definition is_chunk :: "IngestMessage \<Rightarrow> bool" where
  "is_chunk m \<longleftrightarrow> (\<exists>c. m = Logs c \<and> chunk_records c \<noteq> [])"

fun message_ticket :: "IngestMessage \<Rightarrow> u64 \<times> u64" where
  "message_ticket (Logs c) = (chunk_commit_seq c, length (chunk_records c))"
| "message_ticket FlushBarrier = (0, 0)"

lemma ticketed_messages: "list_all is_chunk ms \<Longrightarrow> ticketed t ms = map message_ticket (stamped t ms)"
  by (induction ms arbitrary: t) (auto simp: is_chunk_def)

lemma stamped_chunks: "list_all is_chunk ms \<Longrightarrow> list_all is_chunk (stamped t ms)"
  by (induction ms arbitrary: t) (auto simp: is_chunk_def)

lemma sum_ticketed: "sum_list (map snd (ticketed t ms)) = record_total ms"
  by (induction ms arbitrary: t) simp_all

lemma record_total_0: "list_all is_chunk ms \<Longrightarrow> record_total ms = 0 \<longleftrightarrow> ms = []"
  by (cases ms) (auto simp: is_chunk_def)

lemma map_job_chunks:
  assumes "map_job cp config request = Inr ms"
  shows "map_chunks (cp_render cp) (cp_display_f64 cp) request = Inr ms" "list_all is_chunk ms"
    "record_total ms = request_count request" "length ms \<le> length request"
proof -
  show m: "map_chunks (cp_render cp) (cp_display_f64 cp) request = Inr ms"
    using assms by (auto simp: map_job_def split: if_splits)
  note mm = map_chunks_maps[OF m]
  show "list_all is_chunk ms" unfolding list_all_iff
  proof
    fix x assume "x \<in> set ms"
    hence "0 < message_record_count x" using mm by blast
    thus "is_chunk x" by (cases x) (auto simp: is_chunk_def)
  qed
  have "length (mapped_records ms) = request_count request" using mm list_all2_lengthD length_request_records by metis
  thus "record_total ms = request_count request" by (simp add: record_total_def length_concat comp_def length_message_records)
  show "length ms \<le> length request" using mm by blast
qed

text \<open>A run that reaches an answer: refused before the queue, or the outcome of an admission.\<close>

lemma handle_cases:
  assumes "channel_laws (snd_inner s) (snd_capacity s) accepted"
    and "handle_export cp config s env request l q = (r, l', q')"
    and "next_ticket l + length request \<le> U64_MAX" "request_count request \<le> U64_MAX" "snd_capacity s < U64_MAX"
  obtains (refused) st where "r = Some (Inl st)" "l' = l" "q' = q"
  | (admitted) ms eo k where "map_job cp config request = Inr ms" "eo_rejected eo = record_total (drop k ms)"
      "r = finish config l' (he_wakes env) (he_read env) eo"
      "enqueued accepted (he_now_ms env) ms (default_outcome\<lparr>eo_total_records := record_total ms\<rparr>) l q k eo l' q'"
proof (cases "\<not> he_limiter_closed env \<and> he_enqueue_cancelled env = None \<and>
    (\<exists>ms. budget_run (he_acquired env) (he_joined env) (map_job cp config request) = Inr (Inr ms))")
  case False
  hence "\<exists>st. r = Some (Inl st) \<and> l' = l \<and> q' = q"
    using assms(2) by (auto simp: handle_export_def split: if_splits sum.splits option.splits)
  thus thesis using refused by blast
next
  case True
  then obtain ms where ms: "budget_run (he_acquired env) (he_joined env) (map_job cp config request) = Inr (Inr ms)" by blast
  hence job: "map_job cp config request = Inr ms" by (auto simp: budget_run_def split: acquired.splits joined.splits)
  note mj = map_job_chunks[OF job]
  obtain e l1 q1 where enq: "enqueue s (he_now_ms env) ms l q = (e, l1, q1)" by (metis surj_pair)
  have run: "handle_export cp config s env request l q =
      (case e of Inl e \<Rightarrow> (Some (Inl (status InvalidArgument (error_display e))), l1, q1)
       | Inr eo \<Rightarrow> (finish config l1 (he_wakes env) (he_read env) eo, l1, q1))"
    using True ms enq by (simp add: handle_export_def split: sum.splits)
  have fit: "next_ticket l + length ms \<le> U64_MAX" "record_total ms \<le> U64_MAX" using assms(3,4) mj(3,4) by linarith+
  from assms(1) enq fit assms(5) show thesis
  proof (cases rule: enqueue_cases)
    case (no_room eo)
    hence "record_total ms \<noteq> 0" using record_total_0[OF mj(2)] by blast
    thus thesis using run assms(2) refused no_room by (auto simp: finish_def split: if_splits)
  qed (use run assms(2) refused admitted job in auto)
qed

lemma report_committed_exact:
  assumes "reads_bounded read (eo_tickets eo)" "sum_list (map snd (eo_tickets eo)) \<le> eo_total_records eo"
    and "eo_total_records eo \<le> U64_MAX"
  defines "n \<equiv> committed_sum read (eo_tickets eo)"
  shows "report_committed read eo =
     (if n = eo_total_records eo then Inr None
      else if n > 0 \<or> (\<exists>(t, k) \<in> set (eo_tickets eo). \<exists>p. read t = FailedTicket p)
      then Inr (partial_success (eo_total_records eo - n) ''storage accepted part of the request; retry only the rejected records'')
      else Inl (status Unavailable ''storage pipeline shut down before commit''))"
proof -
  have "n \<le> eo_total_records eo" using committed_sum_le[OF assms(1)] assms(2) by (simp add: n_def)
  moreover have "tally read (eo_tickets eo) 0 False = (n, \<exists>(t, k) \<in> set (eo_tickets eo). \<exists>p. read t = FailedTicket p)"
    using tally_exact[of 0 read "eo_tickets eo" False] calculation assms(3) by (simp add: n_def)
  ultimately show ?thesis by (auto simp: report_committed_def Let_def)
qed

lemma reads_bounded_stamped:
  assumes "list_all is_chunk ms" "\<forall>m \<in> set (stamped t ms). case message_ticket m of (t, n) \<Rightarrow> ticket_committed (read t) n \<le> n"
  shows "reads_bounded read (ticketed t ms)"
  using assms(2) unfolding reads_bounded_def ticketed_messages[OF assms(1)] by simp

lemma list_all_take: "list_all P xs \<Longrightarrow> list_all P (take k xs)"
  by (auto simp: list_all_iff dest: in_set_takeD)

text \<open>What is known after an admission of the first \<open>k\<close> of the chunks \<open>ms\<close>.\<close>

lemma admitted_facts:
  assumes "map_job cp config request = Inr ms"
    and "enqueued accepted now ms (default_outcome\<lparr>eo_total_records := record_total ms\<rparr>) l q k eo l' q'"
    and "\<forall>m \<in> set (accepted q'). case message_ticket m of (t, n) \<Rightarrow> ticket_committed (read t) n \<le> n"
    and "request_count request \<le> U64_MAX"
  shows "accepted q' = accepted q @ stamped (next_ticket l) (take k ms)" "list_all is_chunk (take k ms)"
    "eo_tickets eo = map message_ticket (stamped (next_ticket l) (take k ms))" "reads_bounded read (eo_tickets eo)"
    "sum_list (map snd (eo_tickets eo)) = record_total (take k ms)" "eo_total_records eo = request_count request"
    "eo_accepted eo = record_total (take k ms)" "record_total (take k ms) + record_total (drop k ms) = request_count request"
    "k \<le> length ms"
proof -
  note mj = map_job_chunks[OF assms(1)]
  show a: "accepted q' = accepted q @ stamped (next_ticket l) (take k ms)" "k \<le> length ms"
    "eo_total_records eo = request_count request" "eo_accepted eo = record_total (take k ms)"
    using assms(2) mj(3) by (simp_all add: enqueued_def default_outcome_def)
  show c: "list_all is_chunk (take k ms)" by (rule list_all_take[OF mj(2)])
  have t: "eo_tickets eo = ticketed (next_ticket l) (take k ms)" using assms(2) by (simp add: enqueued_def default_outcome_def)
  thus "eo_tickets eo = map message_ticket (stamped (next_ticket l) (take k ms))" using ticketed_messages[OF c] by simp
  show "sum_list (map snd (eo_tickets eo)) = record_total (take k ms)" by (simp add: t sum_ticketed)
  show "reads_bounded read (eo_tickets eo)" unfolding t using assms(3) a(1) by (intro reads_bounded_stamped[OF c]) auto
  show "record_total (take k ms) + record_total (drop k ms) = request_count request"
    using mj(3) by (metis append_take_drop_id record_total_simps(3))
qed

abbreviation rejected_of :: "ExportResponse \<Rightarrow> int" where
  "rejected_of answer \<equiv> (case answer of None \<Rightarrow> 0 | Some ps \<Rightarrow> ps_rejected_log_records ps)"

lemma finish_commit:
  "durability_mode config = CommitMode \<Longrightarrow> eo_accepted eo \<noteq> 0 \<Longrightarrow> Some r = finish config l wakes read eo \<Longrightarrow> report_committed read eo = r"
  by (cases "eo_last_ticket eo") (auto simp: finish_def map_option_case split: option.splits)

lemma partial_success_rejected: "n \<le> 9223372036854775807 \<Longrightarrow> rejected_of (partial_success n m) = int n \<and> partial_success n m \<noteq> None"
  by (simp add: partial_success_def)

text \<open>The answer in commit mode, from an outcome whose tickets cover \<open>eo_accepted\<close> of its records.\<close>

lemma commit_answer:
  assumes "durability_mode config = CommitMode" "Some (Inr answer) = finish config l wakes read eo"
    and "reads_bounded read (eo_tickets eo)" "sum_list (map snd (eo_tickets eo)) = eo_accepted eo"
    and "eo_accepted eo + eo_rejected eo = eo_total_records eo" "eo_total_records eo \<le> 9223372036854775807"
  shows "rejected_of answer + int (committed_sum read (eo_tickets eo)) = int (eo_total_records eo)"
    "answer = None \<longrightarrow> committed_sum read (eo_tickets eo) = eo_total_records eo"
proof -
  let ?n = "committed_sum read (eo_tickets eo)"
  have le: "?n \<le> eo_accepted eo" using committed_sum_le[OF assms(3)] assms(4) by simp
  have "rejected_of answer + int ?n = int (eo_total_records eo) \<and> (answer = None \<longrightarrow> ?n = eo_total_records eo)"
  proof (cases "eo_accepted eo = 0")
    case True
    hence "answer = None" "eo_rejected eo = 0" using assms(2) by (auto simp: finish_def split: if_splits)
    thus ?thesis using True le assms(5) by simp
  next
    case False
    hence "report_committed read eo = Inr answer" using finish_commit assms(1,2) by metis
    moreover have "sum_list (map snd (eo_tickets eo)) \<le> eo_total_records eo" "eo_total_records eo \<le> U64_MAX"
      using assms(4-6) by linarith+
    ultimately show ?thesis
      using report_committed_exact[OF assms(3)] partial_success_rejected[of "eo_total_records eo - ?n"] le assms(5,6)
      by (auto split: if_splits)
  qed
  thus "rejected_of answer + int ?n = int (eo_total_records eo)" "answer = None \<longrightarrow> ?n = eo_total_records eo" by blast+
qed

lemma enqueue_answer:
  assumes "durability_mode config \<noteq> CommitMode" "Some (Inr answer) = finish config l wakes read eo"
    and "eo_accepted eo + eo_rejected eo = eo_total_records eo" "eo_total_records eo \<le> 9223372036854775807"
  shows "rejected_of answer + int (eo_accepted eo) = int (eo_total_records eo)"
    "answer = None \<longrightarrow> eo_accepted eo = eo_total_records eo"
  using assms partial_success_rejected[of "eo_rejected eo"] by (auto simp: finish_def split: if_splits)

lemma prefix_whole: "list_all is_chunk ms \<Longrightarrow> record_total (take k ms) = record_total ms \<Longrightarrow> take k ms = ms"
proof -
  assume "list_all is_chunk ms" "record_total (take k ms) = record_total ms"
  moreover from this(2) have "record_total (drop k ms) = 0"
    by (metis add_cancel_left_right append_take_drop_id record_total_simps(3))
  moreover from calculation(1) have "list_all is_chunk (drop k ms)" by (auto simp: list_all_iff dest: in_set_dropD)
  ultimately show ?thesis using record_total_0 by simp
qed

text \<open>A sample run: one record, a queue with room, and a ledger whose owner goes away.\<close>

definition sample_codec_params :: codec_params where
  "sample_codec_params = \<lparr>cp_layout = \<lparr>sz_any_value = 32, sz_key_value = 64, sz_attribute = 56\<rparr>, cp_render = (\<lambda>_. []), cp_display_f64 = (\<lambda>_. [])\<rparr>"

definition sample_env :: "(u64 \<Rightarrow> TicketState) \<Rightarrow> handler_env" where
  "sample_env read =
     \<lparr>he_limiter_closed = False, he_acquired = Acquired, he_joined = JobDone, he_enqueue_cancelled = None, he_now_ms = 0,
      he_wakes = [SenderDropped], he_read = read\<rparr>"

lemma sample_export:
  "\<exists>c l'. length (chunk_records c) = 1 \<and>
     handle_export sample_codec_params default_ingress_config (ingest_channel sample_channel 4) (sample_env read) sample_request
       (new_ledger 0) [] =
     (Some (report_committed read \<lparr>eo_accepted = 1, eo_rejected = 0, eo_disconnected = False, eo_last_ticket = Some 1,
        eo_total_records = 1, eo_tickets = [(1, 1)]\<rparr>), l', [Logs (c\<lparr>chunk_commit_seq := 1\<rparr>)])"
proof -
  have n: "request_count sample_request = 1" "length sample_request = 1" by (simp_all add: sample_request_def request_count_def)
  obtain ms where "map_chunks (\<lambda>_. []) (\<lambda>_. []) sample_request = Inr ms" using map_chunks_ok[OF sample_request_valid] by blast
  hence job: "map_job sample_codec_params default_ingress_config sample_request = Inr ms"
    using n sample_request_valid by (simp add: map_job_def sample_codec_params_def default_ingress_config_def)
  note mj = map_job_chunks[OF job]
  obtain c where c: "ms = [Logs c]" "length (chunk_records c) = 1"
    using mj(2-4) n by (cases ms) (auto simp: is_chunk_def)
  have "enqueue (ingest_channel sample_channel 4) 0 [Logs c] (new_ledger 0) [] =
      (Inr \<lparr>eo_accepted = 1, eo_rejected = 0, eo_disconnected = False, eo_last_ticket = Some 1,
        eo_total_records = 1, eo_tickets = [(1, 1)]\<rparr>, (new_ledger 0)\<lparr>next_ticket := 1\<rparr>, [Logs (c\<lparr>chunk_commit_seq := 1\<rparr>)])"
    using c(2) by (simp add: enqueue_def reserve_def sender_len_def ingest_channel_def sample_channel_def guard_try_send_def
        issue_def new_ledger_def wrapping_add_exact saturating_add_def default_outcome_def)
  moreover have "\<exists>w. wait_watermark 1 ((new_ledger 0)\<lparr>next_ticket := 1\<rparr>) [SenderDropped] = Some w"
    unfolding wait_watermark_def by (subst wait_watermark_loop.simps) (simp add: wait_watermark_poll_def watermark_def new_ledger_def)
  moreover have "durability_mode default_ingress_config = CommitMode" by (simp add: default_ingress_config_def)
  ultimately have "handle_export sample_codec_params default_ingress_config (ingest_channel sample_channel 4) (sample_env read)
      sample_request (new_ledger 0) [] =
     (Some (report_committed read \<lparr>eo_accepted = 1, eo_rejected = 0, eo_disconnected = False, eo_last_ticket = Some 1,
        eo_total_records = 1, eo_tickets = [(1, 1)]\<rparr>), (new_ledger 0)\<lparr>next_ticket := 1\<rparr>, [Logs (c\<lparr>chunk_commit_seq := 1\<rparr>)])"
    using job c(1) by (auto simp: handle_export_def sample_env_def budget_run_def finish_def)
  thus ?thesis using c(2) by blast
qed

lemma sample_bounds:
  "channel_laws (snd_inner (ingest_channel sample_channel 4)) (snd_capacity (ingest_channel sample_channel 4)) (\<lambda>q. q)"
  "snd_capacity (ingest_channel sample_channel 4) < U64_MAX" "next_ticket (new_ledger 0) + length sample_request \<le> U64_MAX"
  "request_count sample_request = 1" "durability_mode default_ingress_config = CommitMode" "next_ticket (new_ledger 0) = 0"
  using sample_channel_laws
  by (simp_all add: ingest_channel_def new_ledger_def sample_request_def request_count_def default_ingress_config_def)

section \<open>Properties\<close>

text \<open>
  C16: A retry is safe, in both durability modes.  When the handler answers with an error in
  enqueue mode, nothing of the request is in the queue.  When it does so in commit mode, every chunk
  of the request that entered the queue is, at the moment the handler read the ledger, still
  unsettled with no record committed: a client that is told to retry has no durable record
  that a retry would duplicate.  The counters do not wrap, and a ledger reading never shows
  more committed records than the ticket's chunk holds.
\<close>

theorem retry_is_safe:
  assumes "channel_laws (snd_inner s) (snd_capacity s) accepted"
    and "handle_export cp config s env request l q = (Some (Inl st), l', q')"
    and "next_ticket l + length request \<le> U64_MAX" "request_count request \<le> U64_MAX" "snd_capacity s < U64_MAX"
    and "\<forall>m \<in> set (accepted q'). case message_ticket m of (t, n) \<Rightarrow> ticket_committed (he_read env t) n \<le> n"
  shows "\<exists>new. accepted q' = accepted q @ new \<and> (durability_mode config \<noteq> CommitMode \<longrightarrow> new = []) \<and>
           (\<forall>m \<in> set new. \<exists>p. he_read env (fst (message_ticket m)) = Unsettled p \<and> tp_committed p = 0)"
  using assms(1-5)
proof (cases rule: handle_cases)
  case (admitted ms eo k)
  note f = admitted_facts[OF admitted(1,4) assms(6,4)]
  have tot: "sum_list (map snd (eo_tickets eo)) \<le> eo_total_records eo" "eo_total_records eo \<le> U64_MAX"
    using f(5,6,8) assms(4) by linarith+
  show ?thesis
  proof (cases "eo_accepted eo = 0")
    case True
    hence "take k ms = []" using f(7) record_total_0[OF f(2)] by simp
    hence "stamped (next_ticket l) (take k ms) = []" by (simp only: stamped_simps)
    thus ?thesis using f(1) by simp
  next
    case False
    hence commit: "durability_mode config = CommitMode"
      using admitted(3) by (auto simp: finish_def split: if_splits)
    hence "report_committed (he_read env) eo = Inl st" using finish_commit False admitted(3) by metis
    hence none: "committed_sum (he_read env) (eo_tickets eo) = 0"
      "\<not> (\<exists>(t, n) \<in> set (eo_tickets eo). \<exists>p. he_read env t = FailedTicket p)"
      using report_committed_exact[OF f(4) tot] by (auto split: if_splits)
    have "\<exists>p. he_read env (fst (message_ticket m)) = Unsettled p \<and> tp_committed p = 0"
      if m: "m \<in> set (stamped (next_ticket l) (take k ms))" for m
    proof -
      have t: "(fst (message_ticket m), snd (message_ticket m)) \<in> set (eo_tickets eo)" using m f(3) by auto
      have "is_chunk m" using m stamped_chunks[OF f(2)] by (simp add: list_all_iff)
      hence "0 < snd (message_ticket m)" by (auto simp: is_chunk_def)
      thus ?thesis using committed_sum_0[OF none(1) t] none(2) t
        by (cases "he_read env (fst (message_ticket m))") auto
    qed
    thus ?thesis using f(1) commit by blast
  qed
qed auto

theorem retry_is_safe_witness:
  "\<exists>st l' q'. handle_export sample_codec_params default_ingress_config (ingest_channel sample_channel 4)
       (sample_env (\<lambda>_. Unsettled default_progress)) sample_request (new_ledger 0) [] = (Some (Inl st), l', q') \<and>
     q' \<noteq> [] \<and> (\<forall>m \<in> set q'. \<exists>p. p = default_progress \<and> tp_committed p = 0)"
proof -
  let ?read = "\<lambda>_. Unsettled default_progress"
  obtain c l' where c: "handle_export sample_codec_params default_ingress_config (ingest_channel sample_channel 4)
      (sample_env ?read) sample_request (new_ledger 0) [] =
      (Some (Inl (status Unavailable ''storage pipeline shut down before commit'')), l', [Logs (c\<lparr>chunk_commit_seq := 1\<rparr>)])"
    using sample_export[of ?read] by (auto simp: report_committed_def wrapping_add_def)
  show ?thesis using retry_is_safe[OF sample_bounds(1) c sample_bounds(3) _ sample_bounds(2)] sample_bounds(4) c
    by (auto simp: sample_env_def)
qed

text \<open>
  C7: Every answered request is accounted for.  In an answer that is not an error, the number
  reported as rejected plus the number of records known to be committed (in enqueue mode:
  queued) is the number of records of the request; a plain success means that every
  chunk was queued, in order, and in commit mode that every record of every chunk is
  committed.  The counters do not wrap, and a ledger reading never shows more committed
  records than the ticket's chunk holds.
\<close>

theorem export_answer_accounts:
  assumes "channel_laws (snd_inner s) (snd_capacity s) accepted"
    and "handle_export cp config s env request l q = (Some (Inr answer), l', q')"
    and "next_ticket l + length request \<le> U64_MAX" "request_count request \<le> 9223372036854775807" "snd_capacity s < U64_MAX"
    and "\<forall>m \<in> set (accepted q'). case message_ticket m of (t, n) \<Rightarrow> ticket_committed (he_read env t) n \<le> n"
  shows "\<exists>ms k. map_chunks (cp_render cp) (cp_display_f64 cp) request = Inr ms \<and>
      accepted q' = accepted q @ stamped (next_ticket l) (take k ms) \<and>
      rejected_of answer +
        int (if durability_mode config = CommitMode
             then committed_sum (he_read env) (map message_ticket (stamped (next_ticket l) (take k ms)))
             else record_total (take k ms)) = int (request_count request) \<and>
      (answer = None \<longrightarrow> take k ms = ms \<and>
         (durability_mode config = CommitMode \<longrightarrow>
            (\<forall>m \<in> set (stamped (next_ticket l) ms). ticket_committed (he_read env (fst (message_ticket m))) (snd (message_ticket m)) =
               snd (message_ticket m))))"
proof -
  have u64: "request_count request \<le> U64_MAX" using assms(4) by simp
  from assms(1-3) u64 assms(5) show ?thesis
  proof (cases rule: handle_cases)
    case (admitted ms eo k)
    note f = admitted_facts[OF admitted(1,4) assms(6) u64] and mj = map_job_chunks[OF admitted(1)]
    have sums: "sum_list (map snd (eo_tickets eo)) = eo_accepted eo" "eo_accepted eo + eo_rejected eo = eo_total_records eo"
      "eo_total_records eo \<le> 9223372036854775807" using f(5-8) admitted(2) assms(4) by simp_all
    have whole: "take k ms = ms" if "eo_total_records eo \<le> record_total (take k ms)"
      using that prefix_whole[OF mj(2)] f(6,8) mj(3) by simp
    show ?thesis
    proof (cases "durability_mode config = CommitMode")
      case commit: True
      note c = commit_answer[OF commit admitted(3) f(4) sums]
      have le: "committed_sum (he_read env) (eo_tickets eo) \<le> record_total (take k ms)"
        using committed_sum_le[OF f(4)] f(5) by simp
      have "ticket_committed (he_read env (fst (message_ticket m))) (snd (message_ticket m)) = snd (message_ticket m)"
        if "answer = None" "m \<in> set (stamped (next_ticket l) (take k ms))" for m
        using committed_sum_full[OF f(4), of "fst (message_ticket m)" "snd (message_ticket m)"] c(2) that sums f(3) by auto
      thus ?thesis using mj(1) f(1,3,6) c commit whole le by (intro exI[of _ ms] exI[of _ k]) auto
    next
      case False
      thus ?thesis using mj(1) f(1,6,7) enqueue_answer[OF False admitted(3) sums(2,3)] whole
        by (intro exI[of _ ms] exI[of _ k]) auto
    qed
  qed auto
qed

theorem export_answer_accounts_witness:
  "\<exists>l' q'. handle_export sample_codec_params default_ingress_config (ingest_channel sample_channel 4)
       (sample_env (\<lambda>_. Completed)) sample_request (new_ledger 0) [] = (Some (Inr None), l', q') \<and>
     (\<exists>ms. map_chunks (\<lambda>_. []) (\<lambda>_. []) sample_request = Inr ms \<and> q' = stamped 0 ms)"
proof -
  let ?s = "ingest_channel sample_channel 4"
  obtain c l' where c: "handle_export sample_codec_params default_ingress_config ?s (sample_env (\<lambda>_. Completed)) sample_request
      (new_ledger 0) [] = (Some (Inr None), l', [Logs (c\<lparr>chunk_commit_seq := 1\<rparr>)])"
    using sample_export[of "\<lambda>_. Completed"] by (auto simp: report_committed_def wrapping_add_def)
  show ?thesis using export_answer_accounts[OF sample_bounds(1) c sample_bounds(3) _ sample_bounds(2)] sample_bounds(4,6) c
    by (auto simp: sample_env_def sample_codec_params_def)
qed

end
