(* ===== verification/Bearer_Auth.thy ===== *)
theory Bearer_Auth
  imports Log_Export
begin

unbundle bit_operations_syntax

text \<open>
  Bearer-token authentication (\<open>otel-sqlite-ingress/src/auth.rs\<close>): the bounded token-file
  parser, the reload policy of the cached digests, verification, and the interceptor in
  front of the export handler.

  The SHA-256 function is the parameter \<open>sha\<close>; what a read of the token file returned and the
  clock readings are arguments; the decoding of a header value is the parameter \<open>to_str\<close> and the
  text of a UTF-8 error the parameter \<open>utf8_error\<close>.  A poisoned lock is recovered from with the
  guarded state, so the lock is not modelled; log lines are the \<open>LogEvent\<close> values.
\<close>

section \<open>Reading the token file\<close>

definition DEFAULT_RELOAD_INTERVAL :: duration where
  "DEFAULT_RELOAD_INTERVAL = from_secs 5"

definition MAX_TOKEN_FILE_BYTES :: u64 where
  "MAX_TOKEN_FILE_BYTES = 1024 * 1024"

definition MAX_TOKENS :: usize where
  "MAX_TOKENS = 10000"

definition MAX_TOKEN_LINE_BYTES :: usize where
  "MAX_TOKEN_LINE_BYTES = 4096"

definition MAX_STALE_TOKEN_AGE :: duration where
  "MAX_STALE_TOKEN_AGE = from_secs (5 * 60)"

datatype io_kind = NotFound | InvalidData | OtherKind

record io_error =
  io_error_kind :: io_kind
  io_error_text :: string

datatype LoadError = LoadIo io_error | TooLarge u64 | TooManyTokens usize

record ParsedTokens =
  pt_hashes :: "u8 list list"
  pt_skipped_long_lines :: usize

text \<open>\<open>str::lines\<close>: a line ends at a newline, with the carriage return before it.\<close>

definition strip_cr :: "string \<Rightarrow> string" where
  "strip_cr line = (if line \<noteq> [] \<and> last line = CHR 0x0D then butlast line else line)"

fun str_lines_acc :: "string \<Rightarrow> string \<Rightarrow> string list" where
  "str_lines_acc acc [] = (if acc = [] then [] else [rev acc])"
| "str_lines_acc acc (c # cs) =
     (if c = CHR 0x0A then strip_cr (rev acc) # str_lines_acc [] cs else str_lines_acc (c # acc) cs)"

definition str_lines :: "string \<Rightarrow> string list" where
  "str_lines text = str_lines_acc [] text"

definition token_lines :: "string \<Rightarrow> string list" where
  "token_lines text = filter (\<lambda>line. line \<noteq> []) (map trim (str_lines text))"

fun parse_lines :: "(string \<Rightarrow> u8 list) \<Rightarrow> string list \<Rightarrow> u8 list list \<Rightarrow> usize \<Rightarrow> usize \<Rightarrow> u8 list list \<times> usize \<times> usize" where
  "parse_lines sha [] hashes skipped n = (hashes, skipped, n)"
| "parse_lines sha (line # rest) hashes skipped n =
     (if length line > MAX_TOKEN_LINE_BYTES then parse_lines sha rest hashes (skipped + 1) n
      else parse_lines sha rest (if length hashes < MAX_TOKENS then hashes @ [sha line] else hashes) skipped (n + 1))"

definition parse_token_lines :: "(string \<Rightarrow> u8 list) \<Rightarrow> string \<Rightarrow> LoadError + ParsedTokens" where
  "parse_token_lines sha text =
     (case parse_lines sha (token_lines text) [] 0 0 of
        (hashes, skipped, n) \<Rightarrow>
          if n > MAX_TOKENS then Inl (TooManyTokens n)
          else Inr \<lparr>pt_hashes = hashes, pt_skipped_long_lines = skipped\<rparr>)"

text \<open>What the file system gives: an error of \<open>open\<close>, or the length from the metadata (0 when
  unavailable) and what reading to the end returns.\<close>

record file_view =
  fv_len :: u64
  fv_read :: "io_error + u8 list"

record token_env =
  te_sha :: "string \<Rightarrow> u8 list"
  te_utf8_error :: "u8 list \<Rightarrow> string"

definition read_token_file :: "token_env \<Rightarrow> (io_error + file_view) \<Rightarrow> LoadError + ParsedTokens" where
  "read_token_file te file =
     (case file of
        Inl e \<Rightarrow> Inl (LoadIo e)
      | Inr fv \<Rightarrow>
          if fv_len fv > MAX_TOKEN_FILE_BYTES then Inl (TooLarge (fv_len fv))
          else case fv_read fv of
                 Inl e \<Rightarrow> Inl (LoadIo e)
               | Inr all_bytes \<Rightarrow>
                   let bytes = take (MAX_TOKEN_FILE_BYTES + 1) all_bytes
                   in if length bytes > MAX_TOKEN_FILE_BYTES then Inl (TooLarge (length bytes))
                      else if \<not> from_utf8 bytes then Inl (LoadIo \<lparr>io_error_kind = InvalidData, io_error_text = te_utf8_error te bytes\<rparr>)
                      else parse_token_lines (te_sha te) (map char_of bytes))"

section \<open>The vault\<close>

record CachedTokens =
  ct_loaded_at :: "instant option"
  ct_hashes :: "u8 list list"
  ct_unhealthy_since :: "instant option"
  ct_consecutive_empty :: u32

record TokenFileVault =
  tv_path :: string
  tv_reload_interval :: duration
  tv_max_stale_age :: duration
  tv_cached :: CachedTokens
  tv_reloading :: bool
  tv_background_reload :: bool

datatype AuthError =
  AuthRead string io_error | NoTokens string | AuthTooLarge string u64 | AuthTooManyTokens string usize

definition read_token_hashes :: "token_env \<Rightarrow> string \<Rightarrow> (io_error + file_view) \<Rightarrow> AuthError + u8 list list" where
  "read_token_hashes te path file =
     (case read_token_file te file of
        Inr parsed \<Rightarrow> if pt_hashes parsed = [] then Inl (NoTokens path) else Inr (pt_hashes parsed)
      | Inl (LoadIo e) \<Rightarrow> Inl (AuthRead path e)
      | Inl (TooLarge n) \<Rightarrow> Inl (AuthTooLarge path n)
      | Inl (TooManyTokens n) \<Rightarrow> Inl (AuthTooManyTokens path n))"

definition default_cached :: CachedTokens where
  "default_cached = \<lparr>ct_loaded_at = None, ct_hashes = [], ct_unhealthy_since = None, ct_consecutive_empty = 0\<rparr>"

definition open_vault :: "token_env \<Rightarrow> string \<Rightarrow> (io_error + file_view) \<Rightarrow> instant \<Rightarrow> AuthError + TokenFileVault" where
  "open_vault te path file now =
     (let vault = \<lparr>tv_path = path, tv_reload_interval = DEFAULT_RELOAD_INTERVAL, tv_max_stale_age = MAX_STALE_TOKEN_AGE,
                   tv_cached = default_cached, tv_reloading = False, tv_background_reload = False\<rparr>
      in try_bind (read_token_hashes te path file) (\<lambda>hashes.
           Inr (vault\<lparr>tv_cached := (tv_cached vault)\<lparr>ct_hashes := hashes, ct_loaded_at := Some now\<rparr>\<rparr>)))"

definition is_stale :: "instant option \<Rightarrow> duration \<Rightarrow> instant \<Rightarrow> bool" where
  "is_stale loaded_at reload_interval now =
     (case loaded_at of None \<Rightarrow> True | Some t \<Rightarrow> now - t \<ge> reload_interval)"

datatype ReloadOutcome = Loaded ParsedTokens | Revoked | Unreadable string | InvalidFile string

datatype LogEvent =
    LogNone | EmptyKept | EmptyRevoked | LogRevoked | SkippedLong usize
  | LogUnreadable string | LogInvalid string | StaleExpired string

fun reload_outcome :: "LoadError + ParsedTokens \<Rightarrow> ReloadOutcome" where
  "reload_outcome (Inr parsed) = Loaded parsed"
| "reload_outcome (Inl (LoadIo e)) = (if io_error_kind e = NotFound then Revoked else Unreadable (io_error_text e))"
| "reload_outcome (Inl (TooLarge n)) =
     InvalidFile (''token file is '' @ show_nat n @ '' bytes, limit is '' @ show_nat MAX_TOKEN_FILE_BYTES)"
| "reload_outcome (Inl (TooManyTokens n)) =
     InvalidFile (''token file holds '' @ show_nat n @ '' tokens, limit is '' @ show_nat MAX_TOKENS)"

text \<open>The unhealthy branch shared by \<open>Unreadable\<close> and \<open>Invalid\<close>; \<open>kept\<close> is the event within the
  grace period.\<close>

definition keep_or_expire :: "duration \<Rightarrow> instant \<Rightarrow> string \<Rightarrow> LogEvent \<Rightarrow> CachedTokens \<Rightarrow> CachedTokens \<times> LogEvent" where
  "keep_or_expire max_stale_age now message kept cached =
     (let since = (case ct_unhealthy_since cached of Some t \<Rightarrow> t | None \<Rightarrow> now);
          cached1 = cached\<lparr>ct_unhealthy_since := Some since\<rparr>
      in if now - since \<ge> max_stale_age then (cached1\<lparr>ct_hashes := []\<rparr>, StaleExpired message) else (cached1, kept))"

fun publish :: "duration \<Rightarrow> instant \<Rightarrow> ReloadOutcome \<Rightarrow> CachedTokens \<Rightarrow> CachedTokens \<times> LogEvent" where
  "publish max_stale_age now (Loaded parsed) cached =
     (if pt_hashes parsed = []
      then let cached1 = cached\<lparr>ct_consecutive_empty := (ct_consecutive_empty cached + 1) mod 2 ^ 32\<rparr>
           in if ct_consecutive_empty cached1 \<ge> 2
              then (cached1\<lparr>ct_hashes := [], ct_unhealthy_since := None\<rparr>, EmptyRevoked)
              else (cached1, EmptyKept)
      else (cached\<lparr>ct_hashes := pt_hashes parsed, ct_unhealthy_since := None, ct_consecutive_empty := 0\<rparr>,
            if pt_skipped_long_lines parsed > 0 then SkippedLong (pt_skipped_long_lines parsed) else LogNone))"
| "publish max_stale_age now Revoked cached =
     (cached\<lparr>ct_hashes := [], ct_unhealthy_since := None, ct_consecutive_empty := 0\<rparr>,
      if ct_hashes cached \<noteq> [] then LogRevoked else LogNone)"
| "publish max_stale_age now (Unreadable message) cached =
     keep_or_expire max_stale_age now message (LogUnreadable message) cached"
| "publish max_stale_age now (InvalidFile message) cached =
     keep_or_expire max_stale_age now message (LogInvalid message) cached"

text \<open>One reload: the claim is taken, the file read, and the outcome published; the clock is read
  for the staleness check and again for the publication.  A thread that finds the claim taken
  only reads the current set.\<close>

definition refresh ::
  "token_env \<Rightarrow> (io_error + file_view) \<Rightarrow> instant \<Rightarrow> instant \<Rightarrow> TokenFileVault \<Rightarrow>
   u8 list list \<times> LogEvent \<times> TokenFileVault" where
  "refresh te file checked now v =
     (if tv_reloading v then (ct_hashes (tv_cached v), LogNone, v)
      else let v1 = v\<lparr>tv_reloading := True\<rparr>;
               outcome = reload_outcome (read_token_file te file);
               (hashes, event, v2) =
                 (if is_stale (ct_loaded_at (tv_cached v1)) (tv_reload_interval v1) checked
                  then case publish (tv_max_stale_age v1) now outcome (tv_cached v1) of
                         (cached, event) \<Rightarrow>
                           (ct_hashes cached, event, v1\<lparr>tv_cached := cached\<lparr>ct_loaded_at := Some now\<rparr>\<rparr>)
                  else (ct_hashes (tv_cached v1), LogNone, v1))
           in (hashes, event, v2\<lparr>tv_reloading := False\<rparr>))"

text \<open>Constant-time comparison: the exclusive-or of all byte pairs, folded with or.\<close>

definition ct_eq :: "u8 list \<Rightarrow> u8 list \<Rightarrow> bool" where
  "ct_eq a b \<longleftrightarrow> fold (\<lambda>(x, y) diff. diff OR (x XOR y)) (zip a b) 0 = 0"

definition verify ::
  "token_env \<Rightarrow> (io_error + file_view) \<Rightarrow> instant \<Rightarrow> instant \<Rightarrow> string \<Rightarrow> TokenFileVault \<Rightarrow> bool \<times> TokenFileVault" where
  "verify te file checked now presented v =
     (if presented = [] then (False, v)
      else let digest = te_sha te presented; known = (\<lambda>hashes. list_ex (\<lambda>h. ct_eq h digest) hashes)
           in if \<not> is_stale (ct_loaded_at (tv_cached v)) (tv_reload_interval v) checked
              then (known (ct_hashes (tv_cached v)), v)
              else if tv_background_reload v then (known (ct_hashes (tv_cached v)), v)
              else case refresh te file checked now v of (hashes, event, v') \<Rightarrow> (known hashes, v'))"

text \<open>The background reloader: one reload per round, with what the file held then; \<open>None\<close> is a
  vault that is gone or no longer wants it.\<close>

definition spawn_background_reloader :: "bool \<Rightarrow> TokenFileVault \<Rightarrow> TokenFileVault" where
  "spawn_background_reloader spawned v =
     (let v1 = v\<lparr>tv_background_reload := True\<rparr>
      in if tv_background_reload v then v1
         else if \<not> spawned then v1\<lparr>tv_background_reload := False\<rparr> else v1)"

fun reloader_loop :: "token_env \<Rightarrow> ((io_error + file_view) \<times> instant) option list \<Rightarrow> TokenFileVault \<Rightarrow> TokenFileVault" where
  "reloader_loop te [] v = v"
| "reloader_loop te (None # rounds) v = v"
| "reloader_loop te (Some (file, now) # rounds) v =
     (if \<not> tv_background_reload v then v
      else reloader_loop te rounds (snd (snd (refresh te file now now v))))"

definition token_file_permissions_are_over_permissive :: "32 word \<Rightarrow> bool" where
  "token_file_permissions_are_over_permissive mode \<longleftrightarrow> mode AND 63 \<noteq> 0"

section \<open>The interceptor\<close>

fun split_once :: "char \<Rightarrow> string \<Rightarrow> (string \<times> string) option" where
  "split_once sep [] = None"
| "split_once sep (c # cs) =
     (if c = sep then Some ([], cs) else map_option (\<lambda>(a, b). (c # a, b)) (split_once sep cs))"

definition bearer_token :: "(u8 list \<Rightarrow> string option) \<Rightarrow> u8 list option \<Rightarrow> Status + string" where
  "bearer_token to_str authorization =
     (case authorization of
        None \<Rightarrow> Inl (status Unauthenticated ''missing authorization header'')
      | Some value \<Rightarrow>
          (case to_str value of
             None \<Rightarrow> Inl (status Unauthenticated ''authorization header is not ASCII'')
           | Some text \<Rightarrow>
               (case split_once CHR '' '' text of
                  None \<Rightarrow> Inl (status Unauthenticated ''malformed authorization header'')
                | Some (scheme, rest) \<Rightarrow>
                    let token = trim rest
                    in if \<not> eq_ignore_ascii_case scheme ''bearer'' \<or> token = []
                       then Inl (status Unauthenticated ''expected `Bearer <token>`'')
                       else Inr token)))"

text \<open>A request as the interceptor sees it, with the reload inputs of \<open>verify\<close>.\<close>

record auth_inputs =
  ai_file :: "io_error + file_view"
  ai_checked :: instant
  ai_now :: instant

definition intercept_bearer ::
  "token_env \<Rightarrow> (u8 list \<Rightarrow> string option) \<Rightarrow> auth_inputs \<Rightarrow> u8 list option \<Rightarrow> TokenFileVault \<Rightarrow> (Status + unit) \<times> TokenFileVault" where
  "intercept_bearer te to_str ai authorization v =
     (case bearer_token to_str authorization of
        Inl st \<Rightarrow> (Inl st, v)
      | Inr token \<Rightarrow>
          (case verify te (ai_file ai) (ai_checked ai) (ai_now ai) token v of
             (ok, v') \<Rightarrow> (if ok then Inr () else Inl (status Unauthenticated ''invalid bearer token''), v')))"

definition bearer_call ::
  "token_env \<Rightarrow> (u8 list \<Rightarrow> string option) \<Rightarrow> auth_inputs \<Rightarrow> u8 list option \<Rightarrow> TokenFileVault option \<Rightarrow>
   (Status + unit) \<times> TokenFileVault option" where
  "bearer_call te to_str ai authorization vault =
     (case vault of
        None \<Rightarrow> (Inr (), None)
      | Some v \<Rightarrow> (case intercept_bearer te to_str ai authorization v of (r, v') \<Rightarrow> (r, Some v')))"

text \<open>\<open>BearerInterceptor::new\<close>.\<close>

definition new_interceptor ::
  "token_env \<Rightarrow> (string \<times> (io_error + file_view)) option \<Rightarrow> instant \<Rightarrow> bool \<Rightarrow> AuthError + TokenFileVault option" where
  "new_interceptor te file now spawned =
     (case file of
        None \<Rightarrow> Inr None
      | Some (path, f) \<Rightarrow> try_bind (open_vault te path f now) (\<lambda>v. Inr (Some (spawn_background_reloader spawned v))))"

section \<open>Comparison\<close>

lemma or_xor_0: "(d :: nat) OR (x XOR y) = 0 \<longleftrightarrow> d = 0 \<and> x = y"
  by (auto simp: bit_eq_iff bit_or_iff bit_xor_iff)

lemma xor_fold_0:
  "fold (\<lambda>(x, y) diff. diff OR (x XOR y)) ps (d :: nat) = 0 \<longleftrightarrow> d = 0 \<and> (\<forall>(x, y)\<in>set ps. x = y)"
  by (induction ps arbitrary: d) (auto simp: or_xor_0)

lemma ct_eq_iff: "length a = length b \<Longrightarrow> ct_eq a b \<longleftrightarrow> a = b"
  unfolding ct_eq_def xor_fold_0
  by (induction a b rule: list_induct2) auto

section \<open>Parsing\<close>

text \<open>The tokens a file text lists: its trimmed, non-empty lines of acceptable length.\<close>

definition file_tokens :: "string \<Rightarrow> string list" where
  "file_tokens text = filter (\<lambda>line. length line \<le> MAX_TOKEN_LINE_BYTES) (token_lines text)"

lemma file_tokens_nonempty: "t \<in> set (file_tokens text) \<Longrightarrow> t \<noteq> []"
  by (auto simp: file_tokens_def token_lines_def)

lemma parse_lines_eq:
  "length hs = min n MAX_TOKENS \<Longrightarrow>
   parse_lines sha ls hs k n =
     (let short = filter (\<lambda>l. length l \<le> MAX_TOKEN_LINE_BYTES) ls
      in (hs @ map sha (take (MAX_TOKENS - n) short), k + (length ls - length short), n + length short))"
proof (induction ls arbitrary: hs k n)
  case (Cons line ls)
  have le: "length (filter (\<lambda>l. length l \<le> MAX_TOKEN_LINE_BYTES) ls) \<le> length ls"
    by (rule length_filter_le)
  show ?case
  proof (cases "length line > MAX_TOKEN_LINE_BYTES")
    case True
    then show ?thesis using Cons le by (simp add: Let_def Suc_diff_le le_add2 trans_le_add2)
  next
    case False
    let ?hs = "if length hs < MAX_TOKENS then hs @ [sha line] else hs"
    have "length ?hs = min (n + 1) MAX_TOKENS" using Cons.prems by auto
    note IH = Cons.IH[OF this]
    show ?thesis
    proof (cases "n < MAX_TOKENS")
      case True
      then have "MAX_TOKENS - n = Suc (MAX_TOKENS - (n + 1))" by simp
      then show ?thesis using False True Cons.prems IH by (simp add: Let_def)
    next
      case False
      then show ?thesis using \<open>\<not> length line > MAX_TOKEN_LINE_BYTES\<close> Cons.prems IH by (simp add: Let_def)
    qed
  qed
qed simp

lemma parse_token_lines_eq:
  "parse_token_lines sha text =
     (if length (file_tokens text) > MAX_TOKENS then Inl (TooManyTokens (length (file_tokens text)))
      else Inr \<lparr>pt_hashes = map sha (file_tokens text),
                pt_skipped_long_lines = length (token_lines text) - length (file_tokens text)\<rparr>)"
  by (simp add: parse_token_lines_def parse_lines_eq Let_def file_tokens_def[symmetric])

section \<open>The reachable vaults\<close>

definition sha256_digests :: "token_env \<Rightarrow> bool" where
  "sha256_digests te \<longleftrightarrow> (\<forall>s. length (te_sha te s) = 32)"

definition cache_wf :: "CachedTokens \<Rightarrow> bool" where
  "cache_wf c \<longleftrightarrow>
     (\<forall>h\<in>set (ct_hashes c). length h = 32) \<and> length (ct_hashes c) \<le> MAX_TOKENS \<and>
     (ct_hashes c = [] \<or> ct_consecutive_empty c \<le> 1)"

inductive vault_reach :: "token_env \<Rightarrow> TokenFileVault \<Rightarrow> bool" for te where
  vault_open: "open_vault te path file now = Inr v \<Longrightarrow> vault_reach te v"
| vault_spawn: "vault_reach te v \<Longrightarrow> vault_reach te (spawn_background_reloader spawned v)"
| vault_refresh: "vault_reach te v \<Longrightarrow> refresh te file checked now v = (hashes, event, v') \<Longrightarrow> vault_reach te v'"
| vault_verify: "vault_reach te v \<Longrightarrow> verify te file checked now presented v = (ok, v') \<Longrightarrow> vault_reach te v'"

lemma read_token_file_parsed:
  "read_token_file te file = Inr parsed \<Longrightarrow> \<exists>text. parse_token_lines (te_sha te) text = Inr parsed"
  by (auto simp: read_token_file_def Let_def split: sum.splits if_splits)

lemma read_token_file_wf:
  assumes "sha256_digests te" "read_token_file te file = Inr parsed"
  shows "(\<forall>h\<in>set (pt_hashes parsed). length h = 32) \<and> length (pt_hashes parsed) \<le> MAX_TOKENS"
  using read_token_file_parsed[OF assms(2)] assms(1)
  by (auto simp: parse_token_lines_eq sha256_digests_def split: if_splits)

lemma reload_outcome_Loaded: "reload_outcome r = Loaded parsed \<longleftrightarrow> r = Inr parsed"
  by (cases r rule: reload_outcome.cases) auto

lemma publish_wf:
  assumes "cache_wf c" "\<And>parsed. out = Loaded parsed \<Longrightarrow>
             (\<forall>h\<in>set (pt_hashes parsed). length h = 32) \<and> length (pt_hashes parsed) \<le> MAX_TOKENS"
  shows "cache_wf (fst (publish age now out c))"
  using assms by (cases out) (auto simp: cache_wf_def keep_or_expire_def Let_def)

lemma refresh_due:
  assumes "\<not> tv_reloading v" "is_stale (ct_loaded_at (tv_cached v)) (tv_reload_interval v) checked"
  shows "snd (snd (refresh te file checked now v)) =
     v\<lparr>tv_cached := (fst (publish (tv_max_stale_age v) now (reload_outcome (read_token_file te file)) (tv_cached v)))
          \<lparr>ct_loaded_at := Some now\<rparr>\<rparr>"
  using assms by (simp add: refresh_def split: prod.splits)

lemma refresh_not_due:
  assumes "tv_reloading v \<or> \<not> is_stale (ct_loaded_at (tv_cached v)) (tv_reload_interval v) checked"
  shows "snd (snd (refresh te file checked now v)) = v"
  using assms by (auto simp: refresh_def)

lemma refresh_hashes: "fst (refresh te file checked now v) = ct_hashes (tv_cached (snd (snd (refresh te file checked now v))))"
  by (simp add: refresh_def Let_def split: prod.splits)

lemma refresh_wf:
  assumes "sha256_digests te" "cache_wf (tv_cached v)"
  shows "cache_wf (tv_cached (snd (snd (refresh te file checked now v))))"
proof (cases "tv_reloading v \<or> \<not> is_stale (ct_loaded_at (tv_cached v)) (tv_reload_interval v) checked")
  case False
  then have "cache_wf (fst (publish (tv_max_stale_age v) now (reload_outcome (read_token_file te file)) (tv_cached v)))"
    by (intro publish_wf[OF assms(2)] read_token_file_wf[OF assms(1)]) (simp add: reload_outcome_Loaded)
  then show ?thesis using False by (simp add: refresh_due) (simp add: cache_wf_def)
qed (simp add: refresh_not_due assms)

lemma open_vault_wf:
  assumes "sha256_digests te" "open_vault te path file now = Inr v"
  shows "cache_wf (tv_cached v)"
  using assms read_token_file_wf[OF assms(1)]
  by (auto simp: open_vault_def read_token_hashes_def default_cached_def cache_wf_def Let_def
      split: sum.splits LoadError.splits if_splits)

lemma vault_reach_wf: "vault_reach te v \<Longrightarrow> sha256_digests te \<Longrightarrow> cache_wf (tv_cached v)"
proof (induction rule: vault_reach.induct)
  case (vault_open path f now v)
  then show ?case by (rule open_vault_wf[rotated])
next
  case (vault_spawn v spawned)
  then show ?case by (simp add: spawn_background_reloader_def Let_def)
next
  case (vault_refresh v f checked now hashes event v')
  then show ?case using refresh_wf[of te v f checked now] by simp
next
  case (vault_verify v f checked now presented ok v')
  then show ?case using refresh_wf[of te v f checked now]
    by (auto simp: verify_def Let_def split: if_splits prod.splits)
qed

section \<open>Fail closed\<close>

fun bad_outcome :: "ReloadOutcome \<Rightarrow> bool" where
  "bad_outcome (Loaded parsed) \<longleftrightarrow> pt_hashes parsed = []"
| "bad_outcome _ \<longleftrightarrow> True"

text \<open>The grace period runs at the latest from \<open>t\<close>, or nothing is served any more.\<close>

definition expiring :: "instant \<Rightarrow> CachedTokens \<Rightarrow> bool" where
  "expiring t c \<longleftrightarrow>
     ct_hashes c = [] \<or> (\<exists>s\<le>t. ct_unhealthy_since c = Some s) \<and> ct_consecutive_empty c \<le> 1"

definition last_chance :: "instant \<Rightarrow> CachedTokens \<Rightarrow> bool" where
  "last_chance t c \<longleftrightarrow>
     ct_hashes c = [] \<or> (\<exists>s\<le>t. ct_unhealthy_since c = Some s) \<and> ct_consecutive_empty c = 1"

lemma bad_keeps_expiring: "bad_outcome out \<Longrightarrow> expiring t c \<Longrightarrow> expiring t (fst (publish age now out c))"
  by (cases out) (auto simp: expiring_def keep_or_expire_def Let_def)

lemma bad_after_grace:
  "bad_outcome out \<Longrightarrow> expiring t c \<Longrightarrow> t + age \<le> now \<Longrightarrow> last_chance t (fst (publish age now out c))"
  by (cases out) (auto simp: expiring_def last_chance_def keep_or_expire_def Let_def le_Suc_eq)

lemma bad_last_chance:
  "bad_outcome out \<Longrightarrow> last_chance t c \<Longrightarrow> t + age \<le> now \<Longrightarrow> ct_hashes (fst (publish age now out c)) = []"
  by (cases out) (auto simp: last_chance_def keep_or_expire_def Let_def)

definition healthy :: "CachedTokens \<Rightarrow> bool" where
  "healthy c \<longleftrightarrow> ct_unhealthy_since c = None \<and> ct_consecutive_empty c = 0"

lemma bad_twice:
  assumes "healthy c" "bad_outcome out1" "bad_outcome out2" "t1 \<le> t2"
  shows "expiring t2 (fst (publish age t2 out2 ((fst (publish age t1 out1 c))\<lparr>ct_loaded_at := l\<rparr>)))"
  using assms by (cases out1; cases out2) (auto simp: healthy_def expiring_def keep_or_expire_def Let_def)

text \<open>One reload of a vault that is due.\<close>

definition reload_with :: "token_env \<Rightarrow> duration \<Rightarrow> (io_error + file_view) \<times> instant \<Rightarrow> CachedTokens \<Rightarrow> CachedTokens" where
  "reload_with te age r c =
     (fst (publish age (snd r) (reload_outcome (read_token_file te (fst r))) c))\<lparr>ct_loaded_at := Some (snd r)\<rparr>"

definition bad_reload :: "token_env \<Rightarrow> (io_error + file_view) \<times> instant \<Rightarrow> bool" where
  "bad_reload te r \<longleftrightarrow> bad_outcome (reload_outcome (read_token_file te (fst r)))"

fun spaced :: "duration \<Rightarrow> instant \<Rightarrow> instant list \<Rightarrow> bool" where
  "spaced d t [] \<longleftrightarrow> True"
| "spaced d t (x # xs) \<longleftrightarrow> t + d \<le> x \<and> spaced d x xs"

lemma reloader_loop_fold:
  assumes "tv_background_reload v" "\<not> tv_reloading v" "ct_loaded_at (tv_cached v) = Some t0"
    and "spaced (tv_reload_interval v) t0 (map snd rs)"
  shows "reloader_loop te (map Some rs) v = v\<lparr>tv_cached := fold (reload_with te (tv_max_stale_age v)) rs (tv_cached v)\<rparr>"
  using assms
proof (induction rs arbitrary: v t0)
  case (Cons r rs)
  obtain f now where r: "r = (f, now)" by (rule prod.exhaust)
  have due: "is_stale (ct_loaded_at (tv_cached v)) (tv_reload_interval v) now"
    using Cons.prems by (auto simp: is_stale_def r)
  show ?case
    using Cons.prems by (simp add: r refresh_due[OF _ due] reload_with_def Cons.IH[of _ now])
qed simp

lemma expiring_reload [simp]:
  "expiring t (c\<lparr>ct_loaded_at := l\<rparr>) = expiring t c" "last_chance t (c\<lparr>ct_loaded_at := l\<rparr>) = last_chance t c"
  by (simp_all add: expiring_def last_chance_def)

lemma fold_keeps_expiring:
  "\<forall>r\<in>set rs. bad_reload te r \<Longrightarrow> expiring t c \<Longrightarrow> expiring t (fold (reload_with te age) rs c)"
  by (induction rs arbitrary: c) (auto simp: reload_with_def bad_reload_def bad_keeps_expiring)

lemma fold_fails_closed:
  assumes "healthy c" "\<forall>r\<in>set (r1 # r2 # mid @ [rm, rn]). bad_reload te r"
    and "snd r1 \<le> snd r2" "snd r2 + age \<le> snd rm" "snd rm \<le> snd rn"
  shows "ct_hashes (fold (reload_with te age) (r1 # r2 # mid @ [rm, rn]) c) = []"
proof -
  let ?c2 = "reload_with te age r2 (reload_with te age r1 c)"
  have "expiring (snd r2) ?c2"
    using assms bad_twice[of c _ _ "snd r1" "snd r2" age] by (simp add: reload_with_def bad_reload_def)
  then have "expiring (snd r2) (fold (reload_with te age) mid ?c2)"
    using assms by (intro fold_keeps_expiring) auto
  then have "last_chance (snd r2) (reload_with te age rm (fold (reload_with te age) mid ?c2))"
    using assms by (simp add: reload_with_def bad_reload_def bad_after_grace)
  then show ?thesis
    using assms by (simp add: reload_with_def bad_reload_def) (rule bad_last_chance[of _ "snd r2"]; simp)
qed

lemma spaced_append:
  "spaced d t (xs @ y # ys) \<Longrightarrow> t \<le> y \<and> spaced d y ys"
  by (induction xs arbitrary: t) (simp, fastforce)

lemma verify_cached:
  assumes "tv_background_reload v \<or> \<not> is_stale (ct_loaded_at (tv_cached v)) (tv_reload_interval v) checked"
  shows "verify te f checked now presented v =
     (presented \<noteq> [] \<and> list_ex (\<lambda>h. ct_eq h (te_sha te presented)) (ct_hashes (tv_cached v)), v)"
  using assms by (auto simp: verify_def Let_def)

lemma split_once_first: "sep \<notin> set a \<Longrightarrow> split_once sep (a @ sep # b) = Some (a, b)"
  by (induction a) auto

text \<open>What a successful bounded read of the file yields.\<close>

lemma read_token_file_ok:
  assumes "fv_len fv \<le> MAX_TOKEN_FILE_BYTES" "fv_read fv = Inr bytes" "length bytes \<le> MAX_TOKEN_FILE_BYTES" "from_utf8 bytes"
    and "length (file_tokens (map char_of bytes)) \<le> MAX_TOKENS"
  shows "\<exists>k. read_token_file te (Inr fv) =
    Inr \<lparr>pt_hashes = map (te_sha te) (file_tokens (map char_of bytes)), pt_skipped_long_lines = k\<rparr>"
  using assms by (simp add: read_token_file_def parse_token_lines_eq Let_def)

section \<open>Properties\<close>

text \<open>C10: a reload that reads a well-formed file makes the interceptor accept exactly its tokens.
  Once a due reload has read a file within the limits that lists at least one token, a request
  whose header is a bearer scheme, a space and the rest is let through if and only if the
  trimmed rest is one of the listed tokens: old lines that were deleted stop working, appended
  lines work, and nothing else does.  SHA-256 digests have 32 bytes and do not collide on the
  tokens concerned.\<close>
theorem bearer_accepts_listed_tokens:
  assumes "sha256_digests te" "inj_on (te_sha te) (insert (trim rest) (set tokens))"
    and "fv_len fv \<le> MAX_TOKEN_FILE_BYTES" "fv_read fv = Inr bytes" "length bytes \<le> MAX_TOKEN_FILE_BYTES" "from_utf8 bytes"
    and "tokens = file_tokens (map char_of bytes)" "tokens \<noteq> []" "length tokens \<le> MAX_TOKENS"
    and "\<not> tv_reloading v" "is_stale (ct_loaded_at (tv_cached v)) (tv_reload_interval v) checked"
    and "v' = snd (snd (refresh te (Inr fv) checked now v))"
    and "tv_background_reload v \<or> ai_checked ai - now < tv_reload_interval v"
    and "to_str header = Some (scheme @ CHR '' '' # rest)" "CHR '' '' \<notin> set scheme" "eq_ignore_ascii_case scheme ''bearer''"
  shows "fst (intercept_bearer te to_str ai (Some header) v') = Inr () \<longleftrightarrow> trim rest \<in> set tokens"
proof -
  obtain k where read: "read_token_file te (Inr fv) = Inr \<lparr>pt_hashes = map (te_sha te) tokens, pt_skipped_long_lines = k\<rparr>"
    using read_token_file_ok[of fv bytes te] assms by auto
  have v': "v' = v\<lparr>tv_cached := (tv_cached v)\<lparr>ct_hashes := map (te_sha te) tokens, ct_unhealthy_since := None,
                     ct_consecutive_empty := 0, ct_loaded_at := Some now\<rparr>\<rparr>"
    using assms(8,10-12) by (simp add: refresh_due read)
  have "tv_background_reload v' \<or> \<not> is_stale (ct_loaded_at (tv_cached v')) (tv_reload_interval v') (ai_checked ai)"
    using assms(13) by (auto simp: v' is_stale_def)
  note cached = verify_cached[OF this]
  have "list_ex (\<lambda>h. ct_eq h (te_sha te (trim rest))) (ct_hashes (tv_cached v')) \<longleftrightarrow> trim rest \<in> set tokens"
    using assms(1,2) by (auto simp: v' list_ex_iff ct_eq_iff sha256_digests_def inj_on_def)
  then show ?thesis
    using assms(14-16) file_tokens_nonempty[of "trim rest"] assms(7)
    by (auto simp: intercept_bearer_def bearer_token_def split_once_first cached Let_def)
qed

text \<open>C31: the vault fails closed.  A background reloader starts from a vault whose last reload was
  good and then observes only bad files, unreadable, over the limits, removed or empty, in
  rounds at least one reload interval apart.  As soon as two rounds lie a whole grace period
  after the second one, no token authenticates any more, whatever the mixture of failures.\<close>
theorem bad_reloads_fail_closed:
  assumes "tv_background_reload v" "\<not> tv_reloading v" "ct_loaded_at (tv_cached v) = Some t0" "healthy (tv_cached v)"
    and "\<forall>r\<in>set (r1 # r2 # mid @ [rm, rn]). bad_reload te r"
    and "spaced (tv_reload_interval v) t0 (map snd (r1 # r2 # mid @ [rm, rn]))"
    and "snd r2 + tv_max_stale_age v \<le> snd rm"
  shows "\<not> fst (verify te f checked now presented (reloader_loop te (map Some (r1 # r2 # mid @ [rm, rn])) v))"
proof -
  have "snd r1 \<le> snd r2" "snd rm \<le> snd rn"
    using assms(6) spaced_append[of "tv_reload_interval v" "snd r2" "map snd mid" "snd rm" "[snd rn]"] by auto
  then show ?thesis
    using reloader_loop_fold[OF assms(1-3,6), of te] fold_fails_closed[OF assms(4,5) _ assms(7)] assms(1)
    by (simp add: verify_cached)
qed

text \<open>C32: in every vault that opening, reloading, verifying and starting the reloader can produce,
  the cache holds digests of 32 bytes, at most the token limit of them, and a second empty
  observation has cleared it.\<close>
theorem token_cache_well_typed:
  assumes "sha256_digests te" "vault_reach te v"
  shows "(\<forall>h\<in>set (ct_hashes (tv_cached v)). length h = 32) \<and> length (ct_hashes (tv_cached v)) \<le> MAX_TOKENS \<and>
    (ct_hashes (tv_cached v) = [] \<or> ct_consecutive_empty (tv_cached v) \<le> 1)"
  using vault_reach_wf[OF assms(2,1)] unfolding cache_wf_def .

section \<open>Witnesses\<close>

definition sample_env :: token_env where
  "sample_env = \<lparr>te_sha = (\<lambda>s. take 32 (map of_char s @ replicate 32 0)), te_utf8_error = (\<lambda>_. ''invalid'')\<rparr>"

definition sample_bytes :: "u8 list" where
  "sample_bytes = [97, 98, 13, 10, 32, 99, 100, 10]"

definition sample_file :: file_view where
  "sample_file = \<lparr>fv_len = 8, fv_read = Inr sample_bytes\<rparr>"

definition empty_file :: file_view where
  "empty_file = \<lparr>fv_len = 0, fv_read = Inr []\<rparr>"

definition unreadable_file :: "io_error + file_view" where
  "unreadable_file = Inl \<lparr>io_error_kind = OtherKind, io_error_text = ''input/output error''\<rparr>"

definition sample_vault :: TokenFileVault where
  "sample_vault = \<lparr>tv_path = ''tokens'', tv_reload_interval = 5, tv_max_stale_age = 300,
     tv_cached = \<lparr>ct_loaded_at = Some 0, ct_hashes = [te_sha sample_env ''ab''], ct_unhealthy_since = None, ct_consecutive_empty = 0\<rparr>,
     tv_reloading = False, tv_background_reload = True\<rparr>"

definition sample_header :: "u8 list" where
  "sample_header = map of_char ''Bearer cd''"

lemma sample_sha: "sha256_digests sample_env"
  by (auto simp: sha256_digests_def sample_env_def min_def)

lemma sample_token: "trim ''cd'' = ''cd''"
  by code_simp

lemma sample_inj: "inj_on (te_sha sample_env) (insert (trim ''cd'') (set [''ab'', ''cd'']))"
  by (simp add: sample_token sample_env_def inj_on_def)

lemma sample_tokens: "[''ab'', ''cd''] = file_tokens (map char_of sample_bytes)"
  by code_simp

definition sample_to_str :: "u8 list \<Rightarrow> string option" where
  "sample_to_str bytes = Some (map char_of bytes)"

lemma sample_header_text:
  "sample_to_str sample_header = Some (''Bearer'' @ CHR '' '' # ''cd'')" "eq_ignore_ascii_case ''Bearer'' ''bearer''"
  by code_simp+

lemma sample_read:
  "fv_len sample_file \<le> MAX_TOKEN_FILE_BYTES" "fv_read sample_file = Inr sample_bytes"
  "length sample_bytes \<le> MAX_TOKEN_FILE_BYTES" "length [''ab'', ''cd''] \<le> MAX_TOKENS"
  by (simp_all add: sample_file_def sample_bytes_def MAX_TOKEN_FILE_BYTES_def MAX_TOKENS_def)

lemma sample_utf8: "from_utf8 sample_bytes"
  by code_simp

lemma sample_vault_facts:
  "tv_background_reload sample_vault" "\<not> tv_reloading sample_vault" "ct_loaded_at (tv_cached sample_vault) = Some 0"
  "healthy (tv_cached sample_vault)" "tv_reload_interval sample_vault = 5" "tv_max_stale_age sample_vault = 300"
  by (simp_all add: sample_vault_def healthy_def)

lemma sample_stale: "is_stale (ct_loaded_at (tv_cached sample_vault)) (tv_reload_interval sample_vault) 6"
  by (simp add: sample_vault_def is_stale_def)

lemma sample_bad: "bad_reload sample_env (unreadable_file, t)" "bad_reload sample_env (Inr empty_file, t)"
  by (simp_all add: bad_reload_def unreadable_file_def empty_file_def read_token_file_def parse_token_lines_eq file_tokens_def
      token_lines_def str_lines_def)

theorem bearer_accepts_listed_tokens_witness:
  "fst (intercept_bearer sample_env sample_to_str \<lparr>ai_file = unreadable_file, ai_checked = 900, ai_now = 900\<rparr>
     (Some sample_header) (snd (snd (refresh sample_env (Inr sample_file) 6 6 sample_vault)))) = Inr ()"
  by (rule iffD2[OF bearer_accepts_listed_tokens[where to_str = sample_to_str and header = sample_header and now = 6,
          OF sample_sha sample_inj sample_read(1-3) sample_utf8 sample_tokens _
          sample_read(4) sample_vault_facts(2) sample_stale refl disjI1[OF sample_vault_facts(1)] sample_header_text(1) _
          sample_header_text(2)]])
    (simp_all add: sample_token)

theorem bad_reloads_fail_closed_witness:
  "\<not> fst (verify sample_env unreadable_file 900 900 ''ab''
     (reloader_loop sample_env
        (map Some ((unreadable_file, 5) # (Inr empty_file, 10) # [] @ [(unreadable_file, 310), (Inr empty_file, 315)]))
        sample_vault))"
  by (rule bad_reloads_fail_closed[OF sample_vault_facts(1-4)]) (simp_all add: sample_bad sample_vault_facts)

theorem token_cache_well_typed_witness:
  "\<exists>v. open_vault sample_env ''tokens'' (Inr sample_file) 0 = Inr v \<and> length (ct_hashes (tv_cached v)) \<le> MAX_TOKENS"
proof -
  obtain v where v: "open_vault sample_env ''tokens'' (Inr sample_file) 0 = Inr v"
    using read_token_file_ok[OF sample_read(1-3) sample_utf8, of sample_env]
    by (auto simp: open_vault_def read_token_hashes_def sample_tokens[symmetric] sample_read(4)[simplified] Let_def)
  then show ?thesis using token_cache_well_typed[OF sample_sha vault_open[OF v]] by auto
qed

end
