(* ===== verification/App_Config.thy ===== *)
theory App_Config
  imports Config_Durations Socket_Addr Storage_Lifecycle Scheduler Bearer_Auth
begin

text \<open>
  The application configuration (\<open>otel-sqlite/src/config.rs\<close> and \<open>config/\<close>): built-in
  defaults, the overlay of a configuration file section by section, the validation that runs
  before anything is started, and the configurations handed to ingress and storage.

  Reading the file and parsing TOML into the optional keys of \<open>FileConfig\<close> are arguments, and
  so is the state of a referenced file.  An error of a validation is the check that failed, with the
  values it reports; its text is left out, as are the warnings.
\<close>

section \<open>Configuration\<close>

definition DEFAULT_INGEST_QUEUE_CAPACITY :: usize where
  "DEFAULT_INGEST_QUEUE_CAPACITY = 50000"

definition MAX_INGEST_QUEUE_CAPACITY :: usize where
  "MAX_INGEST_QUEUE_CAPACITY = 1000000"

definition MAX_GRPC_RECV_MSG_SIZE :: usize where
  "MAX_GRPC_RECV_MSG_SIZE = 256 * 1024 * 1024"

definition MAX_GRPC_CONCURRENT_STREAMS :: u32 where
  "MAX_GRPC_CONCURRENT_STREAMS = 1024"

definition MAX_BATCH_RECORDS :: usize where
  "MAX_BATCH_RECORDS = 100000"

definition MAX_RECORDS_PER_REQUEST :: usize where
  "MAX_RECORDS_PER_REQUEST = 1000000"

definition MIN_DB_QUOTA_BYTES :: u64 where
  "MIN_DB_QUOTA_BYTES = 1024 * 1024"

definition MAX_TIMEOUT :: duration where
  "MAX_TIMEOUT = from_secs (60 * 60)"

definition MAX_RETENTION :: duration where
  "MAX_RETENTION = from_secs (10 * 365 * 24 * 60 * 60)"

definition MAX_MAPPING_CONCURRENCY :: usize where
  "MAX_MAPPING_CONCURRENCY = 512"

definition MAX_ATTRIBUTES_PER_RECORD :: usize where
  "MAX_ATTRIBUTES_PER_RECORD = 100000"

definition MAX_ATTRIBUTE_KEY_BYTES :: usize where
  "MAX_ATTRIBUTE_KEY_BYTES = 16384"

definition MAX_ATTRIBUTE_VALUE_BYTES :: usize where
  "MAX_ATTRIBUTE_VALUE_BYTES = 4 * 1024 * 1024"

definition MAX_BODY_BYTES :: usize where
  "MAX_BODY_BYTES = 16 * 1024 * 1024"

definition MAX_SCOPE_METADATA_EXPANSION_BYTES :: usize where
  "MAX_SCOPE_METADATA_EXPANSION_BYTES = 256 * 1024 * 1024"

record Config =
  cf_listen_address :: string
  cf_sqlite_path :: string
  cf_ingest_queue_capacity :: usize
  cf_command_queue_capacity :: usize
  cf_batcher_max_batch_records :: usize
  cf_batcher_max_batch_age :: duration
  cf_grpc_max_recv_msg_size :: usize
  cf_grpc_max_concurrent_streams :: u32
  cf_mapping_concurrency :: usize
  cf_max_records_per_request :: usize
  cf_max_attributes_per_record :: usize
  cf_max_attribute_key_bytes :: usize
  cf_max_attribute_value_bytes :: usize
  cf_max_body_bytes :: usize
  cf_max_scope_metadata_expansion_bytes :: usize
  cf_max_db_bytes :: "u64 option"
  cf_shutdown_timeout :: duration
  cf_maintenance :: MaintenanceConfig
  cf_watchdog :: WatchdogConfig
  cf_durability_mode :: DurabilityMode
  cf_sqlite_synchronous :: SyncMode
  cf_metrics_address :: "string option"
  cf_allow_remote_metrics :: bool
  cf_allow_insecure_remote :: bool
  cf_tls :: "TlsConfig option"
  cf_auth :: "AuthConfig option"

definition default_config :: Config where
  "default_config =
     \<lparr>cf_listen_address = ''127.0.0.1:4317'', cf_sqlite_path = ''otel-logs.db'',
      cf_ingest_queue_capacity = DEFAULT_INGEST_QUEUE_CAPACITY,
      cf_command_queue_capacity = DEFAULT_COMMAND_QUEUE_CAPACITY,
      cf_batcher_max_batch_records = max_batch_records default_batcher_config,
      cf_batcher_max_batch_age = max_batch_age default_batcher_config,
      cf_grpc_max_recv_msg_size = 16 * 1024 * 1024, cf_grpc_max_concurrent_streams = 64,
      cf_mapping_concurrency = 2 * 64, cf_max_records_per_request = 100000,
      cf_max_attributes_per_record = 1000, cf_max_attribute_key_bytes = 512,
      cf_max_attribute_value_bytes = 64 * 1024, cf_max_body_bytes = 1024 * 1024,
      cf_max_scope_metadata_expansion_bytes = 16 * 1024 * 1024, cf_max_db_bytes = None,
      cf_shutdown_timeout = from_secs 30, cf_maintenance = default_maintenance_config,
      cf_watchdog = default_watchdog_config, cf_durability_mode = CommitMode,
      cf_sqlite_synchronous = SyncNormal, cf_metrics_address = None, cf_allow_remote_metrics = False,
      cf_allow_insecure_remote = False, cf_tls = None, cf_auth = None\<rparr>"

datatype ConfigError =
    InvalidAddress string string
  | ZeroPort string
  | CleartextRemote string
  | OutOfRange string nat nat nat
  | BadDuration string duration duration
  | QuotaTooSmall u64
  | MaintenanceStallTooShort
  | DegradedTooLong
  | BatchAgeTooLong duration duration
  | BadPressureRatio f32
  | RemoteMetrics string
  | NotReadable string string
  | NotRegularFile string string
  | BadSetting string
  | ConfigUnreadable string
  | ConfigUnparsable string string
  | InvalidSettings string ConfigError

section \<open>The overlay\<close>

record RetentionSection =
  rs_logs :: "RawDuration option"
  rs_metrics :: bool

text \<open>The value of \<open>retention\<close>: a table, as the deserializer resolves it, a scalar duration, or
  any other TOML value.\<close>

datatype retention_value = RetentionTable "string + RetentionSection" | RetentionScalar duration_repr | RetentionOther string

record MaintenanceSection =
  ms_retention :: "retention_value option"
  ms_purge_interval :: "RawDuration option"
  ms_checkpoint_interval :: "RawDuration option"
  ms_checkpoint_mode :: "string option"
  ms_optimize_interval :: "RawDuration option"
  ms_vacuum_interval :: "RawDuration option"
  ms_rebuild_fts_interval :: "RawDuration option"
  ms_retry_delay :: "RawDuration option"

definition apply_retention :: "MaintenanceConfig \<Rightarrow> retention_value option \<Rightarrow> ConfigError + MaintenanceConfig" where
  "apply_retention config raw =
     (case raw of
        None \<Rightarrow> Inr config
      | Some (RetentionTable (Inl e)) \<Rightarrow> Inl (BadSetting (''invalid [maintenance.retention] settings: '' @ e))
      | Some (RetentionTable (Inr retention)) \<Rightarrow>
          if rs_metrics retention then Inl (BadSetting (''maintenance.retention.metrics is no longer supported: the OTLP metrics '' @
                 ''signal was removed; use `logs` (or a single uniform window) instead''))
          else Inr (config\<lparr>mc_retention := apply_optional_duration (mc_retention config) (rs_logs retention)\<rparr>)
      | Some (RetentionOther e) \<Rightarrow> Inl (BadSetting (''invalid retention window: '' @ e))
      | Some (RetentionScalar repr) \<Rightarrow>
          (case deserialize_duration repr of
             Inl e \<Rightarrow> Inl (BadSetting (''invalid retention window: '' @ e))
           | Inr (Enabled window) \<Rightarrow> Inr (config\<lparr>mc_retention := Some window\<rparr>)
           | Inr Disabled \<Rightarrow> Inr (config\<lparr>mc_retention := None\<rparr>)))"

definition parse_checkpoint_mode :: "string \<Rightarrow> ConfigError + CheckpointMode" where
  "parse_checkpoint_mode text =
     (let trimmed = trim text
      in if eq_ignore_ascii_case trimmed ''passive'' then Inr Passive
         else if eq_ignore_ascii_case trimmed ''full'' then Inr Full
         else if eq_ignore_ascii_case trimmed ''restart'' then Inr Restart
         else if eq_ignore_ascii_case trimmed ''truncate'' then Inr Truncate
         else Inl (BadSetting (''unknown checkpoint_mode `'' @ trimmed @ ''` (expected passive|full|restart|truncate)'')))"

definition map_error :: "('e \<Rightarrow> 'f) \<Rightarrow> 'e + 'a \<Rightarrow> 'f + 'a" where
  "map_error f r = (case r of Inl e \<Rightarrow> Inl (f e) | Inr a \<Rightarrow> Inr a)"

definition required :: "duration \<Rightarrow> RawDuration option \<Rightarrow> string \<Rightarrow> ConfigError + duration" where
  "required target raw key = map_error BadSetting (apply_required_duration target raw key)"

definition apply_maintenance :: "MaintenanceSection \<Rightarrow> MaintenanceConfig \<Rightarrow> ConfigError + MaintenanceConfig" where
  "apply_maintenance s config0 =
     try_bind (apply_retention config0 (ms_retention s)) (\<lambda>config.
       let config1 = config\<lparr>mc_purge_interval := apply_optional_duration (mc_purge_interval config) (ms_purge_interval s),
             mc_checkpoint_interval := apply_optional_duration (mc_checkpoint_interval config) (ms_checkpoint_interval s),
             mc_optimize_interval := apply_optional_duration (mc_optimize_interval config) (ms_optimize_interval s),
             mc_vacuum_interval := apply_optional_duration (mc_vacuum_interval config) (ms_vacuum_interval s),
             mc_rebuild_fts_interval := apply_optional_duration (mc_rebuild_fts_interval config) (ms_rebuild_fts_interval s)\<rparr>
       in try_bind (required (mc_retry_delay config1) (ms_retry_delay s) ''maintenance.retry_delay'') (\<lambda>retry.
            let config2 = config1\<lparr>mc_retry_delay := retry\<rparr>
            in case ms_checkpoint_mode s of
                 None \<Rightarrow> Inr config2
               | Some mode \<Rightarrow> try_bind (parse_checkpoint_mode mode) (\<lambda>m. Inr (config2\<lparr>mc_checkpoint_mode := m\<rparr>))))"

record WatchdogSection =
  wsec_tick_interval :: "RawDuration option"
  wsec_degraded_after :: "RawDuration option"
  wsec_unhealthy_after :: "RawDuration option"
  wsec_ack_stall_after :: "RawDuration option"
  wsec_maintenance_stall_after :: "RawDuration option"
  wsec_queue_pressure_ratio :: "f32 option"
  wsec_halt_on_unhealthy :: "bool option"

abbreviation or_keep :: "'a option \<Rightarrow> 'a \<Rightarrow> 'a" where
  "or_keep value keep \<equiv> (case value of Some v \<Rightarrow> v | None \<Rightarrow> keep)"

definition apply_watchdog :: "WatchdogSection \<Rightarrow> WatchdogConfig \<Rightarrow> ConfigError + WatchdogConfig" where
  "apply_watchdog s c =
     try_bind (required (wc_tick_interval c) (wsec_tick_interval s) ''watchdog.tick_interval'') (\<lambda>tick.
     try_bind (required (wc_degraded_after c) (wsec_degraded_after s) ''watchdog.degraded_after'') (\<lambda>degraded.
     try_bind (required (wc_unhealthy_after c) (wsec_unhealthy_after s) ''watchdog.unhealthy_after'') (\<lambda>unhealthy.
     try_bind (required (wc_ack_stall_after c) (wsec_ack_stall_after s) ''watchdog.ack_stall_after'') (\<lambda>ack.
     try_bind (required (wc_maintenance_stall_after c) (wsec_maintenance_stall_after s) ''watchdog.maintenance_stall_after'') (\<lambda>stall.
       Inr \<lparr>wc_tick_interval = tick, wc_degraded_after = degraded, wc_unhealthy_after = unhealthy,
            wc_ack_stall_after = ack, wc_maintenance_stall_after = stall,
            wc_queue_pressure_ratio = or_keep (wsec_queue_pressure_ratio s) (wc_queue_pressure_ratio c),
            wc_halt_on_unhealthy = or_keep (wsec_halt_on_unhealthy s) (wc_halt_on_unhealthy c)\<rparr>)))))"

record DurabilitySection =
  ds_mode :: "string option"
  ds_synchronous :: "string option"

definition apply_durability :: "DurabilitySection \<Rightarrow> Config \<Rightarrow> ConfigError + Config" where
  "apply_durability s c =
     try_bind (case ds_mode s of
         None \<Rightarrow> Inr c
       | Some mode \<Rightarrow>
           (case durability_parse mode of
              Some m \<Rightarrow> Inr (c\<lparr>cf_durability_mode := m\<rparr>)
            | None \<Rightarrow> Inl (BadSetting (''unknown durability.mode `'' @ mode @ ''` (expected commit|enqueue)''))))
       (\<lambda>c1. case ds_synchronous s of
         None \<Rightarrow> Inr c1
       | Some sync \<Rightarrow>
           (case sync_parse sync of
              Some m \<Rightarrow> Inr (c1\<lparr>cf_sqlite_synchronous := m\<rparr>)
            | None \<Rightarrow> Inl (BadSetting (''unknown durability.synchronous `'' @ sync @ ''` (expected normal|full)''))))"

record TlsSection =
  tsec_cert :: "string option"
  tsec_key :: "string option"
  tsec_client_ca :: "string option"

definition apply_tls :: "TlsSection \<Rightarrow> ConfigError + TlsConfig" where
  "apply_tls s =
     (case tsec_cert s of
        None \<Rightarrow> Inl (BadSetting ''[tls] requires `cert` (path to the PEM-encoded server certificate)'')
      | Some cert \<Rightarrow>
          (case tsec_key s of
             None \<Rightarrow> Inl (BadSetting ''[tls] requires `key` (path to the PEM-encoded private key)'')
           | Some key \<Rightarrow> Inr \<lparr>tls_cert = cert, tls_key = key, tls_client_ca = tsec_client_ca s\<rparr>))"

record AuthSection =
  asec_mode :: "string option"
  asec_token_file :: "string option"

definition quoted :: "string \<Rightarrow> string" where
  "quoted text = [CHR 0x22] @ text @ [CHR 0x22]"

definition apply_auth :: "AuthSection \<Rightarrow> ConfigError + AuthConfig option" where
  "apply_auth s =
     (let mode = (case asec_mode s of None \<Rightarrow> ''none'' | Some m \<Rightarrow> trim m)
      in if eq_ignore_ascii_case mode ''none''
         then (if asec_token_file s \<noteq> None then Inl (BadSetting (''[auth] token_file is set but mode is '' @ quoted ''none'' @ ''; remove one of them'')) else Inr None)
         else if eq_ignore_ascii_case mode ''token''
         then (case asec_token_file s of
                 None \<Rightarrow> Inl (BadSetting (''[auth] mode = '' @ quoted ''token'' @ '' requires `token_file` (one bearer token per line)''))
               | Some f \<Rightarrow> Inr (Some \<lparr>token_file = f\<rparr>))
         else Inl (BadSetting (''unknown [auth] mode `'' @ mode @ ''` (expected none|token)'')))"

definition parse_optional_address :: "string \<Rightarrow> string \<Rightarrow> ConfigError + string option" where
  "parse_optional_address raw key =
     (let trimmed = trim raw
      in if trimmed = [] \<or> is_any_of [''off'', ''none'', ''disabled''] trimmed then Inr None
         else case parse_socket_addr (expand_bind_address trimmed) of
                Some _ \<Rightarrow> Inr (Some trimmed)
              | None \<Rightarrow> Inl (InvalidAddress key raw))"

record FileConfig =
  fc_listen_address :: "string option"
  fc_sqlite_path :: "string option"
  fc_ingest_queue_capacity :: "usize option"
  fc_command_queue_capacity :: "usize option"
  fc_batcher_max_batch_records :: "usize option"
  fc_batcher_max_batch_age :: "RawDuration option"
  fc_grpc_max_recv_msg_size :: "usize option"
  fc_grpc_max_concurrent_streams :: "u32 option"
  fc_mapping_concurrency :: "usize option"
  fc_max_records_per_request :: "usize option"
  fc_max_attributes_per_record :: "usize option"
  fc_max_attribute_key_bytes :: "usize option"
  fc_max_attribute_value_bytes :: "usize option"
  fc_max_body_bytes :: "usize option"
  fc_max_scope_metadata_expansion_bytes :: "usize option"
  fc_max_db_bytes :: "u64 option"
  fc_shutdown_timeout :: "RawDuration option"
  fc_maintenance :: "MaintenanceSection option"
  fc_watchdog :: "WatchdogSection option"
  fc_durability :: "DurabilitySection option"
  fc_metrics_address :: "string option"
  fc_allow_remote_metrics :: "bool option"
  fc_allow_insecure_remote :: "bool option"
  fc_tls :: "TlsSection option"
  fc_auth :: "AuthSection option"

text \<open>The plain keys, in the order of \<open>FileConfig::apply_to\<close>, up to the first duration and
  between the two.\<close>

definition apply_plain :: "FileConfig \<Rightarrow> Config \<Rightarrow> Config" where
  "apply_plain f c =
     c\<lparr>cf_listen_address := or_keep (fc_listen_address f) (cf_listen_address c),
       cf_sqlite_path := or_keep (fc_sqlite_path f) (cf_sqlite_path c),
       cf_ingest_queue_capacity := or_keep (fc_ingest_queue_capacity f) (cf_ingest_queue_capacity c),
       cf_command_queue_capacity := or_keep (fc_command_queue_capacity f) (cf_command_queue_capacity c),
       cf_batcher_max_batch_records := or_keep (fc_batcher_max_batch_records f) (cf_batcher_max_batch_records c)\<rparr>"

definition apply_limits :: "FileConfig \<Rightarrow> Config \<Rightarrow> Config" where
  "apply_limits f c =
     c\<lparr>cf_grpc_max_recv_msg_size := or_keep (fc_grpc_max_recv_msg_size f) (cf_grpc_max_recv_msg_size c),
       cf_grpc_max_concurrent_streams := or_keep (fc_grpc_max_concurrent_streams f) (cf_grpc_max_concurrent_streams c),
       cf_mapping_concurrency := or_keep (fc_mapping_concurrency f) (cf_mapping_concurrency c),
       cf_max_records_per_request := or_keep (fc_max_records_per_request f) (cf_max_records_per_request c),
       cf_max_attributes_per_record := or_keep (fc_max_attributes_per_record f) (cf_max_attributes_per_record c),
       cf_max_attribute_key_bytes := or_keep (fc_max_attribute_key_bytes f) (cf_max_attribute_key_bytes c),
       cf_max_attribute_value_bytes := or_keep (fc_max_attribute_value_bytes f) (cf_max_attribute_value_bytes c),
       cf_max_body_bytes := or_keep (fc_max_body_bytes f) (cf_max_body_bytes c),
       cf_max_scope_metadata_expansion_bytes :=
         or_keep (fc_max_scope_metadata_expansion_bytes f) (cf_max_scope_metadata_expansion_bytes c),
       cf_max_db_bytes := (case fc_max_db_bytes f of Some v \<Rightarrow> Some v | None \<Rightarrow> cf_max_db_bytes c)\<rparr>"

definition apply_sections :: "FileConfig \<Rightarrow> Config \<Rightarrow> ConfigError + Config" where
  "apply_sections f c =
     try_bind (case fc_maintenance f of
         None \<Rightarrow> Inr c
       | Some s \<Rightarrow> try_bind (apply_maintenance s (cf_maintenance c)) (\<lambda>m. Inr (c\<lparr>cf_maintenance := m\<rparr>))) (\<lambda>c1.
     try_bind (case fc_watchdog f of
         None \<Rightarrow> Inr c1
       | Some s \<Rightarrow> try_bind (apply_watchdog s (cf_watchdog c1)) (\<lambda>w. Inr (c1\<lparr>cf_watchdog := w\<rparr>))) (\<lambda>c2.
     try_bind (case fc_durability f of None \<Rightarrow> Inr c2 | Some s \<Rightarrow> apply_durability s c2) (\<lambda>c3.
     try_bind (case fc_metrics_address f of
         None \<Rightarrow> Inr c3
       | Some v \<Rightarrow> try_bind (parse_optional_address v ''metrics_address'') (\<lambda>a. Inr (c3\<lparr>cf_metrics_address := a\<rparr>))) (\<lambda>c4.
     let c5 = c4\<lparr>cf_allow_remote_metrics := or_keep (fc_allow_remote_metrics f) (cf_allow_remote_metrics c4),
                 cf_allow_insecure_remote := or_keep (fc_allow_insecure_remote f) (cf_allow_insecure_remote c4)\<rparr>
     in try_bind (case fc_tls f of
            None \<Rightarrow> Inr c5
          | Some s \<Rightarrow> try_bind (apply_tls s) (\<lambda>t. Inr (c5\<lparr>cf_tls := Some t\<rparr>))) (\<lambda>c6.
        case fc_auth f of
          None \<Rightarrow> Inr c6
        | Some s \<Rightarrow> try_bind (apply_auth s) (\<lambda>a. Inr (c6\<lparr>cf_auth := a\<rparr>)))))))"

definition apply_to :: "FileConfig \<Rightarrow> Config \<Rightarrow> ConfigError + Config" where
  "apply_to f config =
     (let c1 = apply_plain f config
      in try_bind (required (cf_batcher_max_batch_age c1) (fc_batcher_max_batch_age f) ''batcher_max_batch_age'') (\<lambda>age.
         let c2 = apply_limits f (c1\<lparr>cf_batcher_max_batch_age := age\<rparr>)
         in try_bind (required (cf_shutdown_timeout c2) (fc_shutdown_timeout f) ''shutdown_timeout'') (\<lambda>shutdown.
            apply_sections f (c2\<lparr>cf_shutdown_timeout := shutdown\<rparr>))))"

section \<open>Validation\<close>

text \<open>What the file system says of a path.\<close>

datatype file_status = NoMetadata | NotAFile | CannotOpen | ReadableFile

definition validate_range :: "string \<Rightarrow> nat \<Rightarrow> nat \<Rightarrow> nat \<Rightarrow> ConfigError + unit" where
  "validate_range key v minimum maximum =
     (if v < minimum \<or> v > maximum then Inl (OutOfRange key minimum maximum v) else Inr ())"

definition validate_duration :: "string \<Rightarrow> duration \<Rightarrow> ConfigError + unit" where
  "validate_duration key v = (if v = 0 \<or> v > MAX_TIMEOUT then Inl (BadDuration key MAX_TIMEOUT v) else Inr ())"

definition validate_optional_duration :: "string \<Rightarrow> duration option \<Rightarrow> duration \<Rightarrow> ConfigError + unit" where
  "validate_optional_duration key v maximum =
     (case v of
        Some d \<Rightarrow> if d = 0 \<or> d > maximum then Inl (BadDuration key maximum d) else Inr ()
      | None \<Rightarrow> Inr ())"

text \<open>Checks in sequence, the first failure ends it.\<close>

fun checks :: "('e + unit) list \<Rightarrow> 'e + unit" where
  "checks [] = Inr ()"
| "checks (c # cs) = try_bind c (\<lambda>_. checks cs)"

definition is_loopback_listen :: "string \<Rightarrow> bool" where
  "is_loopback_listen address =
     (case parse_socket_addr (expand_bind_address address) of Some addr \<Rightarrow> is_loopback (sa_ip addr) | None \<Rightarrow> False)"

definition validate_listen :: "Config \<Rightarrow> ConfigError + unit" where
  "validate_listen c =
     (case parse_socket_addr (expand_bind_address (cf_listen_address c)) of
        None \<Rightarrow> Inl (InvalidAddress ''listen_address'' (cf_listen_address c))
      | Some listen \<Rightarrow>
          if sa_port listen = 0 then Inl (ZeroPort ''listen_address'')
          else if \<not> is_loopback_listen (cf_listen_address c) \<and> cf_tls c = None \<and> \<not> cf_allow_insecure_remote c
          then Inl (CleartextRemote (cf_listen_address c))
          else Inr ())"

definition validate_queues_and_grpc :: "Config \<Rightarrow> ConfigError + unit" where
  "validate_queues_and_grpc c =
     checks
       [validate_range ''ingest_queue_capacity'' (cf_ingest_queue_capacity c) 1 MAX_INGEST_QUEUE_CAPACITY,
        validate_range ''command_queue_capacity'' (cf_command_queue_capacity c) 1 MAX_INGEST_QUEUE_CAPACITY,
        validate_range ''batcher_max_batch_records'' (cf_batcher_max_batch_records c) 1 MAX_BATCH_RECORDS,
        validate_range ''grpc_max_recv_msg_size'' (cf_grpc_max_recv_msg_size c) 1024 MAX_GRPC_RECV_MSG_SIZE,
        validate_range ''grpc_max_concurrent_streams'' (cf_grpc_max_concurrent_streams c) 1 MAX_GRPC_CONCURRENT_STREAMS,
        validate_range ''mapping_concurrency'' (cf_mapping_concurrency c) 1 MAX_MAPPING_CONCURRENCY,
        validate_duration ''batcher_max_batch_age'' (cf_batcher_max_batch_age c),
        validate_duration ''shutdown_timeout'' (cf_shutdown_timeout c)]"

definition validate_mapping_limits :: "Config \<Rightarrow> ConfigError + unit" where
  "validate_mapping_limits c =
     checks
       [validate_range ''max_records_per_request'' (cf_max_records_per_request c) 1 MAX_RECORDS_PER_REQUEST,
        validate_range ''max_attributes_per_record'' (cf_max_attributes_per_record c) 1 MAX_ATTRIBUTES_PER_RECORD,
        validate_range ''max_attribute_key_bytes'' (cf_max_attribute_key_bytes c) 1 MAX_ATTRIBUTE_KEY_BYTES,
        validate_range ''max_attribute_value_bytes'' (cf_max_attribute_value_bytes c) 1 MAX_ATTRIBUTE_VALUE_BYTES,
        validate_range ''max_body_bytes'' (cf_max_body_bytes c) 1 MAX_BODY_BYTES,
        validate_range ''max_scope_metadata_expansion_bytes'' (cf_max_scope_metadata_expansion_bytes c) 1024
          MAX_SCOPE_METADATA_EXPANSION_BYTES]"

definition validate_quota :: "Config \<Rightarrow> ConfigError + unit" where
  "validate_quota c =
     (case cf_max_db_bytes c of
        Some quota \<Rightarrow> if quota < MIN_DB_QUOTA_BYTES then Inl (QuotaTooSmall quota) else Inr ()
      | None \<Rightarrow> Inr ())"

definition validate_maintenance :: "Config \<Rightarrow> ConfigError + unit" where
  "validate_maintenance c =
     (let m = cf_maintenance c
      in checks
        [validate_duration ''maintenance.retry_delay'' (mc_retry_delay m),
         validate_optional_duration ''maintenance.retention'' (mc_retention m) MAX_RETENTION,
         validate_optional_duration ''maintenance.purge_interval'' (mc_purge_interval m) MAX_TIMEOUT,
         validate_optional_duration ''maintenance.checkpoint_interval'' (mc_checkpoint_interval m) MAX_TIMEOUT,
         validate_optional_duration ''maintenance.optimize_interval'' (mc_optimize_interval m) MAX_RETENTION,
         validate_optional_duration ''maintenance.vacuum_interval'' (mc_vacuum_interval m) MAX_RETENTION,
         validate_optional_duration ''maintenance.rebuild_fts_interval'' (mc_rebuild_fts_interval m) MAX_RETENTION])"

text \<open>\<open>(0.0..=1.0).contains\<close> and \<open>== 0.0\<close> on a finite number; both hold of minus zero.\<close>

definition f32_is_zero :: "f32 \<Rightarrow> bool" where
  "f32_is_zero x \<longleftrightarrow> fst (f32_magnitude x) = 0"

definition f32_in_unit :: "f32 \<Rightarrow> bool" where
  "f32_in_unit x \<longleftrightarrow> (\<not> f32_negative x \<or> f32_is_zero x) \<and> \<not> f32_gt_one x"

definition validate_watchdog :: "Config \<Rightarrow> ConfigError + unit" where
  "validate_watchdog c =
     (let w = cf_watchdog c; ratio = wc_queue_pressure_ratio w
      in checks
        [validate_duration ''watchdog.tick_interval'' (wc_tick_interval w),
         validate_duration ''watchdog.degraded_after'' (wc_degraded_after w),
         validate_duration ''watchdog.unhealthy_after'' (wc_unhealthy_after w),
         validate_duration ''watchdog.ack_stall_after'' (wc_ack_stall_after w),
         validate_duration ''watchdog.maintenance_stall_after'' (wc_maintenance_stall_after w),
         if wc_maintenance_stall_after w < wc_unhealthy_after w then Inl MaintenanceStallTooShort else Inr (),
         if wc_degraded_after w \<ge> wc_unhealthy_after w then Inl DegradedTooLong else Inr (),
         if cf_batcher_max_batch_age c \<ge> wc_degraded_after w
         then Inl (BatchAgeTooLong (cf_batcher_max_batch_age c) (wc_degraded_after w)) else Inr (),
         if \<not> f32_is_finite ratio \<or> \<not> f32_in_unit ratio \<or> f32_is_zero ratio then Inl (BadPressureRatio ratio) else Inr ()])"

definition validate_endpoints :: "Config \<Rightarrow> ConfigError + unit" where
  "validate_endpoints c =
     (case cf_metrics_address c of
        None \<Rightarrow> Inr ()
      | Some address \<Rightarrow>
          (case parse_socket_addr (expand_bind_address address) of
             None \<Rightarrow> Inl (InvalidAddress ''metrics_address'' address)
           | Some addr \<Rightarrow>
               if sa_port addr = 0 then Inl (ZeroPort ''metrics_address'')
               else if \<not> is_loopback (sa_ip addr) \<and> \<not> cf_allow_remote_metrics c then Inl (RemoteMetrics address)
               else Inr ()))"

definition readable_file :: "(string \<Rightarrow> file_status) \<Rightarrow> string \<Rightarrow> string \<Rightarrow> ConfigError + unit" where
  "readable_file fs key path =
     (case fs path of
        NoMetadata \<Rightarrow> Inl (NotReadable key path)
      | NotAFile \<Rightarrow> Inl (NotRegularFile key path)
      | CannotOpen \<Rightarrow> Inl (NotReadable key path)
      | ReadableFile \<Rightarrow> Inr ())"

definition validate_security :: "(string \<Rightarrow> file_status) \<Rightarrow> Config \<Rightarrow> ConfigError + unit" where
  "validate_security fs c =
     checks
       [case cf_tls c of
          None \<Rightarrow> Inr ()
        | Some tls \<Rightarrow>
            checks [readable_file fs ''tls.cert'' (tls_cert tls), readable_file fs ''tls.key'' (tls_key tls),
                    case tls_client_ca tls of None \<Rightarrow> Inr () | Some ca \<Rightarrow> readable_file fs ''tls.client_ca'' ca],
        case cf_auth c of None \<Rightarrow> Inr () | Some auth \<Rightarrow> readable_file fs ''auth.token_file'' (token_file auth)]"

definition validate_config :: "(string \<Rightarrow> file_status) \<Rightarrow> Config \<Rightarrow> ConfigError + unit" where
  "validate_config fs c =
     checks [validate_listen c, validate_queues_and_grpc c, validate_mapping_limits c, validate_quota c,
             validate_maintenance c, validate_watchdog c, validate_endpoints c, validate_security fs c]"

section \<open>Loading\<close>

definition CONFIG_PATH_ENV_VAR :: string where
  "CONFIG_PATH_ENV_VAR = ''OTEL_SQLITE_CFG_PATH''"

definition CONFIG_PATH_ENV_VAR_LOWER :: string where
  "CONFIG_PATH_ENV_VAR_LOWER = ''otel-sqlite-cfg-path''"

definition env_config_path :: "(string \<Rightarrow> string option) \<Rightarrow> string option" where
  "env_config_path env =
     (case env CONFIG_PATH_ENV_VAR of
        Some (c # cs) \<Rightarrow> Some (c # cs)
      | _ \<Rightarrow> (case env CONFIG_PATH_ENV_VAR_LOWER of Some (c # cs) \<Rightarrow> Some (c # cs) | _ \<Rightarrow> None))"

text \<open>The world a configuration is loaded from: file contents, the TOML parser and file states.\<close>

record config_world =
  cw_env :: "string \<Rightarrow> string option"
  cw_read :: "string \<Rightarrow> string option"
  cw_toml :: "string \<Rightarrow> string + FileConfig"
  cw_files :: "string \<Rightarrow> file_status"

definition from_file :: "config_world \<Rightarrow> string \<Rightarrow> ConfigError + Config" where
  "from_file w path =
     (case cw_read w path of
        None \<Rightarrow> Inl (ConfigUnreadable path)
      | Some text \<Rightarrow>
          (case cw_toml w text of
             Inl e \<Rightarrow> Inl (ConfigUnparsable path e)
           | Inr overlay \<Rightarrow>
               (case apply_to overlay default_config of
                  Inl e \<Rightarrow> Inl (InvalidSettings path e)
                | Inr config \<Rightarrow> try_bind (validate_config (cw_files w) config) (\<lambda>_. Inr config))))"

definition from_env :: "config_world \<Rightarrow> ConfigError + Config" where
  "from_env w =
     (case env_config_path (cw_env w) of
        Some path \<Rightarrow> from_file w path
      | None \<Rightarrow> try_bind (validate_config (cw_files w) default_config) (\<lambda>_. Inr default_config))"

definition ingress_config :: "Config \<Rightarrow> IngressConfig" where
  "ingress_config c =
     \<lparr>listen_address = cf_listen_address c, max_recv_msg_size = cf_grpc_max_recv_msg_size c,
      max_concurrent_streams = cf_grpc_max_concurrent_streams c, mapping_concurrency = cf_mapping_concurrency c,
      shutdown_timeout = cf_shutdown_timeout c, max_records_per_request = cf_max_records_per_request c,
      max_attributes_per_record = cf_max_attributes_per_record c, max_attribute_key_bytes = cf_max_attribute_key_bytes c,
      max_attribute_value_bytes = cf_max_attribute_value_bytes c, max_body_bytes = cf_max_body_bytes c,
      max_scope_metadata_expansion_bytes = cf_max_scope_metadata_expansion_bytes c,
      durability_mode = cf_durability_mode c, ingress_tls = cf_tls c, ingress_auth = cf_auth c\<rparr>"

definition storage_config :: "Config \<Rightarrow> StorageConfig" where
  "storage_config c =
     \<lparr>sc_sqlite_path = cf_sqlite_path c,
      sc_insert_batcher = \<lparr>max_batch_records = cf_batcher_max_batch_records c, max_batch_age = cf_batcher_max_batch_age c\<rparr>,
      sc_command_queue_capacity = cf_command_queue_capacity c, sc_max_db_bytes = cf_max_db_bytes c,
      sc_synchronous = cf_sqlite_synchronous c, sc_startup_timeout = DEFAULT_STARTUP_TIMEOUT,
      sc_shutdown_timeout = cf_shutdown_timeout c\<rparr>"

definition metrics_display_url :: "string \<Rightarrow> string" where
  "metrics_display_url address =
     (case parse_socket_addr (expand_bind_address address) of
        Some addr \<Rightarrow>
          if is_unspecified (sa_ip addr)
          then (case sa_ip addr of
                  V4 _ \<Rightarrow> ''http://127.0.0.1:'' @ show_nat (sa_port addr) @ ''/metrics''
                | V6 _ \<Rightarrow> ''http://[::1]:'' @ show_nat (sa_port addr) @ ''/metrics'')
          else ''http://'' @ address @ ''/metrics''
      | None \<Rightarrow> ''http://'' @ address @ ''/metrics'')"

section \<open>What validation ensures\<close>

lemma checks_Inr [simp]: "checks cs = Inr () \<longleftrightarrow> list_all (\<lambda>c. c = Inr ()) cs"
  by (induction cs) (auto simp: try_bind_def split: sum.splits)

lemma validate_range_Inr [simp]: "validate_range key v lo hi = Inr () \<longleftrightarrow> lo \<le> v \<and> v \<le> hi"
  by (auto simp: validate_range_def)

lemma validate_duration_Inr [simp]: "validate_duration key v = Inr () \<longleftrightarrow> 0 < v \<and> v \<le> MAX_TIMEOUT"
  by (auto simp: validate_duration_def)

lemma validate_optional_duration_Inr [simp]:
  "validate_optional_duration key v hi = Inr () \<longleftrightarrow> (\<forall>d. v = Some d \<longrightarrow> 0 < d \<and> d \<le> hi)"
  by (auto simp: validate_optional_duration_def split: option.splits)

lemma validate_listen_Inr:
  "validate_listen c = Inr () \<longleftrightarrow>
     (\<exists>addr. parse_socket_addr (expand_bind_address (cf_listen_address c)) = Some addr \<and> sa_port addr \<noteq> 0 \<and>
        (is_loopback (sa_ip addr) \<or> cf_tls c \<noteq> None \<or> cf_allow_insecure_remote c))"
  by (auto simp: validate_listen_def is_loopback_listen_def split: option.splits)

lemma validate_watchdog_Inr:
  "validate_watchdog c = Inr () \<Longrightarrow>
     0 < wc_tick_interval (cf_watchdog c) \<and> validate (cf_watchdog c) = Inr () \<and>
     cf_batcher_max_batch_age c < wc_degraded_after (cf_watchdog c)"
  unfolding validate_watchdog_def validate_Inr
  by (auto simp: Let_def f32_in_unit_def f32_le_zero_def f32_is_zero_def split: if_splits)

lemma from_env_validated: "from_env w = Inr c \<Longrightarrow> validate_config (cw_files w) c = Inr ()"
  by (auto simp: from_env_def from_file_def try_bind_def split: option.splits sum.splits)

lemma validate_config_Inr:
  assumes "validate_config fs c = Inr ()"
  shows "validate_listen c = Inr ()" "validate_queues_and_grpc c = Inr ()" "validate_mapping_limits c = Inr ()"
    "validate_quota c = Inr ()" "validate_maintenance c = Inr ()" "validate_watchdog c = Inr ()"
    "validate_endpoints c = Inr ()" "validate_security fs c = Inr ()"
  using assms by (simp_all add: validate_config_def)

lemma validate_endpoints_Inr:
  "validate_endpoints c = Inr () \<Longrightarrow> cf_metrics_address c = Some m \<Longrightarrow>
     \<exists>addr. parse_socket_addr (expand_bind_address m) = Some addr \<and> sa_port addr \<noteq> 0 \<and>
       (is_loopback (sa_ip addr) \<or> cf_allow_remote_metrics c)"
  by (auto simp: validate_endpoints_def split: option.splits if_splits)

lemma default_watchdog_ratio:
  "f32_is_finite 0x3F400000" "f32_in_unit 0x3F400000" "\<not> f32_is_zero 0x3F400000"
  by (simp_all add: f32_is_finite_def f32_in_unit_def f32_is_zero_def f32_gt_one_def f32_negative_def f32_magnitude_def
      f32_exponent_def f32_fraction_def F32_ONE_def bit_iff_odd drop_bit_eq_div)

lemma default_config_valid: "validate_config fs default_config = Inr ()"
  by (simp add: validate_config_def validate_listen_Inr validate_queues_and_grpc_def validate_mapping_limits_def
      validate_quota_def validate_maintenance_def validate_watchdog_def validate_endpoints_def validate_security_def
      default_config_def default_batcher_config_def default_maintenance_config_def default_watchdog_config_def
      expand_bind_address_def parse_socket_addr_samples default_watchdog_ratio
      MAX_INGEST_QUEUE_CAPACITY_def DEFAULT_INGEST_QUEUE_CAPACITY_def DEFAULT_COMMAND_QUEUE_CAPACITY_def MAX_BATCH_RECORDS_def
      MAX_GRPC_RECV_MSG_SIZE_def MAX_GRPC_CONCURRENT_STREAMS_def MAX_MAPPING_CONCURRENCY_def MAX_TIMEOUT_def MAX_RETENTION_def
      MAX_RECORDS_PER_REQUEST_def MAX_ATTRIBUTES_PER_RECORD_def MAX_ATTRIBUTE_KEY_BYTES_def MAX_ATTRIBUTE_VALUE_BYTES_def
      MAX_BODY_BYTES_def MAX_SCOPE_METADATA_EXPANSION_BYTES_def)

section \<open>Properties\<close>

text \<open>C11: no accidental cleartext exposure.  Whatever the environment, the file system and the
  configuration file contain, a configuration that loads makes ingress listen on a real port of
  a parsed address, and that address is loopback unless TLS is configured or the operator opted
  in; the metrics endpoint, if there is one, is loopback unless the operator opted in.\<close>
theorem no_cleartext_exposure:
  assumes "from_env w = Inr c"
  shows "(\<exists>addr. parse_socket_addr (expand_bind_address (listen_address (ingress_config c))) = Some addr \<and>
            0 < sa_port addr \<and> sa_port addr \<le> 65535 \<and>
            (is_loopback (sa_ip addr) \<or> ingress_tls (ingress_config c) \<noteq> None \<or> cf_allow_insecure_remote c)) \<and>
         (\<forall>m. cf_metrics_address c = Some m \<longrightarrow>
            (\<exists>addr. parse_socket_addr (expand_bind_address m) = Some addr \<and> 0 < sa_port addr \<and>
              (is_loopback (sa_ip addr) \<or> cf_allow_remote_metrics c)))"
proof -
  note ok = validate_config_Inr[OF from_env_validated[OF assms]]
  from ok(1) show ?thesis
    using validate_endpoints_Inr[OF ok(7)] parse_socket_addr_port by (fastforce simp: validate_listen_Inr ingress_config_def)
qed

lemma accepted_config_starts:
  assumes "from_env w = Inr c"
  shows "new_batcher (sc_insert_batcher (storage_config c)) \<noteq> (None :: 'a InsertBatcher option) \<and>
    new_watchdog (cf_watchdog c) =
      Inr ((cf_watchdog c)\<lparr>wc_tick_interval := max (wc_tick_interval (cf_watchdog c)) MIN_TICK_INTERVAL\<rparr>) \<and>
    0 < cf_ingest_queue_capacity c \<and> 0 < sc_command_queue_capacity (storage_config c) \<and>
    (\<forall>q. sc_max_db_bytes (storage_config c) = Some q \<longrightarrow> MIN_DB_QUOTA_BYTES \<le> q)"
proof -
  note ok = validate_config_Inr[OF from_env_validated[OF assms]]
  have "cf_batcher_max_batch_records c \<noteq> 0" "0 < cf_ingest_queue_capacity c" "0 < cf_command_queue_capacity c"
    using ok(2) by (auto simp: validate_queues_and_grpc_def)
  then show ?thesis
    using validate_watchdog_Inr[OF ok(6)] ok(4)
    by (auto simp: new_batcher_def storage_config_def new_watchdog_def normalized_tick_interval_def try_bind_def validate_quota_def
        split: option.splits if_splits)
qed

lemma buffering_is_not_a_stall:
  assumes "from_env w = Inr c" "writer_running s" "batcher_running s" "\<not> maintenance_in_progress s"
    and "from_millis (watermark_idle_ms s) < wc_ack_stall_after (cf_watchdog c)"
    and "from_millis (writer_idle_ms s) \<le> cf_batcher_max_batch_age c"
    and "from_millis (batcher_idle_ms s) \<le> cf_batcher_max_batch_age c"
  shows "ev_state (evaluate s (cf_watchdog c)) =
    (if pending_work s \<noteq> 0 \<and> queue_depth s \<ge> queue_pressure_threshold (queue_capacity s) (wc_queue_pressure_ratio (cf_watchdog c))
     then Degraded else Healthy)"
proof -
  note ok = validate_config_Inr[OF from_env_validated[OF assms(1)]]
  have "cf_batcher_max_batch_age c < wc_degraded_after (cf_watchdog c)" "wc_degraded_after (cf_watchdog c) < wc_unhealthy_after (cf_watchdog c)"
    using validate_watchdog_Inr[OF ok(6)] by (auto simp: validate_Inr)
  then have "from_millis (writer_idle_ms s) < wc_degraded_after (cf_watchdog c)" "from_millis (batcher_idle_ms s) < wc_degraded_after (cf_watchdog c)"
    "from_millis (writer_idle_ms s) < wc_unhealthy_after (cf_watchdog c)" "from_millis (batcher_idle_ms s) < wc_unhealthy_after (cf_watchdog c)"
    using assms(6,7) by linarith+
  then show ?thesis using assms(2-5) by (simp add: evaluate_def Let_def verdict_of_def not_le)
qed

section \<open>Witnesses\<close>

definition bare_world :: config_world where
  "bare_world = \<lparr>cw_env = (\<lambda>_. None), cw_read = (\<lambda>_. None), cw_toml = (\<lambda>_. Inl []), cw_files = (\<lambda>_. NoMetadata)\<rparr>"

definition idle_sample :: PipelineSample where
  "idle_sample =
     \<lparr>writer_running = True, batcher_running = True, writer_idle_ms = 10, batcher_idle_ms = 3, queue_depth = 0,
      queue_capacity = 50000, pending_records = 7, outstanding_tickets_count = 1, watermark_idle_ms = 10,
      maintenance_in_progress = False, maintenance_elapsed_ms = 0\<rparr>"

lemma bare_world_default: "from_env bare_world = Inr default_config"
  by (simp add: from_env_def bare_world_def env_config_path_def default_config_valid try_bind_def)

theorem no_cleartext_exposure_witness:
  "from_env bare_world = Inr default_config \<and>
   (\<exists>addr. parse_socket_addr (expand_bind_address (listen_address (ingress_config default_config))) = Some addr \<and> is_loopback (sa_ip addr))"
  using no_cleartext_exposure[OF bare_world_default] bare_world_default by (auto simp: ingress_config_def default_config_def)

end
