(* ===== verification/Backup_Names.thy ===== *)
theory Backup_Names
  imports Rust_Bytes "HOL-Library.Char_ord" "HOL-Library.List_Lexorder" "HOL-Library.Sublist"
begin

text \<open>
  The names of backup artifacts (\<open>backup.rs\<close>): the UTC time stamp in them, which file names count as
  a completed backup, and the choice of a name that no file has.  The time stamp is compared
  with a calendar that counts days one by one.  Paths are byte strings, as \<open>OsStr\<close> is on Unix.
\<close>

type_synonym path = string

text \<open>\<open>Path::join\<close>.\<close>

definition path_join :: "path \<Rightarrow> path \<Rightarrow> path" where
  "path_join dir p =
     (if prefix ''/'' p then p
      else if dir = [] \<or> last dir = CHR ''/'' then dir @ p
      else dir @ ''/'' @ p)"

section \<open>Time stamps\<close>

text \<open>Zero padding of a number to a minimal width, as in \<open>{:04}\<close>.\<close>

definition pad0 :: "nat \<Rightarrow> i64 \<Rightarrow> string" where
  "pad0 w n = (let s = show_int n in replicate (w - length s) CHR ''0'' @ s)"

text \<open>The days since 1970-01-01 are never negative (the argument is unsigned), so that truncating
  and flooring division agree on every quotient below.\<close>

definition civil_from_days :: "i64 \<Rightarrow> i64 \<times> i64 \<times> i64" where
  "civil_from_days days =
     (let z = days + 719468;
          era = (if 0 \<le> z then z else z - 146096) div 146097;
          doe = z - era * 146097;
          yoe = (doe - doe div 1460 + doe div 36524 - doe div 146096) div 365;
          year = yoe + era * 400;
          day_of_year = doe - (365 * yoe + yoe div 4 - yoe div 100);
          mp = (5 * day_of_year + 2) div 153;
          day = day_of_year - (153 * mp + 2) div 5 + 1;
          month = (if mp < 10 then mp + 3 else mp - 9);
          year = (if month \<le> 2 then year + 1 else year)
      in (year, month, day))"

definition utc_timestamp :: "u64 \<Rightarrow> string" where
  "utc_timestamp epoch_secs =
     (let days = int (epoch_secs div 86400);
          seconds_in_day = int (epoch_secs mod 86400);
          (year, month, day) = civil_from_days days;
          hour = seconds_in_day div 3600;
          minute = (seconds_in_day mod 3600) div 60;
          second = seconds_in_day mod 60
      in pad0 4 year @ pad0 2 month @ pad0 2 day @ ''T'' @ pad0 2 hour @ pad0 2 minute @ pad0 2 second @ ''Z'')"

section \<open>Artifact names\<close>

definition OTEL_DB_PREFIX :: string where
  "OTEL_DB_PREFIX = ''otel-logs.db.''"

definition TEMP_ARTIFACT_SUFFIXES :: "string list" where
  "TEMP_ARTIFACT_SUFFIXES = [''.decrypting'', ''.tmp'', ''.part'', ''.partial'']"

definition is_backup_artifact :: "string \<Rightarrow> bool" where
  "is_backup_artifact name =
     (prefix OTEL_DB_PREFIX name \<and>
      (let suf = drop (length OTEL_DB_PREFIX) name in
         suf \<noteq> [] \<and> \<not> prefix ''.'' suf \<and> \<not> list_ex (\<lambda>temp. suffix temp name) TEMP_ARTIFACT_SUFFIXES))"

definition backup_extension :: "bool \<Rightarrow> string" where
  "backup_extension encrypted = (if encrypted then ''otsb'' else ''bak'')"

definition backup_filename :: "u64 \<Rightarrow> bool \<Rightarrow> string" where
  "backup_filename epoch_secs encrypted =
     OTEL_DB_PREFIX @ utc_timestamp epoch_secs @ ''.'' @ backup_extension encrypted"

text \<open>The counter of the search is a \<open>u64\<close>; running past it panics, which is \<open>None\<close>.\<close>

partial_function (option) free_candidate :: "(path \<Rightarrow> bool) \<Rightarrow> (u64 \<Rightarrow> path) \<Rightarrow> u64 \<Rightarrow> path option" where
  "free_candidate ex candidate counter =
     (if counter > U64_MAX then None
      else if \<not> ex (candidate counter) then Some (candidate counter)
      else free_candidate ex candidate (counter + 1))"

definition strip_suffix :: "string \<Rightarrow> string \<Rightarrow> string option" where
  "strip_suffix suf s = (if suffix suf s then Some (take (length s - length suf) s) else None)"

definition unique_backup_path :: "(path \<Rightarrow> bool) \<Rightarrow> path \<Rightarrow> u64 \<Rightarrow> bool \<Rightarrow> path option" where
  "unique_backup_path ex dir epoch_secs encrypted =
     (let base = backup_filename epoch_secs encrypted;
          candidate = path_join dir base
      in if \<not> ex candidate then Some candidate
         else (let extension = backup_extension encrypted in
               case strip_suffix (''.'' @ extension) base of
                 None \<Rightarrow> None
               | Some pre \<Rightarrow> free_candidate ex (\<lambda>counter. path_join dir (pre @ ''-'' @ show_nat counter @ ''.'' @ extension)) 1))"

section \<open>The calendar\<close>

definition is_leap :: "int \<Rightarrow> bool" where
  "is_leap y \<longleftrightarrow> y mod 4 = 0 \<and> (y mod 100 \<noteq> 0 \<or> y mod 400 = 0)"

definition month_len :: "int \<Rightarrow> int \<Rightarrow> int" where
  "month_len y m = (if m = 2 then (if is_leap y then 29 else 28) else if m \<in> {4, 6, 9, 11} then 30 else 31)"

fun next_day :: "int \<times> int \<times> int \<Rightarrow> int \<times> int \<times> int" where
  "next_day (y, m, d) =
     (if d < month_len y m then (y, m, d + 1) else if m < 12 then (y, m + 1, 1) else (y + 1, 1, 1))"

fun valid_date :: "int \<times> int \<times> int \<Rightarrow> bool" where
  "valid_date (y, m, d) \<longleftrightarrow> 1 \<le> m \<and> m \<le> 12 \<and> 1 \<le> d \<and> d \<le> month_len y m"

text \<open>The number of days from 1 March of the year 0, with years that begin in March.\<close>

fun march_year :: "int \<times> int \<times> int \<Rightarrow> int" where
  "march_year (y, m, d) = (if m \<le> 2 then y - 1 else y)"

fun march_month :: "int \<times> int \<times> int \<Rightarrow> int" where
  "march_month (y, m, d) = (if m \<le> 2 then m + 9 else m - 3)"

definition year_start :: "int \<Rightarrow> int" where
  "year_start y = 365 * y + y div 4 - y div 100 + y div 400"

fun day_number :: "int \<times> int \<times> int \<Rightarrow> int" where
  "day_number (y, m, d) =
     year_start (march_year (y, m, d)) + (153 * march_month (y, m, d) + 2) div 5 + d - 1"


lemma int_div_succ:
  assumes "0 < (k::int)"
  shows "(y + 1) div k = y div k + (if (y + 1) mod k = 0 then 1 else 0)"
proof -
  define q r where "q = y div k" and "r = y mod k"
  have y: "y = k * q + r" "0 \<le> r" "r < k" unfolding q_def r_def using assms by simp_all
  show ?thesis
  proof (cases "r + 1 = k")
    case True
    then have "y + 1 = k * (q + 1)" using y by (simp add: algebra_simps)
    then show ?thesis using assms unfolding q_def [symmetric] by simp
  next
    case False
    then have "(y + 1) div k = q" "(y + 1) mod k = r + 1"
      using y by (auto intro!: int_div_pos_eq [where r = "r + 1"] int_mod_pos_eq [where q = q])
    then show ?thesis using y unfolding q_def [symmetric] by simp
  qed
qed

lemma leap_arith:
  "(c \<longrightarrow> b) \<Longrightarrow> (b \<longrightarrow> a) \<Longrightarrow>
   365 * (y + 1) + (p + (if a then 1 else 0)) - (q + (if b then 1 else 0)) + (r + (if c then 1 else 0)) =
   365 * y + p - q + r + (if a \<and> (\<not> b \<or> c) then 366 else (365::int))"
  by (cases a; cases b; cases c) simp_all

lemma year_start_succ: "year_start (y + 1) = year_start y + (if is_leap (y + 1) then 366 else 365)"
proof -
  have "(y + 1) mod 400 = 0 \<longrightarrow> (y + 1) mod 100 = 0" "(y + 1) mod 100 = 0 \<longrightarrow> (y + 1) mod 4 = 0"
    unfolding mod_eq_0_iff_dvd by (rule impI, rule dvd_trans [rotated], assumption, simp)+
  from leap_arith [OF this, of y "y div 4" "y div 100" "y div 400"] show ?thesis
    unfolding year_start_def is_leap_def by (simp only: int_div_succ zero_less_numeral)
qed

lemma month_cases:
  assumes "1 \<le> m" "m \<le> (12::int)"
  obtains "m = 1" | "m = 2" | "m = 3" | "m = 4" | "m = 5" | "m = 6" | "m = 7" | "m = 8" | "m = 9" | "m = 10" | "m = 11" | "m = 12"
proof -
  have "m = 1 \<or> m = 2 \<or> m = 3 \<or> m = 4 \<or> m = 5 \<or> m = 6 \<or> m = 7 \<or> m = 8 \<or> m = 9 \<or> m = 10 \<or> m = 11 \<or> m = 12"
    using assms by presburger
  then show thesis using that by blast
qed

lemma next_day_valid: "valid_date x \<Longrightarrow> valid_date (next_day x)"
  by (cases x) (auto simp: month_len_def)

lemma day_number_next: "valid_date x \<Longrightarrow> day_number (next_day x) = day_number x + 1"
proof (cases x)
  case (fields y m d)
  assume "valid_date x"
  then have "1 \<le> m" "m \<le> 12" "1 \<le> d" "d \<le> month_len y m" unfolding fields by auto
  then show ?thesis
    unfolding fields using year_start_succ [of "y - 1"]
    by (cases rule: month_cases [of m]) (auto simp: month_len_def split: if_splits)
qed

text \<open>The year of an era and the day in it are read off the day of the era: a day of the era is
  \<open>36524 c + 1461 q + 365 y + t\<close> for the century \<open>c\<close>, the leap cycle \<open>q\<close>, the year \<open>y\<close> of the cycle
  and the day \<open>t\<close> of the year.\<close>

lemma year_of_era_parts:
  fixes c q y t :: int
  assumes "0 \<le> c" "c \<le> 3" "0 \<le> q" "q \<le> 24" "0 \<le> y" "y \<le> 3" "0 \<le> t" "t \<le> 365"
    and leap: "t = 365 \<Longrightarrow> y = 3 \<and> (q < 24 \<or> c = 3)"
    and doe: "doe = 36524 * c + 1461 * q + 365 * y + t"
  shows "0 \<le> doe \<and> doe < 146097 \<and>
    (doe - doe div 1460 + doe div 36524 - doe div 146096) div 365 = 100 * c + 4 * q + y"
proof -
  define e where "e = (if 1460 \<le> 24 * c + q + 365 * y + t then 1 else 0 :: int)"
  have e: "e = 0 \<or> (e = 1 \<and> 1460 \<le> 24 * c + q + 365 * y + t)" unfolding e_def by simp
  have e365: "t = 365 \<Longrightarrow> e = 1" using leap assms(1,3) unfolding e_def by simp
  have cent: "1461 * q + 365 * y + t \<le> 36523 \<or> (c = 3 \<and> 1461 * q + 365 * y + t = 36524)"
    using assms by linarith
  have "doe div 1460 = 25 * c + q + e"
    using assms unfolding doe e_def by (intro int_div_pos_eq [where r = "24 * c + q + 365 * y + t - 1460 * e"]) (auto simp: e_def split: if_splits)
  moreover have "doe div 36524 - doe div 146096 = c"
    using cent
  proof
    assume "1461 * q + 365 * y + t \<le> 36523"
    then have "doe div 36524 = c" "doe div 146096 = 0"
      using assms by (intro int_div_pos_eq [where r = "1461 * q + 365 * y + t"] div_pos_pos_trivial; simp add: doe)+
    then show ?thesis by simp
  next
    assume "c = 3 \<and> 1461 * q + 365 * y + t = 36524"
    then have "doe = 146096" by (simp add: doe)
    then show ?thesis using \<open>c = 3 \<and> _\<close> by simp
  qed
  ultimately have "doe - doe div 1460 + (doe div 36524 - doe div 146096) = 365 * (100 * c + 4 * q + y) + (t - e)"
    by (simp only: doe) (simp add: algebra_simps)
  then have *: "doe - doe div 1460 + doe div 36524 - doe div 146096 = 365 * (100 * c + 4 * q + y) + (t - e)" by simp
  have "0 \<le> t - e" "t - e < 365"
    using assms(1-8) e e365 by (cases "t = 365"; auto)+
  then have "(doe - doe div 1460 + doe div 36524 - doe div 146096) div 365 = 100 * c + 4 * q + y"
    unfolding * by (intro int_div_pos_eq [where r = "t - e"]) auto
  moreover have "0 \<le> doe" "doe < 146097" using assms cent by auto
  ultimately show ?thesis by simp
qed

lemma year_of_era:
  fixes yoe doy :: int
  assumes "0 \<le> yoe" "yoe < 400" "0 \<le> doy" "doy \<le> 365" "doy = 365 \<Longrightarrow> is_leap (yoe + 1)"
    and doe: "doe = 365 * yoe + yoe div 4 - yoe div 100 + doy"
  shows "0 \<le> doe \<and> doe < 146097 \<and> (doe - doe div 1460 + doe div 36524 - doe div 146096) div 365 = yoe"
proof -
  define c q y where "c = yoe div 100" and "q = (yoe mod 100) div 4" and "y = (yoe mod 100) mod 4"
  have y: "yoe = 100 * c + 4 * q + y" unfolding c_def q_def y_def by simp
  have b: "0 \<le> c" "c \<le> 3" "0 \<le> q" "q \<le> 24" "0 \<le> y" "y \<le> 3"
    using assms(1,2) pos_mod_bound [of 100 yoe] pos_mod_sign [of 100 yoe] unfolding c_def q_def y_def by linarith+
  have d4: "yoe div 4 = 25 * c + q"
    using b y by (intro int_div_pos_eq [where r = y]) auto
  have leap: "y = 3 \<and> (q < 24 \<or> c = 3)" if "doy = 365"
  proof -
    have l: "(yoe + 1) mod 4 = 0" "(yoe + 1) mod 100 \<noteq> 0 \<or> (yoe + 1) mod 400 = 0"
      using assms(5) [OF that] by (auto simp: is_leap_def)
    have "yoe + 1 = 4 * (25 * c + q) + (y + 1)" using y by simp
    then have "(yoe + 1) mod 4 = (y + 1) mod 4" by (simp only: mod_mult_self4)
    then have y3: "y = 3" using l(1) b by presburger
    moreover have "c = 3" if "\<not> q < 24"
    proof -
      have "yoe + 1 = 100 * (c + 1)" using that b y y3 by simp
      then have "(yoe + 1) mod 100 = 0" by simp
      then have "yoe + 1 = 400" using l(2) assms(1,2) by (cases "yoe + 1 = 400") auto
      then show ?thesis using \<open>yoe + 1 = 100 * (c + 1)\<close> by simp
    qed
    ultimately show ?thesis by blast
  qed
  have "doe = 36524 * c + 1461 * q + 365 * y + doy"
    unfolding doe d4 using y c_def by linarith
  from year_of_era_parts [OF b assms(3,4) leap this] show ?thesis unfolding y .
qed

lemma month_of_year:
  assumes "0 \<le> mp" "mp \<le> (11::int)" "(153 * mp + 2) div 5 \<le> t" "t < (153 * (mp + 1) + 2) div 5"
  shows "(5 * t + 2) div 153 = mp"
proof -
  define r where "r = 5 * t + 2 - 153 * mp"
  define u v where "u = 153 * mp + 2" and "v = 153 * (mp + 1) + 2"
  have "5 * (u div 5) + u mod 5 = u" "u mod 5 < 5" "5 * (v div 5) + v mod 5 = v" "0 \<le> v mod 5" by simp_all
  moreover have "u div 5 \<le> t" "t < v div 5" using assms(3,4) unfolding u_def v_def .
  ultimately have "u < 5 * t + 5" "5 * t + 5 \<le> v" by linarith+
  then have "0 \<le> r" "r < 153" unfolding r_def u_def v_def by simp_all
  moreover have "5 * t + 2 = 153 * mp + r" unfolding r_def by simp
  ultimately show ?thesis by (intro int_div_pos_eq)
qed


lemma year_start_era: "year_start y = 146097 * (y div 400) + (365 * (y mod 400) + (y mod 400) div 4 - (y mod 400) div 100)"
proof -
  define e r where "e = y div 400" and "r = y mod 400"
  have y: "y = r + 400 * e" unfolding e_def r_def by simp
  have "y div 4 = 100 * e + r div 4" "y div 100 = 4 * e + r div 100"
    using div_mult_self2 [of 4 r "100 * e"] div_mult_self2 [of 100 r "4 * e"] unfolding y by simp_all
  then show ?thesis unfolding year_start_def e_def [symmetric] r_def [symmetric] using y by linarith
qed

lemma is_leap_add: "is_leap (a + 400 * k) \<longleftrightarrow> is_leap a"
  using mod_mult_self2 [of a 4 "100 * k"] mod_mult_self2 [of a 100 "4 * k"] mod_mult_self2 [of a 400 k]
  unfolding is_leap_def by simp

text \<open>The conversion inverts the numbering of days.\<close>

lemma civil_from_day_number:
  assumes "valid_date x" "0 \<le> march_year x"
  shows "civil_from_days (day_number x - 719468) = x"
proof (cases x)
  case (fields y m d)
  define Y mp t where "Y = march_year x" and "mp = march_month x" and "t = (153 * mp + 2) div 5 + d - 1"
  have v: "1 \<le> m" "m \<le> 12" "1 \<le> d" "d \<le> month_len y m" using assms(1) unfolding fields by auto
  have mp: "0 \<le> mp" "mp \<le> 11" using v unfolding mp_def fields by auto
  have leap: "is_leap (Y mod 400 + 1) \<longleftrightarrow> is_leap (Y + 1)"
    using is_leap_add [of "Y mod 400 + 1" "Y div 400"] by (simp add: algebra_simps)
  have t: "(153 * mp + 2) div 5 \<le> t" "t < (153 * (mp + 1) + 2) div 5" "t \<le> 365" "t = 365 \<Longrightarrow> is_leap (Y mod 400 + 1)"
    unfolding leap using v unfolding t_def mp_def Y_def fields
    by (cases rule: month_cases [of m]; auto simp: month_len_def split: if_splits)+
  have t0: "0 \<le> t" using t(1) mp by linarith
  define doe where "doe = 365 * (Y mod 400) + (Y mod 400) div 4 - (Y mod 400) div 100 + t"
  have era: "0 \<le> doe \<and> doe < 146097 \<and> (doe - doe div 1460 + doe div 36524 - doe div 146096) div 365 = Y mod 400"
    by (rule year_of_era [OF _ _ t0 t(3,4) doe_def]) simp_all
  have z: "day_number x = 146097 * (Y div 400) + doe"
    unfolding fields day_number.simps year_start_era doe_def t_def Y_def mp_def by simp
  have "0 \<le> Y div 400" using assms(2) unfolding Y_def by (simp add: pos_imp_zdiv_nonneg_iff)
  then have pos: "0 \<le> day_number x" and d1: "day_number x div 146097 = Y div 400"
    using era z by (auto intro!: int_div_pos_eq)
  have d2: "(5 * t + 2) div 153 = mp" by (rule month_of_year [OF mp t(1,2)])
  have d3: "Y mod 400 + Y div 400 * 400 = Y" by simp
  have d4: "doe - (365 * (Y mod 400) + (Y mod 400) div 4 - (Y mod 400) div 100) = t" unfolding doe_def by simp
  have d5: "day_number x - Y div 400 * 146097 = doe" using z by simp
  have "civil_from_days (day_number x - 719468) =
      (if (if mp < 10 then mp + 3 else mp - 9) \<le> 2 then Y + 1 else Y, if mp < 10 then mp + 3 else mp - 9, t - (153 * mp + 2) div 5 + 1)"
    unfolding civil_from_days_def Let_def diff_add_cancel
    by (simp only: pos if_True d1 d5 conjunct2 [OF conjunct2 [OF era]] d4 d3 d2)
  also have "\<dots> = x" using v unfolding t_def mp_def Y_def fields by auto
  finally show ?thesis .
qed

lemma civil_from_days_eq:
  "valid_date x \<Longrightarrow> 0 \<le> march_year x \<Longrightarrow> day_number x = n + 719468 \<Longrightarrow> civil_from_days n = x"
  using civil_from_day_number [of x] by simp

lemma civil_from_days_0: "civil_from_days 0 = (1970, 1, 1)"
  by (rule civil_from_days_eq) (simp_all add: month_len_def year_start_def)

lemma march_year_next: "0 \<le> march_year x \<Longrightarrow> 0 \<le> march_year (next_day x)"
  by (cases x) (auto split: if_splits)

lemma civil_walk:
  "valid_date (civil_from_days (int n)) \<and> 0 \<le> march_year (civil_from_days (int n)) \<and>
   day_number (civil_from_days (int n)) = int n + 719468 \<and>
   civil_from_days (int (Suc n)) = next_day (civil_from_days (int n))"
proof (induction n)
  case 0
  have "civil_from_days (int (Suc 0)) = (1970, 1, 2)"
    by (rule civil_from_days_eq) (simp_all add: month_len_def year_start_def)
  then show ?case by (simp add: civil_from_days_0 month_len_def year_start_def)
next
  case (Suc n)
  let ?x = "civil_from_days (int (Suc n))"
  have v: "valid_date ?x" "0 \<le> march_year ?x" "day_number ?x = int (Suc n) + 719468"
    using Suc next_day_valid day_number_next march_year_next by auto
  have "civil_from_days (int (Suc (Suc n))) = next_day ?x"
    using v next_day_valid [of ?x] day_number_next [of ?x] march_year_next [of ?x] by (intro civil_from_days_eq) simp_all
  then show ?case using v by blast
qed


section \<open>Names in order of time\<close>

text \<open>\<open>digits w n s\<close>: the string \<open>s\<close> has \<open>w\<close> decimal digits and the value \<open>n\<close>.\<close>

definition digits :: "nat \<Rightarrow> nat \<Rightarrow> string \<Rightarrow> bool" where
  "digits w n s \<longleftrightarrow> list_all is_ascii_digit s \<and> length s = w \<and> fold (\<lambda>c m. 10 * m + digit_value c) s 0 = n"

lemma fold_digits: "fold (\<lambda>c m. 10 * m + digit_value c) s m = m * 10 ^ length s + fold (\<lambda>c m. 10 * m + digit_value c) s 0"
proof (induction s arbitrary: m)
  case (Cons c s)
  show ?case using Cons [of "10 * m + digit_value c"] Cons [of "digit_value c"] by (simp add: algebra_simps)
qed simp

lemma digits_Nil: "digits w n [] \<longleftrightarrow> w = 0 \<and> n = 0"
  by (auto simp: digits_def)

lemma digits_Cons: "digits w n (c # s) \<longleftrightarrow>
    is_ascii_digit c \<and> (\<exists>v m. w = Suc v \<and> digits v m s \<and> n = digit_value c * 10 ^ v + m)"
  using fold_digits [of s "digit_value c"] by (auto simp: digits_def)

lemma digits_append: "digits w n a \<Longrightarrow> digits v m b \<Longrightarrow> digits (w + v) (n * 10 ^ v + m) (a @ b)"
  using fold_digits [of b n] by (auto simp: digits_def)

lemma digit_value_bound: "is_ascii_digit c \<Longrightarrow> digit_value c < 10"
  by (auto simp: is_ascii_digit_def digit_value_def less_eq_char_def)

lemma digit_value_less: "is_ascii_digit c \<Longrightarrow> is_ascii_digit e \<Longrightarrow> c < e \<longleftrightarrow> digit_value c < digit_value e"
  by (auto simp: is_ascii_digit_def digit_value_def less_eq_char_def less_char_def)

lemma digits_bound: "digits w n s \<Longrightarrow> n < 10 ^ w"
proof (induction s arbitrary: w n)
  case (Cons c s)
  then obtain v m where "is_ascii_digit c" "w = Suc v" "m < 10 ^ v" "n = digit_value c * 10 ^ v + m"
    by (auto simp: digits_Cons)
  moreover have "digit_value c \<le> 9" using digit_value_bound [OF \<open>is_ascii_digit c\<close>] by simp
  then have "digit_value c * 10 ^ v \<le> 9 * 10 ^ v" by (rule mult_right_mono) simp
  ultimately show ?case by (simp only: power_Suc)
qed (simp add: digits_Nil)

lemma digits_less: "digits w n a \<Longrightarrow> digits w m b \<Longrightarrow> n < m \<Longrightarrow> a < b"
proof (induction a arbitrary: b w n m)
  case Nil
  then show ?case using digits_bound [of w m b] by (simp add: digits_Nil)
next
  case (Cons c a)
  from Cons.prems(1) obtain v p where a: "is_ascii_digit c" "w = Suc v" "digits v p a" "n = digit_value c * 10 ^ v + p"
    by (auto simp: digits_Cons)
  obtain e b' where b': "b = e # b'" using Cons.prems(2) a(2) by (cases b) (auto simp: digits_Nil)
  from Cons.prems(2) obtain q where b: "is_ascii_digit e" "digits v q b'" "m = digit_value e * 10 ^ v + q"
    unfolding b' a(2) by (auto simp: digits_Cons)
  have "digit_value c \<le> digit_value e"
  proof (rule ccontr)
    assume "\<not> digit_value c \<le> digit_value e"
    then have "(digit_value e + 1) * 10 ^ v \<le> digit_value c * 10 ^ v" by (intro mult_right_mono) auto
    then show False using digits_bound [OF b(2)] Cons.prems(3) unfolding a(4) b(3) by simp
  qed
  moreover have "a < b'" if "digit_value c = digit_value e"
    using Cons.IH [OF a(3) b(2)] Cons.prems(3) that unfolding a(4) b(3) by simp
  moreover have "c = e" if "digit_value c = digit_value e"
    using that digit_value_less [OF a(1) b(1)] digit_value_less [OF b(1) a(1)] by (metis less_linear less_irrefl)
  ultimately show ?case
    unfolding b' using digit_value_less [OF a(1) b(1)] by (cases "digit_value c = digit_value e") auto
qed

lemma length_show_nat: "n < 10 ^ w \<Longrightarrow> 0 < w \<Longrightarrow> length (show_nat n) \<le> w"
proof (induction n arbitrary: w rule: show_nat.induct)
  case (1 n)
  show ?case
  proof (cases "n < 10")
    case True
    then show ?thesis using 1(3) by (subst show_nat.simps) simp
  next
    case False
    then obtain v where "w = Suc v" "0 < v" using 1(2,3) by (cases w; cases "w - 1") auto
    then have "length (show_nat (n div 10)) \<le> v" using 1(1) [OF False, of v] 1(2) by simp
    then show ?thesis using False \<open>w = Suc v\<close> by (subst show_nat.simps) simp
  qed
qed

lemma digits_pad0:
  assumes "0 \<le> n" "nat n < 10 ^ w" "0 < w"
  shows "digits w (nat n) (pad0 w n)"
proof -
  have z: "((\<lambda>m. 10 * m + digit_value CHR ''0'') ^^ k) 0 = (0::nat)" for k
    by (induction k) (simp_all add: digit_value_def)
  have "is_ascii_digit CHR ''0''" by (simp add: is_ascii_digit_def)
  then show ?thesis
    using assms show_nat_digits [of "nat n"] length_show_nat [of "nat n" w]
    by (auto simp: digits_def pad0_def show_int_def Let_def z list_all_iff)
qed


lemma append_less_left: "(a::string) < b \<Longrightarrow> length a = length b \<Longrightarrow> a @ x < b @ y"
  by (induction a b rule: list_induct2') auto

lemma append_less_right: "(x::string) < y \<Longrightarrow> a @ x < a @ y"
  by (induction a) auto

fun date_code :: "int \<times> int \<times> int \<Rightarrow> int" where
  "date_code (y, m, d) = y * 10000 + m * 100 + d"

lemma date_code_next: "valid_date x \<Longrightarrow> date_code x < date_code (next_day x)"
  by (cases x) (auto simp: month_len_def split: if_splits)

lemma date_code_mono: "a < b \<Longrightarrow> date_code (civil_from_days (int a)) < date_code (civil_from_days (int b))"
proof (induction b)
  case (Suc b)
  have "date_code (civil_from_days (int b)) < date_code (civil_from_days (int (Suc b)))"
    using civil_walk [of b] date_code_next by metis
  then show ?case using Suc by (cases "a = b") auto
qed simp

lemma date_code_pos: "0 < date_code (civil_from_days (int n))"
  using date_code_mono [of 0 n] by (cases "n = 0") (auto simp: civil_from_days_0)

lemma civil_bounds:
  assumes "civil_from_days (int n) = (y, m, d)" "n < 2932897"
  shows "1970 \<le> y" "y \<le> 9999" "1 \<le> m" "m \<le> 12" "1 \<le> d" "d \<le> 31"
proof -
  have v: "valid_date (y, m, d)" using civil_walk [of n] assms(1) by simp
  then show mb: "1 \<le> m" "m \<le> 12" "1 \<le> d" "d \<le> 31" by (auto simp: month_len_def split: if_splits)
  have "civil_from_days (int 2932896) = (9999, 12, 31)"
    by (rule civil_from_days_eq) (simp_all add: month_len_def year_start_def)
  then have "date_code (y, m, d) \<le> 9999 * 10000 + 1231"
    using date_code_mono [of n 2932896] assms by (cases "n = 2932896") auto
  then show "y \<le> 9999" using mb by simp
  have "19700101 \<le> date_code (y, m, d)"
    using date_code_mono [of 0 n] assms by (cases "n = 0") (auto simp: civil_from_days_0)
  then show "1970 \<le> y" using mb by simp
qed

definition date_part :: "nat \<Rightarrow> string" where
  "date_part n = (case civil_from_days (int n) of (y, m, d) \<Rightarrow> pad0 4 y @ pad0 2 m @ pad0 2 d)"

definition time_part :: "nat \<Rightarrow> string" where
  "time_part s = pad0 2 (int s div 3600) @ pad0 2 (int s mod 3600 div 60) @ pad0 2 (int s mod 60)"

lemma utc_timestamp_parts:
  "utc_timestamp t = date_part (t div 86400) @ ''T'' @ time_part (t mod 86400) @ ''Z''"
  by (simp add: utc_timestamp_def date_part_def time_part_def Let_def split: prod.split)

lemma date_part_digits:
  assumes "n < 2932897"
  shows "digits 8 (nat (date_code (civil_from_days (int n)))) (date_part n)"
proof -
  obtain y m d where x: "civil_from_days (int n) = (y, m, d)" by (rule prod_cases3)
  note b = civil_bounds [OF x assms]
  have "digits 4 (nat y) (pad0 4 y)" "digits 2 (nat m) (pad0 2 m)" "digits 2 (nat d) (pad0 2 d)"
    using b by (intro digits_pad0; simp)+
  then have "digits (4 + (2 + 2)) (nat y * 10 ^ (2 + 2) + (nat m * 10 ^ 2 + nat d)) (pad0 4 y @ pad0 2 m @ pad0 2 d)"
    by (intro digits_append)
  moreover have "nat (date_code (y, m, d)) = nat y * 10 ^ (2 + 2) + (nat m * 10 ^ 2 + nat d)"
    using b by (simp add: nat_add_distrib nat_mult_distrib)
  ultimately show ?thesis unfolding x date_part_def by simp
qed

definition time_code :: "nat \<Rightarrow> nat" where
  "time_code s = s div 3600 * 10000 + (s mod 3600 div 60 * 100 + s mod 60)"

lemma time_part_digits:
  assumes "s < 86400"
  shows "digits 6 (time_code s) (time_part s)"
proof -
  have "digits 2 (nat (int (s div 3600))) (pad0 2 (int (s div 3600)))"
    "digits 2 (nat (int (s mod 3600 div 60))) (pad0 2 (int (s mod 3600 div 60)))"
    "digits 2 (nat (int (s mod 60))) (pad0 2 (int (s mod 60)))"
    using assms by (intro digits_pad0; simp add: less_mult_imp_div_less)+
  then have "digits (2 + (2 + 2)) (nat (int (s div 3600)) * 10 ^ (2 + 2) + (nat (int (s mod 3600 div 60)) * 10 ^ 2 + nat (int (s mod 60))))
      (pad0 2 (int (s div 3600)) @ pad0 2 (int (s mod 3600 div 60)) @ pad0 2 (int (s mod 60)))"
    by (intro digits_append)
  then show ?thesis unfolding time_code_def time_part_def nat_int by (simp add: zdiv_int zmod_int)
qed

lemma time_code_mono:
  assumes "a < b"
  shows "time_code a < time_code b"
proof -
  have split: "\<exists>h m s. t = 3600 * h + 60 * m + s \<and> m < 60 \<and> s < 60 \<and> time_code t = h * 10000 + (m * 100 + s)" for t :: nat
  proof (intro exI conjI)
    show "t = 3600 * (t div 3600) + 60 * (t mod 3600 div 60) + t mod 60"
      using mult_div_mod_eq [of 60 "t mod 3600"] mod_mod_cancel [of 60 3600 t, simplified] mult_div_mod_eq [of 3600 t, symmetric] by linarith
  qed (simp_all add: time_code_def less_mult_imp_div_less)
  obtain h m s where a: "a = 3600 * h + 60 * m + s" "m < 60" "s < 60" "time_code a = h * 10000 + (m * 100 + s)"
    using split by blast
  obtain h' m' s' where b: "b = 3600 * h' + 60 * m' + s'" "m' < 60" "s' < 60" "time_code b = h' * 10000 + (m' * 100 + s')"
    using split by blast
  have lt: "3600 * h + 60 * m + s < 3600 * h' + 60 * m' + s'" using assms unfolding a(1) b(1) .
  consider "h < h'" | "h = h'" "m < m'" | "h = h'" "m = m'" using lt a(2,3) b(2,3) by linarith
  then show ?thesis unfolding a(4) b(4) using lt a(2,3) b(2,3) by cases linarith+
qed

text \<open>Up to the year 9999 the order of the artifact names is the order of the times they carry.\<close>

lemma utc_timestamp_mono:
  assumes "a < b" "b < 253402300800"
  shows "utc_timestamp a @ x < utc_timestamp b @ y"
proof -
  have d: "a div 86400 < 2932897" "b div 86400 < 2932897" using assms by (simp_all add: less_mult_imp_div_less)
  note da = date_part_digits [OF d(1)] and db = date_part_digits [OF d(2)]
  have ta: "digits 6 (time_code (a mod 86400)) (time_part (a mod 86400))" "digits 6 (time_code (b mod 86400)) (time_part (b mod 86400))"
    by (rule time_part_digits; simp)+
  show ?thesis
  proof (cases "a div 86400 = b div 86400")
    case True
    then have "a mod 86400 < b mod 86400" using assms(1) by (metis div_mult_mod_eq add_less_cancel_left)
    then have "time_part (a mod 86400) < time_part (b mod 86400)"
      by (intro digits_less [OF ta] time_code_mono)
    moreover have "length (time_part (a mod 86400)) = length (time_part (b mod 86400))" using ta by (simp add: digits_def)
    ultimately show ?thesis unfolding utc_timestamp_parts True append_assoc
      by (intro append_less_right append_less_left)
  next
    case False
    then have "a div 86400 < b div 86400" using div_le_mono [of a b 86400] assms(1) by simp
    then have "date_part (a div 86400) < date_part (b div 86400)"
      by (intro digits_less [OF da db]) (simp add: zless_nat_conj date_code_mono date_code_pos)
    moreover have "length (date_part (a div 86400)) = length (date_part (b div 86400))" using da db by (simp add: digits_def)
    ultimately show ?thesis unfolding utc_timestamp_parts append_assoc by (intro append_less_left)
  qed
qed


section \<open>Fresh names\<close>

lemma free_candidate_finds:
  assumes "counter \<le> n" "n \<le> U64_MAX" "\<not> ex (candidate n)"
  shows "\<exists>m. free_candidate ex candidate counter = Some (candidate m) \<and> \<not> ex (candidate m)"
  using assms(1)
proof (induction rule: inc_induct)
  case base
  show ?case using assms(2,3) by (subst free_candidate.simps) auto
next
  case (step k)
  then show ?case using assms(2) by (subst free_candidate.simps) auto
qed

lemma free_number:
  assumes "finite {p. ex p}" "card {p. ex p} < k" "inj candidate"
  shows "\<exists>n\<in>{1..k}. \<not> ex (candidate (n::nat))"
proof (rule ccontr)
  assume "\<not> ?thesis"
  then have "candidate ` {1..k} \<subseteq> {p. ex p}" by auto
  then have "card (candidate ` {1..k}) \<le> card {p. ex p}" by (rule card_mono [OF assms(1)])
  moreover have "card (candidate ` {1..k}) = k"
    using card_image [of candidate "{1..k}"] assms(3) by (simp add: inj_def inj_on_def)
  ultimately show False using assms(2) by simp
qed

lemma show_nat_inject: "show_nat a = show_nat b \<Longrightarrow> a = b"
  by (metis show_nat_digits)

lemma path_join_inject: "\<not> prefix ''/'' a \<Longrightarrow> \<not> prefix ''/'' b \<Longrightarrow> path_join dir a = path_join dir b \<longleftrightarrow> a = b"
  by (simp add: path_join_def)

lemma last_not_suffix: "s \<noteq> [] \<Longrightarrow> t \<noteq> [] \<Longrightarrow> last s \<noteq> last t \<Longrightarrow> \<not> suffix s t"
  by (auto simp: suffix_def)

lemma prefix_hd: "prefix [c] s \<longleftrightarrow> s \<noteq> [] \<and> hd s = c"
  by (cases s) auto

lemma utc_timestamp_hd: "utc_timestamp t \<noteq> [] \<and> is_ascii_digit (hd (utc_timestamp t))"
proof -
  obtain y m d where x: "civil_from_days (int (t div 86400)) = (y, m, d)" by (rule prod_cases3)
  then have "0 \<le> y" using civil_walk [of "t div 86400"] by (auto split: if_splits)
  moreover have "is_ascii_digit CHR ''0''" by (simp add: is_ascii_digit_def)
  ultimately have "pad0 4 y \<noteq> [] \<and> list_all is_ascii_digit (pad0 4 y)"
    using show_nat_digits [of "nat y"] by (auto simp: pad0_def Let_def show_int_def list_all_iff)
  then have "pad0 4 y \<noteq> []" "is_ascii_digit (hd (pad0 4 y))" by (auto simp: list_all_iff)
  then show ?thesis unfolding utc_timestamp_parts date_part_def x by simp
qed

lemma artifact_name:
  "is_backup_artifact (OTEL_DB_PREFIX @ utc_timestamp t @ mid @ ''.'' @ backup_extension encrypted)"
proof -
  let ?name = "OTEL_DB_PREFIX @ utc_timestamp t @ mid @ ''.'' @ backup_extension encrypted"
  have l: "?name \<noteq> []" "last ?name \<in> {CHR ''b'', CHR ''k''}"
    by (auto simp: OTEL_DB_PREFIX_def backup_extension_def)
  have "\<not> suffix temp ?name" if "temp \<in> set TEMP_ARTIFACT_SUFFIXES" for temp
    by (rule last_not_suffix) (use that l in \<open>auto simp: TEMP_ARTIFACT_SUFFIXES_def\<close>)
  moreover have "hd (utc_timestamp t) \<noteq> CHR ''.''"
    using utc_timestamp_hd [of t] by (auto simp: is_ascii_digit_def)
  ultimately show ?thesis
    using utc_timestamp_hd [of t] by (auto simp: is_backup_artifact_def Let_def prefix_hd list_ex_iff)
qed

lemma strip_extension:
  "strip_suffix (''.'' @ backup_extension encrypted) (backup_filename t encrypted) = Some (OTEL_DB_PREFIX @ utc_timestamp t)"
  by (simp add: strip_suffix_def backup_filename_def suffix_def)

lemma unique_backup_path_exists:
  assumes "finite {p. ex p}" "card {p. ex p} < U64_MAX"
  shows "\<exists>name. unique_backup_path ex dir t encrypted = Some (path_join dir name) \<and>
    \<not> ex (path_join dir name) \<and> is_backup_artifact name"
proof (cases "ex (path_join dir (backup_filename t encrypted))")
  case False
  then show ?thesis
    using artifact_name [of t "[]" encrypted] by (auto simp: unique_backup_path_def Let_def backup_filename_def)
next
  case True
  define name where "name n = OTEL_DB_PREFIX @ utc_timestamp t @ (''-'' @ show_nat n) @ ''.'' @ backup_extension encrypted" for n
  have rel: "\<not> prefix ''/'' (name n)" for n by (simp add: name_def OTEL_DB_PREFIX_def)
  have "inj (\<lambda>n. path_join dir (name n))"
    by (rule injI) (simp add: path_join_inject rel, simp add: name_def show_nat_inject)
  from free_number [OF assms this] obtain n where "1 \<le> n" "n \<le> U64_MAX" "\<not> ex (path_join dir (name n))" by auto
  from free_candidate_finds [where candidate = "\<lambda>n. path_join dir (name n)" and ex = ex, OF this]
  obtain m where "free_candidate ex (\<lambda>n. path_join dir (name n)) 1 = Some (path_join dir (name m))" "\<not> ex (path_join dir (name m))"
    by blast
  moreover have "unique_backup_path ex dir t encrypted = free_candidate ex (\<lambda>n. path_join dir (name n)) 1"
    using True strip_extension [of encrypted t] by (simp add: unique_backup_path_def Let_def name_def)
  ultimately show ?thesis using artifact_name [of t "''-'' @ show_nat m" encrypted] by (auto simp: name_def)
qed

section \<open>Properties\<close>

text \<open>C39: The date in a backup's name is the calendar date: starting from 1 January 1970 every further day
  of the epoch moves it to the next day of the proleptic Gregorian calendar, month lengths and leap
  years included.\<close>
theorem civil_from_days_calendar:
  "civil_from_days 0 = (1970, 1, 1) \<and> civil_from_days (int (Suc n)) = next_day (civil_from_days (int n))"
  using civil_walk [of n] civil_from_days_0 by blast

lemma backup_names_chronological:
  assumes "a < b" "b < 253402300800"
  shows "backup_filename a encrypted < backup_filename b encrypted"
  unfolding backup_filename_def by (rule append_less_right [OF utc_timestamp_mono [OF assms]])

lemma unique_backup_path_fresh:
  assumes "finite {p. ex p}" "card {p. ex p} < U64_MAX"
  shows "\<exists>name. unique_backup_path ex dir epoch_secs encrypted = Some (path_join dir name) \<and>
    \<not> ex (path_join dir name) \<and> is_backup_artifact name"
  by (rule unique_backup_path_exists [OF assms])

end
