(* ===== verification/Backup_Container.thy ===== *)
theory Backup_Container
  imports Backup_Names Storage_Lifecycle "HOL-Library.Finite_Map"
begin

text \<open>
  Encrypted backups (\<open>backup.rs\<close>): the key file, the streaming container, encryption and
  decryption with their cleanup.  The file system is a finite map from paths to contents and
  mode; the operating system decides through \<open>io_env\<close> how many bytes a read returns and which calls
  fail.  AES-256-GCM is a parameter.  Two different paths name different files.
\<close>

section \<open>Files\<close>

record FileNode =
  fl_data :: "u8 list"
  fl_mode :: nat

record Fs =
  fs_files :: "(path, FileNode) fmap"
  fs_dirs :: "path list"

definition file_at :: "Fs \<Rightarrow> path \<Rightarrow> FileNode option" where
  "file_at fs p = fmlookup (fs_files fs) p"

definition file_exists :: "Fs \<Rightarrow> path \<Rightarrow> bool" where
  "file_exists fs p = (file_at fs p \<noteq> None \<or> p \<in> set (fs_dirs fs))"

definition put_file :: "path \<Rightarrow> u8 list \<Rightarrow> nat \<Rightarrow> Fs \<Rightarrow> Fs" where
  "put_file p d m fs = fs\<lparr>fs_files := fmupd p \<lparr>fl_data = d, fl_mode = m\<rparr> (fs_files fs)\<rparr>"

definition drop_file :: "path \<Rightarrow> Fs \<Rightarrow> Fs" where
  "drop_file p fs = fs\<lparr>fs_files := fmdrop p (fs_files fs)\<rparr>"

text \<open>What the operating system does: a read at a position returns some bytes or fails; a file may
  fail to grow to a size; opening, creating, syncing, changing the mode and removing may fail; a copy that fails has
  copied some bytes.\<close>

record IoEnv =
  io_read :: "path \<Rightarrow> nat \<Rightarrow> string + nat"
  io_write :: "path \<Rightarrow> nat \<Rightarrow> string option"
  io_open :: "path \<Rightarrow> string option"
  io_create :: "path \<Rightarrow> string option"
  io_sync :: "path \<Rightarrow> string option"
  io_chmod :: "path \<Rightarrow> string option"
  io_remove :: "path \<Rightarrow> string option"
  io_umask_mode :: nat
  io_copied :: "path \<Rightarrow> nat"

datatype BackupError =
    BeSqlite string
  | BeIo string
  | Integrity path string
  | ForeignKeyViolations path nat
  | NotADatabase path
  | DestinationExists path
  | DestinationNotEmpty path
  | InvalidKeyLen usize
  | CorruptBackup string
  | ContentMismatch path string

definition io_result :: "string option \<Rightarrow> 'a \<Rightarrow> BackupError + 'a" where
  "io_result f x = (case f of None \<Rightarrow> Inr x | Some e \<Rightarrow> Inl (BeIo e))"

definition open_file :: "IoEnv \<Rightarrow> Fs \<Rightarrow> path \<Rightarrow> BackupError + u8 list" where
  "open_file env fs p =
     (case file_at fs p of None \<Rightarrow> Inl (BeIo ''not found'') | Some f \<Rightarrow> io_result (io_open env p) (fl_data f))"

text \<open>One \<open>read\<close> into a buffer of a given size: at least one byte unless the end is reached.\<close>

definition read_at :: "IoEnv \<Rightarrow> path \<Rightarrow> u8 list \<Rightarrow> nat \<Rightarrow> nat \<Rightarrow> BackupError + u8 list" where
  "read_at env p content pos buf =
     (case io_read env p pos of
        Inl e \<Rightarrow> Inl (BeIo e)
      | Inr n \<Rightarrow> Inr (take (min buf (max 1 n)) (drop pos content)))"

definition write_all :: "IoEnv \<Rightarrow> path \<Rightarrow> u8 list \<Rightarrow> u8 list \<Rightarrow> BackupError + u8 list" where
  "write_all env p written bytes = io_result (io_write env p (length written + length bytes)) (written @ bytes)"

definition remove_file :: "IoEnv \<Rightarrow> path \<Rightarrow> Fs \<Rightarrow> Fs \<times> (BackupError + unit)" where
  "remove_file env p fs =
     (if file_at fs p = None then (fs, Inl (BeIo ''not found''))
      else case io_remove env p of Some e \<Rightarrow> (fs, Inl (BeIo e)) | None \<Rightarrow> (drop_file p fs, Inr ()))"

text \<open>\<open>restrict_permissions\<close> on this file system.\<close>

definition restrict_file :: "IoEnv \<Rightarrow> path \<Rightarrow> Fs \<Rightarrow> Fs \<times> (BackupError + unit)" where
  "restrict_file env p fs =
     (case file_at fs p of
        None \<Rightarrow> (fs, Inl (BeIo ''not found''))
      | Some f \<Rightarrow> (case io_chmod env p of
          Some e \<Rightarrow> (fs, Inl (BeIo e))
        | None \<Rightarrow> (put_file p (fl_data f) 384 fs, Inr ())))"

section \<open>The container\<close>

definition BACKUP_FILE_MAGIC :: "u8 list" where
  "BACKUP_FILE_MAGIC = [79, 84, 83, 81, 66, 65, 75, 49]"

definition BACKUP_FILE_VERSION_V1 :: u8 where
  "BACKUP_FILE_VERSION_V1 = 1"

definition BACKUP_FILE_VERSION :: u8 where
  "BACKUP_FILE_VERSION = 2"

definition ENCRYPTION_KEY_LEN :: usize where
  "ENCRYPTION_KEY_LEN = 32"

definition NONCE_LEN :: usize where
  "NONCE_LEN = 12"

definition STREAM_CHUNK_BYTES :: usize where
  "STREAM_CHUNK_BYTES = 64 * 1024"

definition GCM_TAG_LEN :: usize where
  "GCM_TAG_LEN = 16"

definition MAX_FRAME_CIPHERTEXT :: usize where
  "MAX_FRAME_CIPHERTEXT = STREAM_CHUNK_BYTES + GCM_TAG_LEN"

text \<open>The cipher, by key and nonce.\<close>

record Aes256Gcm =
  aes_encrypt :: "u8 list \<Rightarrow> u8 list \<Rightarrow> u8 list \<Rightarrow> u8 list option"
  aes_decrypt :: "u8 list \<Rightarrow> u8 list \<Rightarrow> u8 list \<Rightarrow> u8 list option"

text \<open>\<open>u32::to_be_bytes\<close> and \<open>u32::from_be_bytes\<close>.\<close>

definition to_be_bytes :: "u32 \<Rightarrow> u8 list" where
  "to_be_bytes n = [n div 2 ^ 24 mod 256, n div 2 ^ 16 mod 256, n div 2 ^ 8 mod 256, n mod 256]"

definition from_be_bytes :: "u8 list \<Rightarrow> u32" where
  "from_be_bytes bs = fold (\<lambda>b n. 256 * n + b) bs 0"

definition frame_nonce :: "u8 list \<Rightarrow> u32 \<Rightarrow> u8 list" where
  "frame_nonce base counter = take (NONCE_LEN - 4) base @ to_be_bytes counter"

text \<open>\<open>read_exact_or_eof\<close>; the bytes read so far are the accumulator.\<close>

function read_exact_or_eof :: "IoEnv \<Rightarrow> path \<Rightarrow> u8 list \<Rightarrow> nat \<Rightarrow> nat \<Rightarrow> u8 list \<Rightarrow> BackupError + u8 list" where
  "read_exact_or_eof env p content pos want got =
     (if length got < want then
        (case read_at env p content (pos + length got) (want - length got) of
           Inl e \<Rightarrow> Inl e
         | Inr [] \<Rightarrow> Inr got
         | Inr (b # bs) \<Rightarrow> read_exact_or_eof env p content pos want (got @ b # bs))
      else Inr got)"
  by pat_completeness auto
termination
  by (relation "measure (\<lambda>(env, p, content, pos, want, got). want - length got)") auto

declare read_exact_or_eof.simps [simp del]

lemma read_at_Inr:
  "read_at env p c pos buf = Inr bs \<Longrightarrow>
   prefix bs (drop pos c) \<and> length bs \<le> buf \<and> (bs = [] \<longrightarrow> buf = 0 \<or> drop pos c = [])"
  by (auto simp: read_at_def take_is_prefix split: sum.splits)

lemma read_exact_exact:
  "read_exact_or_eof env p c pos want got = Inr r \<Longrightarrow> prefix got (drop pos c) \<Longrightarrow> length got \<le> want \<Longrightarrow>
   r = take want (drop pos c)"
proof (induction env p c pos want got rule: read_exact_or_eof.induct)
  case (1 env p c pos want got)
  obtain y where y: "drop pos c = got @ y" using 1(3) by (auto simp: prefix_def)
  show ?case
  proof (cases "length got < want")
    case False
    then show ?thesis using 1(2,4) y by (subst (asm) read_exact_or_eof.simps) auto
  next
    case True
    then obtain bs where bs: "read_at env p c (pos + length got) (want - length got) = Inr bs"
      using 1(2) by (subst (asm) read_exact_or_eof.simps) (auto split: sum.splits)
    have "drop (pos + length got) c = y" using y by (metis add.commute append_eq_conv_conj drop_drop)
    with read_at_Inr [OF bs] have r: "prefix bs y" "length bs \<le> want - length got" "bs = [] \<longrightarrow> y = []" using True by auto
    show ?thesis
    proof (cases bs)
      case Nil
      then show ?thesis using 1(2) True bs r y by (subst (asm) read_exact_or_eof.simps) auto
    next
      case (Cons b bs')
      then have "read_exact_or_eof env p c pos want (got @ b # bs') = Inr r"
        using 1(2) True bs by (subst (asm) read_exact_or_eof.simps) auto
      then show ?thesis using 1(1) [OF True bs Cons] r y Cons True by auto
    qed
  qed
qed

lemma read_exact_Inr: "read_exact_or_eof env p c pos want [] = Inr r \<Longrightarrow> r = take want (drop pos c)"
  by (rule read_exact_exact) auto

text \<open>Without read errors the result does not depend on how the reads are cut.\<close>

definition reads_ok :: "IoEnv \<Rightarrow> path \<Rightarrow> bool" where
  "reads_ok env p \<longleftrightarrow> (\<forall>pos. \<exists>n. io_read env p pos = Inr n)"

lemma read_at_total: "reads_ok env p \<Longrightarrow> \<exists>bs. read_at env p c pos buf = Inr bs"
  unfolding reads_ok_def read_at_def by (metis sum.simps(6))

lemma read_exact_total:
  assumes "reads_ok env p"
  shows "\<exists>r. read_exact_or_eof env p c pos want got = Inr r"
  using assms
proof (induction env p c pos want got rule: read_exact_or_eof.induct)
  case (1 env p c pos want got)
  obtain bs where "read_at env p c (pos + length got) (want - length got) = Inr bs" using read_at_total [OF 1(2)] by blast
  then show ?case using 1 by (subst read_exact_or_eof.simps) (cases bs; auto)
qed

lemma read_exact_eq: "reads_ok env p \<Longrightarrow> read_exact_or_eof env p c pos want [] = Inr (take want (drop pos c))"
  using read_exact_total [of env p c pos want "[]"] read_exact_Inr by metis

section \<open>Encryption\<close>

text \<open>The loop of \<open>encrypt_file\<close>: reads one chunk, encrypts it under the nonce of its frame and
  appends the length and the ciphertext.\<close>

function encrypt_frames ::
  "Aes256Gcm \<Rightarrow> u8 list \<Rightarrow> u8 list \<Rightarrow> IoEnv \<Rightarrow> path \<Rightarrow> path \<Rightarrow> u8 list \<Rightarrow> nat \<Rightarrow> u32 \<Rightarrow> u8 list \<Rightarrow> BackupError + u8 list" where
  "encrypt_frames A key base env plain out content pos counter written =
     (case read_at env plain content pos STREAM_CHUNK_BYTES of
        Inl e \<Rightarrow> Inl e
      | Inr [] \<Rightarrow> write_all env out written []
      | Inr (b # bs) \<Rightarrow>
          (case aes_encrypt A key (frame_nonce base counter) (b # bs) of
             None \<Rightarrow> Inl (CorruptBackup ''AES-GCM encryption failed'')
           | Some ciphertext \<Rightarrow>
               if 2 ^ 32 \<le> length ciphertext then Inl (CorruptBackup ''encrypted frame exceeds u32 range'')
               else try_bind (write_all env out written (to_be_bytes (length ciphertext))) (\<lambda>w.
                    try_bind (write_all env out w ciphertext) (\<lambda>w'.
                    if 2 ^ 32 \<le> counter + 1 then Inl (CorruptBackup ''backup exceeds 256 TiB frame limit'')
                    else encrypt_frames A key base env plain out content (pos + length (b # bs)) (counter + 1) w'))))"
  by pat_completeness auto
termination
  by (relation "measure (\<lambda>(A, key, base, env, plain, out, content, pos, counter, written). length content - pos)")
    (auto dest!: read_at_Inr prefix_length_le)

declare encrypt_frames.simps [simp del]

text \<open>The key must have exactly 32 bytes; of a longer file at most 33 bytes are read.\<close>

definition read_key :: "IoEnv \<Rightarrow> Fs \<Rightarrow> path \<Rightarrow> BackupError + u8 list" where
  "read_key env fs p =
     try_bind (open_file env fs p) (\<lambda>content.
     try_bind (read_exact_or_eof env p content 0 (ENCRYPTION_KEY_LEN + 1) []) (\<lambda>bytes.
       if length bytes \<noteq> ENCRYPTION_KEY_LEN then Inl (InvalidKeyLen (max (length content) (length bytes)))
       else Inr bytes))"

definition create_new :: "IoEnv \<Rightarrow> path \<Rightarrow> Fs \<Rightarrow> BackupError + Fs" where
  "create_new env out fs =
     (if file_exists fs out then Inl (DestinationExists out)
      else io_result (io_create env out) (put_file out [] (io_umask_mode env) fs))"

text \<open>Closing the output: sync, then owner-only permissions.\<close>

definition seal :: "IoEnv \<Rightarrow> path \<Rightarrow> Fs \<Rightarrow> Fs \<times> (BackupError + unit)" where
  "seal env out fs = (case io_sync env out of Some e \<Rightarrow> (fs, Inl (BeIo e)) | None \<Rightarrow> restrict_file env out fs)"

text \<open>What is written to a file that did not fail: its bytes.  A failed write removes the file.\<close>

definition finish_output :: "IoEnv \<Rightarrow> path \<Rightarrow> Fs \<Rightarrow> BackupError + u8 list \<Rightarrow> Fs \<times> (BackupError + unit)" where
  "finish_output env out fs result =
     (case result of
        Inr bytes \<Rightarrow> seal env out (put_file out bytes (io_umask_mode env) fs)
      | Inl e \<Rightarrow> (fst (remove_file env out fs), Inl e))"

definition encrypt_file ::
  "Aes256Gcm \<Rightarrow> string + u8 list \<Rightarrow> IoEnv \<Rightarrow> path \<Rightarrow> path \<Rightarrow> path \<Rightarrow> Fs \<Rightarrow> Fs \<times> (BackupError + unit)" where
  "encrypt_file A random_base_nonce env plain out key_path fs =
     (case read_key env fs key_path of
        Inl e \<Rightarrow> (fs, Inl e)
      | Inr key \<Rightarrow> (case random_base_nonce of
          Inl e \<Rightarrow> (fs, Inl (BeIo e))
        | Inr base \<Rightarrow> (case open_file env fs plain of
            Inl e \<Rightarrow> (fs, Inl e)
          | Inr content \<Rightarrow> (case create_new env out fs of
              Inl e \<Rightarrow> (fs, Inl e)
            | Inr fs' \<Rightarrow> finish_output env out fs'
                (try_bind (write_all env out [] BACKUP_FILE_MAGIC) (\<lambda>w.
                 try_bind (write_all env out w [BACKUP_FILE_VERSION]) (\<lambda>w.
                 try_bind (write_all env out w base) (\<lambda>w.
                   encrypt_frames A key base env plain out content 0 0 w))))))))"

section \<open>Decryption\<close>

text \<open>The loop over the frames of a version 2 container.\<close>

function decrypt_frames ::
  "Aes256Gcm \<Rightarrow> u8 list \<Rightarrow> u8 list \<Rightarrow> IoEnv \<Rightarrow> path \<Rightarrow> path \<Rightarrow> u8 list \<Rightarrow> nat \<Rightarrow> u32 \<Rightarrow> u8 list \<Rightarrow> BackupError + u8 list" where
  "decrypt_frames A key base env inp out content pos counter written =
     (case read_exact_or_eof env inp content pos 4 [] of
        Inl e \<Rightarrow> Inl e
      | Inr len_buf \<Rightarrow>
          if length len_buf = 0 then write_all env out written []
          else if length len_buf \<noteq> 4 then Inl (CorruptBackup ''truncated frame length prefix'')
          else let frame_len = from_be_bytes len_buf in
            if frame_len = 0 \<or> frame_len > MAX_FRAME_CIPHERTEXT then Inl (CorruptBackup (''corrupt frame length '' @ show_nat frame_len))
            else (case read_exact_or_eof env inp content (pos + 4) frame_len [] of
                Inl e \<Rightarrow> Inl e
              | Inr ciphertext \<Rightarrow>
                  if length ciphertext \<noteq> frame_len then Inl (CorruptBackup ''truncated frame payload'')
                  else (case aes_decrypt A key (frame_nonce base counter) ciphertext of
                      None \<Rightarrow> Inl (CorruptBackup ''authentication failed: wrong key or corrupted backup'')
                    | Some plaintext \<Rightarrow>
                        try_bind (write_all env out written plaintext) (\<lambda>w.
                        if 2 ^ 32 \<le> counter + 1 then Inl (CorruptBackup ''backup exceeds 256 TiB frame limit'')
                        else decrypt_frames A key base env inp out content (pos + 4 + frame_len) (counter + 1) w))))"
  by pat_completeness auto
termination
  by (relation "measure (\<lambda>(A, key, base, env, inp, out, content, pos, counter, written). length content - pos)")
    (auto dest!: read_exact_Inr)

declare decrypt_frames.simps [simp del]

definition decrypt_v2_body ::
  "Aes256Gcm \<Rightarrow> u8 list \<Rightarrow> IoEnv \<Rightarrow> path \<Rightarrow> path \<Rightarrow> u8 list \<Rightarrow> nat \<Rightarrow> Fs \<Rightarrow> Fs \<times> (BackupError + unit)" where
  "decrypt_v2_body A key env inp out content pos fs =
     (case read_exact_or_eof env inp content pos NONCE_LEN [] of
        Inl e \<Rightarrow> (fs, Inl e)
      | Inr base \<Rightarrow>
          if length base \<noteq> NONCE_LEN then (fs, Inl (CorruptBackup ''truncated v2 backup header (missing base nonce)''))
          else (case io_create env out of
              Some e \<Rightarrow> (fs, Inl (BeIo e))
            | None \<Rightarrow> finish_output env out (put_file out [] (io_umask_mode env) fs)
                (decrypt_frames A key base env inp out content (pos + NONCE_LEN) 0 [])))"

text \<open>\<open>read_to_end\<close> reads all that is left.  Creating, writing and syncing the output are one closure
  here, whose failure removes the file.\<close>

definition decrypt_v1_body ::
  "Aes256Gcm \<Rightarrow> u8 list \<Rightarrow> IoEnv \<Rightarrow> path \<Rightarrow> path \<Rightarrow> u8 list \<Rightarrow> nat \<Rightarrow> Fs \<Rightarrow> Fs \<times> (BackupError + unit)" where
  "decrypt_v1_body A key env inp out content pos fs =
     (case read_exact_or_eof env inp content pos (length content) [] of
        Inl e \<Rightarrow> (fs, Inl e)
      | Inr rest \<Rightarrow>
          if length rest < NONCE_LEN then (fs, Inl (CorruptBackup ''truncated v1 backup (missing nonce)''))
          else (case aes_decrypt A key (take NONCE_LEN rest) (drop NONCE_LEN rest) of
              None \<Rightarrow> (fs, Inl (CorruptBackup ''authentication failed: wrong key or corrupted backup''))
            | Some plaintext \<Rightarrow> (case io_create env out of
                Some e \<Rightarrow> (fst (remove_file env out fs), Inl (BeIo e))
              | None \<Rightarrow>
                  (let fs' = put_file out [] (io_umask_mode env) fs in
                   case try_bind (write_all env out [] plaintext) (\<lambda>w. io_result (io_sync env out) w) of
                     Inl e \<Rightarrow> (fst (remove_file env out fs'), Inl e)
                   | Inr w \<Rightarrow> restrict_file env out (put_file out w (io_umask_mode env) fs')))))"

definition decrypt_to :: "Aes256Gcm \<Rightarrow> IoEnv \<Rightarrow> path \<Rightarrow> path \<Rightarrow> path \<Rightarrow> Fs \<Rightarrow> Fs \<times> (BackupError + unit)" where
  "decrypt_to A env encrypted key_path out fs =
     (case read_key env fs key_path of
        Inl e \<Rightarrow> (fs, Inl e)
      | Inr key \<Rightarrow> (case open_file env fs encrypted of
          Inl e \<Rightarrow> (fs, Inl e)
        | Inr content \<Rightarrow> (case read_exact_or_eof env encrypted content 0 8 [] of
            Inl e \<Rightarrow> (fs, Inl e)
          | Inr magic \<Rightarrow>
              if length magic \<noteq> 8 \<or> magic \<noteq> BACKUP_FILE_MAGIC
              then (fs, Inl (CorruptBackup ''not an otel-sqlite encrypted backup (bad magic)''))
              else (case read_exact_or_eof env encrypted content 8 1 [] of
                  Inl e \<Rightarrow> (fs, Inl e)
                | Inr version \<Rightarrow>
                    if length version \<noteq> 1 then (fs, Inl (CorruptBackup ''truncated backup header (missing version)''))
                    else if hd version = BACKUP_FILE_VERSION_V1 then decrypt_v1_body A key env encrypted out content 9 fs
                    else if hd version = BACKUP_FILE_VERSION then decrypt_v2_body A key env encrypted out content 9 fs
                    else (fs, Inl (CorruptBackup (''unsupported backup file version '' @ show_nat (hd version))))))))"

text \<open>A single \<open>read\<close> decides whether a file looks encrypted.\<close>

definition looks_encrypted :: "IoEnv \<Rightarrow> Fs \<Rightarrow> path \<Rightarrow> BackupError + bool" where
  "looks_encrypted env fs p =
     try_bind (open_file env fs p) (\<lambda>content.
     try_bind (read_at env p content 0 8) (\<lambda>magic. Inr (length magic = 8 \<and> magic = BACKUP_FILE_MAGIC)))"


section \<open>Files and bytes\<close>

lemma file_at_simps [simp]:
  "file_at (put_file p d m fs) q = (if p = q then Some \<lparr>fl_data = d, fl_mode = m\<rparr> else file_at fs q)"
  "file_at (drop_file p fs) q = (if p = q then None else file_at fs q)"
  "fs_dirs (put_file p d m fs) = fs_dirs fs" "fs_dirs (drop_file p fs) = fs_dirs fs"
  by (auto simp: file_at_def put_file_def drop_file_def)

lemma put_put [simp]: "put_file p d m (put_file p d' m' fs) = put_file p d m fs"
  by (simp add: put_file_def)

lemma io_result_Inr [simp]: "io_result f x = Inr y \<longleftrightarrow> f = None \<and> x = y" "io_result None x = Inr x"
  by (auto simp: io_result_def split: option.splits)

text \<open>\<open>restrict_file\<close> changes the modes as \<open>restrict_permissions\<close> does.\<close>

definition modes_of :: "Fs \<Rightarrow> modes" where
  "modes_of fs p = map_option fl_mode (file_at fs p)"

lemma restrict_file_refines:
  "modes_of (fst (restrict_file env p fs)) = snd (restrict_permissions {q. io_chmod env q \<noteq> None} p (modes_of fs)) \<and>
   (isl (snd (restrict_file env p fs)) \<longleftrightarrow> \<not> fst (restrict_permissions {q. io_chmod env q \<noteq> None} p (modes_of fs)))"
  by (auto simp: modes_of_def restrict_file_def restrict_permissions_def set_permissions_def fun_eq_iff split: option.splits)

text \<open>A path on which no call fails.\<close>

definition io_quiet :: "IoEnv \<Rightarrow> path \<Rightarrow> bool" where
  "io_quiet env p \<longleftrightarrow> reads_ok env p \<and> (\<forall>n. io_write env p n = None) \<and> io_open env p = None \<and>
     io_create env p = None \<and> io_sync env p = None \<and> io_chmod env p = None \<and> io_remove env p = None"

lemma io_quietD:
  assumes "io_quiet env p"
  shows "reads_ok env p" "io_write env p n = None" "io_open env p = None" "io_create env p = None"
    "io_sync env p = None" "io_chmod env p = None" "io_remove env p = None"
  using assms by (simp_all add: io_quiet_def)

lemma write_all_quiet: "io_quiet env p \<Longrightarrow> write_all env p w bs = Inr (w @ bs)"
  by (simp add: write_all_def io_quietD)

lemma write_all_Inr: "write_all env p w bs = Inr r \<Longrightarrow> r = w @ bs"
  by (simp add: write_all_def)

lemma seal_quiet: "io_quiet env p \<Longrightarrow> file_at fs p = Some f \<Longrightarrow> seal env p fs = (put_file p (fl_data f) 384 fs, Inr ())"
  by (simp add: seal_def restrict_file_def io_quietD)

lemma to_be_bytes_length [simp]: "length (to_be_bytes n) = 4"
  by (simp add: to_be_bytes_def)

lemma from_to_be_bytes: "n < 2 ^ 32 \<Longrightarrow> from_be_bytes (to_be_bytes n) = n"
proof -
  assume n: "n < 2 ^ 32"
  define a b c where "a = n div 256" and "b = a div 256" and "c = b div 256"
  have "n div 2 ^ 8 = a" "n div 2 ^ 16 = b" "n div 2 ^ 24 = c"
    unfolding a_def b_def c_def by (simp_all add: div_mult2_eq [symmetric])
  moreover have "c < 256" using n unfolding a_def b_def c_def by (simp add: less_mult_imp_div_less)
  moreover have "256 * c + b mod 256 = b" "256 * b + a mod 256 = a" "256 * a + n mod 256 = n"
    unfolding a_def b_def c_def by simp_all
  ultimately show ?thesis by (simp add: to_be_bytes_def from_be_bytes_def)
qed

lemma to_from_be_bytes:
  assumes "length bs = 4" "\<forall>b\<in>set bs. b < 256"
  shows "to_be_bytes (from_be_bytes bs) = bs" "from_be_bytes bs < 2 ^ 32"
proof -
  obtain a b c d where bs: "bs = [a, b, c, d]"
    using assms(1) by (auto simp: numeral_eq_Suc length_Suc_conv)
  have l: "a < 256" "b < 256" "c < 256" "d < 256" using assms(2) unfolding bs by auto
  define x y z where "x = 256 * a + b" and "y = 256 * x + c" and "z = 256 * y + d"
  have n: "from_be_bytes [a, b, c, d] = z" unfolding x_def y_def z_def by (simp add: from_be_bytes_def)
  have dv: "z div 256 = y" "y div 256 = x" "x div 256 = a" "z mod 256 = d" "y mod 256 = c" "x mod 256 = b"
    using l by (simp_all only: z_def y_def x_def div_mult_self4 mod_mult_self4, simp_all)
  have "z div 2 ^ 8 = y" "z div 2 ^ 16 = x" "z div 2 ^ 24 = a"
    using div_mult2_eq [of z 256 256] div_mult2_eq [of z 65536 256] dv by simp_all
  then show "to_be_bytes (from_be_bytes bs) = bs" unfolding bs n using dv l by (simp add: to_be_bytes_def)
  show "from_be_bytes bs < 2 ^ 32" unfolding bs n z_def y_def x_def using l by simp
qed

lemma frame_nonce_length: "length base = NONCE_LEN \<Longrightarrow> length (frame_nonce base n) = NONCE_LEN"
  by (simp add: frame_nonce_def NONCE_LEN_def)

text \<open>Frames of one container never share a nonce.\<close>

lemma frame_nonce_inject: "m < 2 ^ 32 \<Longrightarrow> n < 2 ^ 32 \<Longrightarrow> frame_nonce base m = frame_nonce base n \<longleftrightarrow> m = n"
proof
  assume l: "m < 2 ^ 32" "n < 2 ^ 32" and "frame_nonce base m = frame_nonce base n"
  then have "to_be_bytes m = to_be_bytes n" by (simp add: frame_nonce_def)
  then show "m = n" using from_to_be_bytes [OF l(1)] from_to_be_bytes [OF l(2)] by metis
qed simp

section \<open>Frames\<close>

text \<open>What AES-256-GCM promises for a 32-byte key and a 12-byte nonce: decryption accepts exactly the
  ciphertexts that encryption gives, a ciphertext is the tag longer than its plaintext, and a chunk can always be
  encrypted.\<close>

definition gcm_laws :: "Aes256Gcm \<Rightarrow> bool" where
  "gcm_laws A \<longleftrightarrow> (\<forall>key nonce. length key = ENCRYPTION_KEY_LEN \<longrightarrow> length nonce = NONCE_LEN \<longrightarrow>
     (\<forall>p c. aes_decrypt A key nonce c = Some p \<longleftrightarrow> aes_encrypt A key nonce p = Some c) \<and>
     (\<forall>p c. aes_encrypt A key nonce p = Some c \<longrightarrow> length c = length p + GCM_TAG_LEN) \<and>
     (\<forall>p. length p \<le> STREAM_CHUNK_BYTES \<longrightarrow> aes_encrypt A key nonce p \<noteq> None))"

lemma gcm_lawsD:
  assumes "gcm_laws A" "length key = ENCRYPTION_KEY_LEN" "length base = NONCE_LEN"
  shows "aes_decrypt A key (frame_nonce base n) c = Some p \<longleftrightarrow> aes_encrypt A key (frame_nonce base n) p = Some c"
    "aes_encrypt A key (frame_nonce base n) p = Some c \<Longrightarrow> length c = length p + GCM_TAG_LEN"
    "length p \<le> STREAM_CHUNK_BYTES \<Longrightarrow> \<exists>c. aes_encrypt A key (frame_nonce base n) p = Some c"
  using assms frame_nonce_length [OF assms(3), of n] unfolding gcm_laws_def by blast+

text \<open>The frames of a list of chunks, from a frame number on.\<close>

fun frame_stream :: "Aes256Gcm \<Rightarrow> u8 list \<Rightarrow> u8 list \<Rightarrow> u32 \<Rightarrow> u8 list list \<Rightarrow> u8 list option" where
  "frame_stream A key base n [] = Some []"
| "frame_stream A key base n (c # cs) =
     (case aes_encrypt A key (frame_nonce base n) c of
        None \<Rightarrow> None
      | Some ct \<Rightarrow> map_option (\<lambda>s. to_be_bytes (length ct) @ ct @ s) (frame_stream A key base (n + 1) cs))"

definition chunks_ok :: "u8 list list \<Rightarrow> bool" where
  "chunks_ok cs \<longleftrightarrow> list_all (\<lambda>c. c \<noteq> [] \<and> length c \<le> STREAM_CHUNK_BYTES) cs"

definition chunks_bounded :: "u8 list list \<Rightarrow> bool" where
  "chunks_bounded cs \<longleftrightarrow> list_all (\<lambda>c. length c \<le> STREAM_CHUNK_BYTES) cs"

lemma chunks_bounded_simps [simp]:
  "chunks_bounded []" "chunks_bounded (c # cs) \<longleftrightarrow> length c \<le> STREAM_CHUNK_BYTES \<and> chunks_bounded cs"
  by (simp_all add: chunks_bounded_def)

lemma chunks_ok_bounded: "chunks_ok cs \<longleftrightarrow> chunks_bounded cs \<and> [] \<notin> set cs"
  by (auto simp: chunks_ok_def chunks_bounded_def list_all_iff)

definition container :: "Aes256Gcm \<Rightarrow> u8 list \<Rightarrow> u8 list \<Rightarrow> u8 list list \<Rightarrow> u8 list option" where
  "container A key base cs =
     map_option (\<lambda>s. BACKUP_FILE_MAGIC @ [BACKUP_FILE_VERSION] @ base @ s) (frame_stream A key base 0 cs)"

text \<open>A file in the format: the frames fit the limits of size and number.  A chunk may be empty.\<close>

definition v2_container :: "Aes256Gcm \<Rightarrow> u8 list \<Rightarrow> u8 list \<Rightarrow> u8 list list \<Rightarrow> u8 list \<Rightarrow> bool" where
  "v2_container A key base cs bytes \<longleftrightarrow>
     length base = NONCE_LEN \<and> container A key base cs = Some bytes \<and> chunks_bounded cs \<and> length cs < 2 ^ 32"

lemma encrypt_frames_stream:
  "encrypt_frames A key base env plain out content pos counter written = Inr r \<Longrightarrow> counter < 2 ^ 32 \<Longrightarrow>
   \<exists>cs s. concat cs = drop pos content \<and> chunks_ok cs \<and> counter + length cs < 2 ^ 32 \<and>
     frame_stream A key base counter cs = Some s \<and> r = written @ s"
proof (induction A key base env plain out content pos counter written rule: encrypt_frames.induct)
  case (1 A key base env plain out content pos counter written)
  obtain bs where bs: "read_at env plain content pos STREAM_CHUNK_BYTES = Inr bs"
    using 1(2) by (subst (asm) encrypt_frames.simps) (auto split: sum.splits)
  note rd = read_at_Inr [OF bs]
  show ?case
  proof (cases bs)
    case Nil
    then have "drop pos content = []" using rd by (auto simp: STREAM_CHUNK_BYTES_def)
    moreover have "r = written" using 1(2) bs Nil by (subst (asm) encrypt_frames.simps) (auto dest: write_all_Inr)
    ultimately show ?thesis using 1(3) by (intro exI [of _ "[]"]) (simp add: chunks_ok_def)
  next
    case (Cons b bs')
    then obtain ct w w' where ct: "aes_encrypt A key (frame_nonce base counter) (b # bs') = Some ct" "\<not> 2 ^ 32 \<le> length ct"
      and w: "write_all env out written (to_be_bytes (length ct)) = Inr w" "write_all env out w ct = Inr w'"
      and lim: "\<not> 2 ^ 32 \<le> counter + 1"
      and rec: "encrypt_frames A key base env plain out content (pos + length (b # bs')) (counter + 1) w' = Inr r"
      using 1(2) bs by (subst (asm) encrypt_frames.simps) (auto split: option.splits if_splits)
    have "\<exists>cs s. concat cs = drop (pos + length (b # bs')) content \<and> chunks_ok cs \<and> counter + 1 + length cs < 2 ^ 32 \<and>
        frame_stream A key base (counter + 1) cs = Some s \<and> r = w' @ s"
      by (rule 1(1) [OF bs Cons ct w lim rec]) (use lim in simp)
    then obtain cs s where IH: "concat cs = drop (pos + length (b # bs')) content" "chunks_ok cs" "counter + 1 + length cs < 2 ^ 32"
      "frame_stream A key base (counter + 1) cs = Some s" "r = w' @ s" by blast
    have "(b # bs') @ drop (pos + length (b # bs')) content = drop pos content"
      using rd Cons by (metis prefix_def append_eq_conv_conj drop_drop add.commute)
    then have "concat ((b # bs') # cs) = drop pos content" using IH(1) by simp
    moreover have "chunks_ok ((b # bs') # cs)" using IH(2) rd Cons by (simp add: chunks_ok_def)
    moreover have "r = written @ to_be_bytes (length ct) @ ct @ s" using w IH(5) by (auto dest!: write_all_Inr)
    ultimately show ?thesis using IH(3,4) ct by (intro exI [of _ "(b # bs') # cs"]) simp
  qed
qed


lemma encrypt_frames_total:
  assumes "gcm_laws A" "length key = ENCRYPTION_KEY_LEN" "length base = NONCE_LEN" "io_quiet env out"
    and "\<And>pos. \<exists>n\<ge>g. io_read env plain pos = Inr n" "g \<le> STREAM_CHUNK_BYTES"
  shows "length (drop pos content) \<le> g * (2 ^ 32 - 1 - counter) \<Longrightarrow>
    \<exists>r. encrypt_frames A key base env plain out content pos counter written = Inr r"
proof (induction "length content - pos" arbitrary: pos counter written rule: less_induct)
  case less
  obtain n where n: "g \<le> n" "io_read env plain pos = Inr n" using assms(5) by blast
  define bs where "bs = take (min STREAM_CHUNK_BYTES (max 1 n)) (drop pos content)"
  have rd: "read_at env plain content pos STREAM_CHUNK_BYTES = Inr bs" using n by (simp add: read_at_def bs_def)
  show ?case
  proof (cases bs)
    case Nil
    then show ?thesis using rd by (subst encrypt_frames.simps) (simp add: write_all_quiet [OF assms(4)])
  next
    case (Cons b bs')
    have len: "length bs \<le> length content - pos" "length bs \<le> STREAM_CHUNK_BYTES"
      "length bs = length content - pos \<or> g \<le> length bs"
      using n(1) assms(6) unfolding bs_def by auto
    have pos: "0 < length bs" using Cons by simp
    obtain ct where ct: "aes_encrypt A key (frame_nonce base counter) bs = Some ct"
      using gcm_lawsD(3) [OF assms(1-3) len(2)] by blast
    have small: "\<not> 2 ^ 32 \<le> length ct"
      using gcm_lawsD(2) [OF assms(1-3) ct] len(2) by (simp add: STREAM_CHUNK_BYTES_def GCM_TAG_LEN_def)
    have lim: "\<not> 2 ^ 32 \<le> counter + 1"
      using less(2) len(1) pos by (cases "2 ^ 32 - 1 - counter") auto
    then have "2 ^ 32 - 1 - counter = Suc (2 ^ 32 - 1 - (counter + 1))" by simp
    then have "length content - pos \<le> g + g * (2 ^ 32 - 1 - (counter + 1))" using less(2) by simp
    then have "length (drop (pos + length bs) content) \<le> g * (2 ^ 32 - 1 - (counter + 1))"
      using len(3) unfolding length_drop by (elim disjE) linarith+
    then obtain r where "encrypt_frames A key base env plain out content (pos + length bs) (counter + 1)
        ((written @ to_be_bytes (length ct)) @ ct) = Inr r"
      using less(1) [of "pos + length bs"] len(1) pos by (metis diff_diff_left diff_less less_le_trans)
    then show ?thesis using rd ct small lim Cons by (subst encrypt_frames.simps) (simp add: write_all_quiet [OF assms(4)])
  qed
qed

lemma decrypt_frames_stream:
  assumes "gcm_laws A" "length key = ENCRYPTION_KEY_LEN" "length base = NONCE_LEN" "reads_ok env inp" "io_quiet env out"
  shows "frame_stream A key base counter cs = Some s \<Longrightarrow> drop pos content = s \<Longrightarrow> chunks_bounded cs \<Longrightarrow> counter + length cs < 2 ^ 32 \<Longrightarrow>
    decrypt_frames A key base env inp out content pos counter written = Inr (written @ concat cs)"
proof (induction cs arbitrary: counter s pos written)
  case Nil
  then show ?case by (subst decrypt_frames.simps) (simp add: read_exact_eq [OF assms(4)] write_all_quiet [OF assms(5)])
next
  case (Cons c cs)
  obtain ct s' where ct: "aes_encrypt A key (frame_nonce base counter) c = Some ct"
    and s': "frame_stream A key base (counter + 1) cs = Some s'" "s = to_be_bytes (length ct) @ ct @ s'"
    using Cons.prems(1) by (auto split: option.splits)
  have len: "length ct = length c + 16" using gcm_lawsD(2) [OF assms(1-3) ct] by (simp add: GCM_TAG_LEN_def)
  have c: "length c \<le> 65536" "chunks_bounded cs" using Cons.prems(3) by (simp_all add: STREAM_CHUNK_BYTES_def)
  have fl: "from_be_bytes (to_be_bytes (length ct)) = length ct" using len c by (intro from_to_be_bytes) simp
  have d4: "drop (pos + 4) content = ct @ s'"
    using Cons.prems(2) s'(2) by (metis add.commute append_eq_conv_conj drop_drop to_be_bytes_length)
  have "drop (pos + 4 + length ct) content = s'"
    using d4 by (metis add.commute append_eq_conv_conj drop_drop)
  then have IH: "decrypt_frames A key base env inp out content (pos + 4 + length ct) (counter + 1) (written @ c) =
      Inr ((written @ c) @ concat cs)"
    using Cons.IH [OF s'(1) _ c(2)] Cons.prems(4) by simp
  have dec: "aes_decrypt A key (frame_nonce base counter) ct = Some c" using ct gcm_lawsD(1) [OF assms(1-3)] by blast
  show ?case
    using IH Cons.prems(2,4) s'(2) d4 fl len c dec
    by (subst decrypt_frames.simps)
      (simp add: read_exact_eq [OF assms(4)] write_all_quiet [OF assms(5)] Let_def MAX_FRAME_CIPHERTEXT_def
        STREAM_CHUNK_BYTES_def GCM_TAG_LEN_def)
qed

text \<open>Whatever is accepted is what encryption writes, frame by frame in order.\<close>

lemma decrypt_frames_sound:
  assumes "gcm_laws A" "length key = ENCRYPTION_KEY_LEN" "length base = NONCE_LEN" "\<forall>b\<in>set content. b < 256"
  shows "decrypt_frames A key base env inp out content pos counter written = Inr r \<Longrightarrow> counter < 2 ^ 32 \<Longrightarrow>
    \<exists>cs. frame_stream A key base counter cs = Some (drop pos content) \<and> r = written @ concat cs \<and>
      chunks_bounded cs \<and> counter + length cs < 2 ^ 32"
  using assms(1-4)
proof (induction A key base env inp out content pos counter written rule: decrypt_frames.induct)
  case (1 A key base env inp out content pos counter written)
  obtain len_buf where lb: "read_exact_or_eof env inp content pos 4 [] = Inr len_buf"
    using 1(2) by (subst (asm) decrypt_frames.simps) (auto split: sum.splits)
  have lbt: "len_buf = take 4 (drop pos content)" by (rule read_exact_Inr [OF lb])
  show ?case
  proof (cases "length len_buf = 0")
    case True
    then have "drop pos content = []" using lbt by (cases "drop pos content") auto
    moreover have "r = written"
      using 1(2) lb True by (subst (asm) decrypt_frames.simps) (auto dest: write_all_Inr)
    ultimately show ?thesis using 1(3) by (intro exI [of _ "[]"]) simp
  next
    case False
    define n where "n = from_be_bytes len_buf"
    from 1(2) lb False obtain ct p w where l4: "length len_buf = 4" and n: "\<not> (n = 0 \<or> MAX_FRAME_CIPHERTEXT < n)"
      and ct: "read_exact_or_eof env inp content (pos + 4) n [] = Inr ct" "length ct = n"
      and p: "aes_decrypt A key (frame_nonce base counter) ct = Some p" and w: "write_all env out written p = Inr w"
      and lim: "\<not> 2 ^ 32 \<le> counter + 1"
      and rec: "decrypt_frames A key base env inp out content (pos + 4 + n) (counter + 1) w = Inr r"
      unfolding n_def
      by (subst (asm) decrypt_frames.simps) (auto simp: Let_def split: sum.splits option.splits if_splits)
    have "\<exists>cs. frame_stream A key base (counter + 1) cs = Some (drop (pos + 4 + n) content) \<and> r = w @ concat cs \<and>
        chunks_bounded cs \<and> counter + 1 + length cs < 2 ^ 32"
      by (rule 1(1) [OF lb False _ n_def n ct(1) _ p w lim rec _ 1(4-7)]) (use l4 ct(2) lim in simp_all)
    then obtain cs where cs: "frame_stream A key base (counter + 1) cs = Some (drop (pos + 4 + n) content)" "r = w @ concat cs"
      "chunks_bounded cs" "counter + 1 + length cs < 2 ^ 32" by blast
    have "to_be_bytes n = len_buf"
      unfolding n_def using l4 1(7) lbt by (intro to_from_be_bytes(1)) (auto dest!: in_set_takeD in_set_dropD)
    moreover have "ct = take n (drop (pos + 4) content)" by (rule read_exact_Inr [OF ct(1)])
    ultimately have "to_be_bytes n @ ct @ drop (pos + 4 + n) content = drop pos content"
      using lbt by (metis append_take_drop_id drop_drop add.commute)
    moreover have enc: "aes_encrypt A key (frame_nonce base counter) p = Some ct" using p gcm_lawsD(1) [OF 1(4-6)] by blast
    moreover have "length p \<le> STREAM_CHUNK_BYTES"
      using gcm_lawsD(2) [OF 1(4-6) enc] n ct(2) by (simp add: MAX_FRAME_CIPHERTEXT_def)
    ultimately show ?thesis
      using cs w ct(2) by (intro exI [of _ "p # cs"]) (auto dest: write_all_Inr)
  qed
qed


text \<open>A stream of frames that is cut: it ends between two frames, or it is refused.\<close>

lemma decrypt_frames_cut:
  assumes "gcm_laws A" "length key = ENCRYPTION_KEY_LEN" "length base = NONCE_LEN" "reads_ok env inp" "io_quiet env out"
  shows "frame_stream A key base counter cs = Some s \<Longrightarrow> prefix (drop pos content) s \<Longrightarrow> chunks_bounded cs \<Longrightarrow>
    counter + length cs < 2 ^ 32 \<Longrightarrow>
    (\<exists>m\<le>length cs. frame_stream A key base counter (take m cs) = Some (drop pos content)) \<or>
    (\<exists>msg. decrypt_frames A key base env inp out content pos counter written = Inl (CorruptBackup msg))"
proof (induction cs arbitrary: counter s pos written)
  case (Cons c cs)
  let ?d = "drop pos content"
  obtain ct s' where ct: "aes_encrypt A key (frame_nonce base counter) c = Some ct"
    and s': "frame_stream A key base (counter + 1) cs = Some s'" "s = to_be_bytes (length ct) @ ct @ s'"
    using Cons.prems(1) by (auto split: option.splits)
  have len: "length ct = length c + 16" using gcm_lawsD(2) [OF assms(1-3) ct] by (simp add: GCM_TAG_LEN_def)
  have c: "length c \<le> 65536" "chunks_bounded cs" using Cons.prems(3) by (simp_all add: STREAM_CHUNK_BYTES_def)
  have fl: "from_be_bytes (to_be_bytes (length ct)) = length ct" using len c by (intro from_to_be_bytes) simp
  have dec: "aes_decrypt A key (frame_nonce base counter) ct = Some c" using ct gcm_lawsD(1) [OF assms(1-3)] by blast
  note simps = read_exact_eq [OF assms(4)] write_all_quiet [OF assms(5)] Let_def MAX_FRAME_CIPHERTEXT_def
    STREAM_CHUNK_BYTES_def GCM_TAG_LEN_def
  obtain z where z: "to_be_bytes (length ct) @ ct @ s' = ?d @ z" using Cons.prems(2) s'(2) by (auto simp: prefix_def)
  consider "?d = []" | "?d \<noteq> []" "length ?d < 4" | "4 \<le> length ?d" "length ?d < 4 + length ct" | "4 + length ct \<le> length ?d" by linarith
  then show ?case
  proof cases
    case 1
    then show ?thesis by (intro disjI1 exI [of _ 0]) simp
  next
    case 2
    then have "decrypt_frames A key base env inp out content pos counter written = Inl (CorruptBackup ''truncated frame length prefix'')"
      by (subst decrypt_frames.simps) (simp add: simps)
    then show ?thesis by blast
  next
    case 3
    have "take 4 ?d = to_be_bytes (length ct)" using z 3(1) by (metis append_eq_append_conv_if append_eq_conv_conj to_be_bytes_length)
    moreover have "length (drop (pos + 4) content) < length ct" using 3 by simp
    ultimately have "decrypt_frames A key base env inp out content pos counter written = Inl (CorruptBackup ''truncated frame payload'')"
      using 3 fl len c by (subst decrypt_frames.simps) (simp add: simps)
    then show ?thesis by blast
  next
    case 4
    have d: "?d = (to_be_bytes (length ct) @ ct) @ drop (4 + length ct) ?d" "prefix (drop (4 + length ct) ?d) s'"
    proof -
      have "take (4 + length ct) (?d @ z) = to_be_bytes (length ct) @ ct" using z by (metis append.assoc append_eq_conv_conj length_append to_be_bytes_length)
      then have t: "take (4 + length ct) ?d = to_be_bytes (length ct) @ ct" using 4 by simp
      then show "?d = (to_be_bytes (length ct) @ ct) @ drop (4 + length ct) ?d" by (metis append_take_drop_id)
      then have "s' = drop (4 + length ct) ?d @ z" using z by (metis append.assoc same_append_eq)
      then show "prefix (drop (4 + length ct) ?d) s'" by simp
    qed
    have pos: "drop (4 + length ct) ?d = drop (pos + 4 + length ct) content" by (simp add: add.commute add.left_commute)
    have t4: "take 4 ?d = to_be_bytes (length ct)" using d(1) by (metis append.assoc append_eq_conv_conj to_be_bytes_length)
    have "drop 4 ?d = ct @ drop (4 + length ct) ?d" using d(1) by (metis append.assoc append_eq_conv_conj to_be_bytes_length)
    then have tct: "take (length ct) (drop (pos + 4) content) = ct" by (simp add: add.commute)
    have IH: "(\<exists>m\<le>length cs. frame_stream A key base (counter + 1) (take m cs) = Some (drop (pos + 4 + length ct) content)) \<or>
        (\<exists>msg. decrypt_frames A key base env inp out content (pos + 4 + length ct) (counter + 1) (written @ c) = Inl (CorruptBackup msg))"
      by (rule Cons.IH [OF s'(1) _ c(2)]) (use d(2) pos Cons.prems(4) in simp_all)
    then show ?thesis
    proof
      assume "\<exists>m\<le>length cs. frame_stream A key base (counter + 1) (take m cs) = Some (drop (pos + 4 + length ct) content)"
      then obtain m where "m \<le> length cs" "frame_stream A key base (counter + 1) (take m cs) = Some (drop (pos + 4 + length ct) content)" by blast
      then show ?thesis using ct d(1) pos by (intro disjI1 exI [of _ "Suc m"]) simp
    next
      assume "\<exists>msg. decrypt_frames A key base env inp out content (pos + 4 + length ct) (counter + 1) (written @ c) = Inl (CorruptBackup msg)"
      moreover have "decrypt_frames A key base env inp out content pos counter written =
          decrypt_frames A key base env inp out content (pos + 4 + length ct) (counter + 1) (written @ c)"
        using 4 t4 tct fl len c dec Cons.prems(4) by (subst decrypt_frames.simps) (simp add: simps)
      ultimately show ?thesis by simp
    qed
  qed
qed simp

text \<open>Encryption gives back a stream of frames when the reads return its chunks.\<close>

fun chunk_len :: "u8 list list \<Rightarrow> nat \<Rightarrow> nat" where
  "chunk_len [] pos = 0"
| "chunk_len (c # cs) pos = (if pos < length c then length c - pos else chunk_len cs (pos - length c))"

lemma chunk_len_at: "c \<noteq> [] \<Longrightarrow> chunk_len (pre @ c # cs) (length (concat pre)) = length c"
  by (induction pre) simp_all

lemma encrypt_frames_chunks:
  assumes "gcm_laws A" "length key = ENCRYPTION_KEY_LEN" "length base = NONCE_LEN" "io_quiet env out"
    and "\<And>pos. io_read env plain pos = Inr (chunk_len all pos)"
  shows "frame_stream A key base counter cs = Some s \<Longrightarrow> all = pre @ cs \<Longrightarrow> chunks_ok cs \<Longrightarrow> counter + length cs < 2 ^ 32 \<Longrightarrow>
    encrypt_frames A key base env plain out (concat all) (length (concat pre)) counter written = Inr (written @ s)"
proof (induction cs arbitrary: counter s pre written)
  case Nil
  then show ?case
    by (subst encrypt_frames.simps) (simp add: read_at_def assms(5) write_all_quiet [OF assms(4)])
next
  case (Cons c cs)
  obtain ct s' where ct: "aes_encrypt A key (frame_nonce base counter) c = Some ct"
    and s': "frame_stream A key base (counter + 1) cs = Some s'" "s = to_be_bytes (length ct) @ ct @ s'"
    using Cons.prems(1) by (auto split: option.splits)
  have c: "c \<noteq> []" "length c \<le> STREAM_CHUNK_BYTES" "chunks_ok cs" using Cons.prems(3) by (simp_all add: chunks_ok_def)
  have small: "\<not> 2 ^ 32 \<le> length ct"
    using gcm_lawsD(2) [OF assms(1-3) ct] c(2) by (simp add: STREAM_CHUNK_BYTES_def GCM_TAG_LEN_def)
  have "min STREAM_CHUNK_BYTES (max 1 (length c)) = length c" using c by (cases c) (simp_all add: min_def)
  then have rd: "read_at env plain (concat all) (length (concat pre)) STREAM_CHUNK_BYTES = Inr c"
    using Cons.prems(2) by (simp add: read_at_def assms(5) chunk_len_at [OF c(1)])
  have "encrypt_frames A key base env plain out (concat all) (length (concat (pre @ [c]))) (counter + 1)
      ((written @ to_be_bytes (length ct)) @ ct) = Inr (((written @ to_be_bytes (length ct)) @ ct) @ s')"
    by (rule Cons.IH [OF s'(1) _ c(3)]) (use Cons.prems(2,4) in simp_all)
  then show ?case
    using rd ct small s'(2) Cons.prems(4) c(1) by (subst encrypt_frames.simps) (cases c; simp add: write_all_quiet [OF assms(4)])
qed

section \<open>Whole files\<close>

lemma read_key_quiet:
  assumes "io_quiet env p" "file_at fs p = Some k" "length (fl_data k) = ENCRYPTION_KEY_LEN"
  shows "read_key env fs p = Inr (fl_data k)"
  using assms by (simp add: read_key_def open_file_def io_quietD read_exact_eq)

lemma read_key_Inr:
  assumes "read_key env fs p = Inr key"
  shows "\<exists>k. file_at fs p = Some k \<and> key = fl_data k \<and> length key = ENCRYPTION_KEY_LEN"
proof -
  obtain k where k: "file_at fs p = Some k" "read_exact_or_eof env p (fl_data k) 0 (ENCRYPTION_KEY_LEN + 1) [] = Inr key"
    and len: "length key = ENCRYPTION_KEY_LEN"
    using assms by (auto simp: read_key_def open_file_def split: option.splits if_splits)
  have "key = take (ENCRYPTION_KEY_LEN + 1) (fl_data k)" using read_exact_Inr [OF k(2)] by simp
  then have "key = fl_data k" using len by (cases "length (fl_data k) \<le> ENCRYPTION_KEY_LEN + 1") auto
  then show ?thesis using k len by blast
qed

text \<open>The conditions under which a file can be encrypted: the key and the plaintext exist, the
  output does not, no call fails, and every read returns at least \<open>g\<close> bytes or all that is left, so that
  the frame counter suffices.\<close>

definition can_encrypt :: "Aes256Gcm \<Rightarrow> u8 list \<Rightarrow> IoEnv \<Rightarrow> nat \<Rightarrow> path \<Rightarrow> path \<Rightarrow> path \<Rightarrow> Fs \<Rightarrow> bool" where
  "can_encrypt A base env g plain out key_path fs \<longleftrightarrow>
     gcm_laws A \<and> length base = NONCE_LEN \<and> io_quiet env key_path \<and> io_quiet env out \<and> io_open env plain = None \<and>
     (\<forall>pos. \<exists>n\<ge>g. io_read env plain pos = Inr n) \<and> g \<le> STREAM_CHUNK_BYTES \<and> \<not> file_exists fs out \<and>
     (\<exists>k. file_at fs key_path = Some k \<and> length (fl_data k) = ENCRYPTION_KEY_LEN) \<and>
     (\<exists>f. file_at fs plain = Some f \<and> length (fl_data f) \<le> g * (2 ^ 32 - 1))"

lemma encrypt_file_container:
  assumes "can_encrypt A base env g plain out key_path fs" "file_at fs plain = Some f" "file_at fs key_path = Some k"
  shows "\<exists>cs b. container A (fl_data k) base cs = Some b \<and> concat cs = fl_data f \<and> chunks_ok cs \<and> length cs < 2 ^ 32 \<and>
    encrypt_file A (Inr base) env plain out key_path fs = (put_file out b 384 fs, Inr ())"
proof -
  have A: "gcm_laws A" "length base = NONCE_LEN" "io_quiet env key_path" "io_quiet env out" "io_open env plain = None"
    "\<And>pos. \<exists>n\<ge>g. io_read env plain pos = Inr n" "g \<le> STREAM_CHUNK_BYTES" "\<not> file_exists fs out"
    and k: "length (fl_data k) = ENCRYPTION_KEY_LEN" and f: "length (fl_data f) \<le> g * (2 ^ 32 - 1)"
    using assms by (auto simp: can_encrypt_def)
  let ?h = "BACKUP_FILE_MAGIC @ [BACKUP_FILE_VERSION] @ base"
  obtain r where r: "encrypt_frames A (fl_data k) base env plain out (fl_data f) 0 0 ?h = Inr r"
    using encrypt_frames_total [OF A(1) k A(2,4,6,7), of 0 "fl_data f" 0] f by auto
  then obtain cs s where cs: "concat cs = fl_data f" "chunks_ok cs" "length cs < 2 ^ 32"
    "frame_stream A (fl_data k) base 0 cs = Some s" "r = ?h @ s"
    using encrypt_frames_stream [OF r] by auto
  have "encrypt_file A (Inr base) env plain out key_path fs = (put_file out r 384 fs, Inr ())"
    using r A(8) by (simp add: encrypt_file_def read_key_quiet [OF A(3) assms(3) k] open_file_def assms(2) A(5) create_new_def
        io_quietD [OF A(4)] write_all_quiet [OF A(4)] finish_output_def seal_quiet [OF A(4)])
  then show ?thesis using cs by (auto simp: container_def)
qed

lemma decrypt_container:
  assumes "gcm_laws A" "length base = NONCE_LEN" "io_quiet env key_path" "io_quiet env enc" "io_quiet env out"
    and "file_at fs key_path = Some k" "length (fl_data k) = ENCRYPTION_KEY_LEN"
    and "file_at fs enc = Some e" "container A (fl_data k) base cs = Some (fl_data e)" "chunks_bounded cs" "length cs < 2 ^ 32"
  shows "decrypt_to A env enc key_path out fs = (put_file out (concat cs) 384 fs, Inr ())"
proof -
  obtain s where s: "frame_stream A (fl_data k) base 0 cs = Some s"
    and e: "fl_data e = BACKUP_FILE_MAGIC @ [BACKUP_FILE_VERSION] @ base @ s"
    using assms(9) by (auto simp: container_def)
  note rd = read_exact_eq [OF io_quietD(1) [OF assms(4)]]
  have m: "length BACKUP_FILE_MAGIC = 8" by (simp add: BACKUP_FILE_MAGIC_def)
  have d: "drop 8 (fl_data e) = BACKUP_FILE_VERSION # base @ s" "drop 9 (fl_data e) = base @ s"
    "drop (9 + NONCE_LEN) (fl_data e) = s" "take 8 (fl_data e) = BACKUP_FILE_MAGIC"
    unfolding e using m assms(2) by simp_all
  have fr: "decrypt_frames A (fl_data k) base env enc out (fl_data e) (9 + NONCE_LEN) 0 [] = Inr (concat cs)"
    using decrypt_frames_stream [OF assms(1,7,2) io_quietD(1) [OF assms(4)] assms(5) s d(3) assms(10)] assms(11) by simp
  have "BACKUP_FILE_VERSION \<noteq> BACKUP_FILE_VERSION_V1" by (simp add: BACKUP_FILE_VERSION_def BACKUP_FILE_VERSION_V1_def)
  then show ?thesis
    using fr m d assms(2)
    by (simp add: decrypt_to_def read_key_quiet [OF assms(3,6,7)] open_file_def assms(8) io_quietD [OF assms(4)] rd
        decrypt_v2_body_def io_quietD [OF assms(5)] finish_output_def seal_quiet [OF assms(5)])
qed

lemma frame_stream_take:
  "frame_stream A key base n cs = Some s \<Longrightarrow> m < length cs \<Longrightarrow> \<exists>s'. frame_stream A key base n (take m cs) = Some s' \<and> strict_prefix s' s"
proof (induction cs arbitrary: n s m)
  case (Cons c cs)
  show ?case
  proof (cases m)
    case 0
    then show ?thesis using Cons.prems(1) by (auto simp: to_be_bytes_def split: option.splits)
  next
    case (Suc m')
    obtain ct r where ct: "aes_encrypt A key (frame_nonce base n) c = Some ct" "frame_stream A key base (n + 1) cs = Some r"
      "s = to_be_bytes (length ct) @ ct @ r" using Cons.prems(1) by (auto split: option.splits)
    obtain r' where "frame_stream A key base (n + 1) (take m' cs) = Some r'" "strict_prefix r' r"
      using Cons.IH [OF ct(2)] Cons.prems(2) Suc by auto
    then show ?thesis using Suc ct by (simp add: strict_prefix_def)
  qed
qed simp

lemma container_take:
  assumes "container A key base cs = Some b" "m < length cs"
  shows "\<exists>b'. container A key base (take m cs) = Some b' \<and> strict_prefix b' b"
proof -
  obtain s where s: "frame_stream A key base 0 cs = Some s" "b = BACKUP_FILE_MAGIC @ [BACKUP_FILE_VERSION] @ base @ s"
    using assms(1) by (auto simp: container_def)
  obtain s' where "frame_stream A key base 0 (take m cs) = Some s'" "strict_prefix s' s"
    using frame_stream_take [OF s(1) assms(2)] by blast
  then show ?thesis using s(2) by (simp add: container_def strict_prefix_def)
qed

lemma container_split:
  assumes "container A key base cs = Some b" "length base = NONCE_LEN"
  obtains s where "frame_stream A key base 0 cs = Some s" "b = BACKUP_FILE_MAGIC @ BACKUP_FILE_VERSION # base @ s"
    "take 8 b = BACKUP_FILE_MAGIC" "drop 8 b = BACKUP_FILE_VERSION # base @ s" "drop 9 b = base @ s"
proof -
  obtain s where "frame_stream A key base 0 cs = Some s" "b = BACKUP_FILE_MAGIC @ BACKUP_FILE_VERSION # base @ s"
    using assms(1) by (auto simp: container_def)
  then show thesis using that by (simp add: BACKUP_FILE_MAGIC_def)
qed

lemma decrypt_cut:
  assumes "gcm_laws A" "length base = NONCE_LEN" "io_quiet env key_path" "io_quiet env enc" "io_quiet env out"
    and "file_at fs key_path = Some k" "length (fl_data k) = ENCRYPTION_KEY_LEN"
    and "file_at fs enc = Some e" "container A (fl_data k) base cs = Some b" "prefix (fl_data e) b" "chunks_bounded cs" "length cs < 2 ^ 32"
  shows "(\<exists>m\<le>length cs. container A (fl_data k) base (take m cs) = Some (fl_data e)) \<or>
    (\<exists>msg fs'. decrypt_to A env enc key_path out fs = (fs', Inl (CorruptBackup msg)) \<and> (file_at fs' out = None \<or> fs' = fs))"
proof -
  obtain s where s: "frame_stream A (fl_data k) base 0 cs = Some s" and b: "b = BACKUP_FILE_MAGIC @ BACKUP_FILE_VERSION # base @ s"
    using container_split [OF assms(9,2)] by blast
  note rd = read_exact_eq [OF io_quietD(1) [OF assms(4)]]
  note start = decrypt_to_def read_key_quiet [OF assms(3,6,7)] open_file_def assms(8) io_quietD [OF assms(4)] rd
  have m: "length BACKUP_FILE_MAGIC = 8" by (simp add: BACKUP_FILE_MAGIC_def)
  have v: "BACKUP_FILE_VERSION \<noteq> BACKUP_FILE_VERSION_V1" by (simp add: BACKUP_FILE_VERSION_def BACKUP_FILE_VERSION_V1_def)
  obtain z where z: "BACKUP_FILE_MAGIC @ BACKUP_FILE_VERSION # base @ s = fl_data e @ z" using assms(10) b by (auto simp: prefix_def)
  consider "length (fl_data e) < 8" | "length (fl_data e) = 8" | "8 < length (fl_data e)" "length (fl_data e) < 9 + NONCE_LEN"
    | "9 + NONCE_LEN \<le> length (fl_data e)" by linarith
  then show ?thesis
  proof cases
    case 1
    then show ?thesis by (simp add: start)
  next
    case 2
    then show ?thesis using m by (simp add: start)
  next
    case 3
    have "take 8 (fl_data e) = BACKUP_FILE_MAGIC" "take 1 (drop 8 (fl_data e)) = [BACKUP_FILE_VERSION]"
    proof -
      have "take 8 (fl_data e @ z) = BACKUP_FILE_MAGIC" "take 1 (drop 8 (fl_data e @ z)) = [BACKUP_FILE_VERSION]"
        unfolding z [symmetric] using m by simp_all
      then show "take 8 (fl_data e) = BACKUP_FILE_MAGIC" "take 1 (drop 8 (fl_data e)) = [BACKUP_FILE_VERSION]" using 3(1) by simp_all
    qed
    moreover have "length (fl_data e) - 9 \<noteq> NONCE_LEN" using 3 by linarith
    ultimately show ?thesis using 3(2) v m by (simp add: start decrypt_v2_body_def)
  next
    case 4
    let ?h = "BACKUP_FILE_MAGIC @ BACKUP_FILE_VERSION # base"
    have "take (9 + NONCE_LEN) (fl_data e @ z) = ?h" unfolding z [symmetric] using m assms(2) by simp
    then have "take (9 + NONCE_LEN) (fl_data e) = ?h" using 4 by simp
    then have e: "fl_data e = ?h @ drop (9 + NONCE_LEN) (fl_data e)" (is "_ = _ @ ?s") by (metis append_take_drop_id)
    then have "(?h @ ?s) @ z = ?h @ s" using z by simp
    then have pre: "prefix ?s s" by (metis append.assoc prefixI same_append_eq)
    have d: "take 8 (fl_data e) = BACKUP_FILE_MAGIC" "take 1 (drop 8 (fl_data e)) = [BACKUP_FILE_VERSION]"
      "take NONCE_LEN (drop 9 (fl_data e)) = base"
      using m assms(2) by (subst e; simp)+
    have "(\<exists>m\<le>length cs. frame_stream A (fl_data k) base 0 (take m cs) = Some ?s) \<or>
        (\<exists>msg. decrypt_frames A (fl_data k) base env enc out (fl_data e) (9 + NONCE_LEN) 0 [] = Inl (CorruptBackup msg))"
      using decrypt_frames_cut [OF assms(1,7,2) io_quietD(1) [OF assms(4)] assms(5) s pre assms(11)] assms(12) by simp
    then show ?thesis
    proof
      assume "\<exists>m\<le>length cs. frame_stream A (fl_data k) base 0 (take m cs) = Some ?s"
      then show ?thesis using e by (auto simp: container_def)
    next
      assume "\<exists>msg. decrypt_frames A (fl_data k) base env enc out (fl_data e) (9 + NONCE_LEN) 0 [] = Inl (CorruptBackup msg)"
      then show ?thesis using d v m assms(2)
        by (auto simp: start decrypt_v2_body_def io_quietD [OF assms(5)] finish_output_def remove_file_def)
    qed
  qed
qed

text \<open>Reads of the plaintext that return the given chunks, and nothing in the way of writing the output.\<close>

definition reads_chunks :: "IoEnv \<Rightarrow> path \<Rightarrow> path \<Rightarrow> path \<Rightarrow> Fs \<Rightarrow> u8 list list \<Rightarrow> bool" where
  "reads_chunks env plain out key_path fs cs \<longleftrightarrow>
     map_option fl_data (file_at fs plain) = Some (concat cs) \<and> \<not> file_exists fs out \<and> io_open env plain = None \<and>
     (\<forall>pos. io_read env plain pos = Inr (chunk_len cs pos)) \<and> io_quiet env key_path \<and> io_quiet env out"

lemma encrypt_chunks:
  assumes "gcm_laws A" "v2_container A (fl_data k) base cs b" "[] \<notin> set cs" "length (fl_data k) = ENCRYPTION_KEY_LEN"
    and "file_at fs key_path = Some k" "reads_chunks env plain out key_path fs cs"
  shows "encrypt_file A (Inr base) env plain out key_path fs = (put_file out b 384 fs, Inr ())"
proof -
  have v: "length base = NONCE_LEN" "chunks_ok cs" "length cs < 2 ^ 32" "container A (fl_data k) base cs = Some b"
    using assms(2,3) by (simp_all add: v2_container_def chunks_ok_bounded)
  obtain s where s: "frame_stream A (fl_data k) base 0 cs = Some s" "b = BACKUP_FILE_MAGIC @ BACKUP_FILE_VERSION # base @ s"
    using container_split [OF v(4,1)] by blast
  obtain f where f: "file_at fs plain = Some f" "fl_data f = concat cs"
    and q: "\<not> file_exists fs out" "io_open env plain = None" "\<And>pos. io_read env plain pos = Inr (chunk_len cs pos)"
      "io_quiet env key_path" "io_quiet env out"
    using assms(6) by (auto simp: reads_chunks_def)
  have "encrypt_frames A (fl_data k) base env plain out (concat cs) 0 0 w = Inr (w @ s)" for w
    using encrypt_frames_chunks [OF assms(1,4) v(1) q(5,3) s(1), of "[]" w] v(2,3) by simp
  then show ?thesis
    by (simp add: encrypt_file_def read_key_quiet [OF q(4) assms(5,4)] open_file_def f q(1,2) create_new_def
        io_quietD [OF q(5)] write_all_quiet [OF q(5)] finish_output_def seal_quiet [OF q(5)] s(2))
qed

lemma finish_output_Inr:
  assumes "finish_output env out fs result = (fs', Inr ())"
  shows "\<exists>bytes. result = Inr bytes \<and> fs' = put_file out bytes 384 fs"
  using assms by (auto simp: finish_output_def seal_def restrict_file_def split: sum.splits option.splits if_splits)

lemma split_at: "take n xs = ys \<Longrightarrow> drop n xs = zs \<Longrightarrow> xs = ys @ zs"
  by (metis append_take_drop_id)

lemma decrypt_v2_Inr:
  assumes "gcm_laws A" "length key = ENCRYPTION_KEY_LEN" "\<forall>b\<in>set content. b < 256"
    and "decrypt_v2_body A key env inp out content pos fs = (fs', Inr ())"
  shows "\<exists>base cs s. length base = NONCE_LEN \<and> frame_stream A key base 0 cs = Some s \<and> drop pos content = base @ s \<and>
    chunks_bounded cs \<and> length cs < 2 ^ 32 \<and> fs' = put_file out (concat cs) 384 fs"
proof -
  obtain base where base: "read_exact_or_eof env inp content pos NONCE_LEN [] = Inr base" "length base = NONCE_LEN"
    and fin: "finish_output env out (put_file out [] (io_umask_mode env) fs)
      (decrypt_frames A key base env inp out content (pos + NONCE_LEN) 0 []) = (fs', Inr ())"
    using assms(4) by (auto simp: decrypt_v2_body_def split: sum.splits if_splits option.splits)
  from finish_output_Inr [OF fin] obtain r where r: "decrypt_frames A key base env inp out content (pos + NONCE_LEN) 0 [] = Inr r"
    "fs' = put_file out r 384 fs" by auto
  from decrypt_frames_sound [OF assms(1,2) base(2) assms(3) r(1)]
  obtain cs where "frame_stream A key base 0 cs = Some (drop (pos + NONCE_LEN) content)" "r = concat cs"
    "chunks_bounded cs" "length cs < 2 ^ 32" by auto
  moreover have "drop pos content = base @ drop (pos + NONCE_LEN) content"
    by (rule split_at) (use read_exact_Inr [OF base(1)] in \<open>simp_all add: add.commute\<close>)
  ultimately show ?thesis using base(2) r(2) by blast
qed

lemma decrypt_to_v2:
  assumes "decrypt_to A env enc key_path out fs = (fs', Inr ())" "file_at fs enc = Some e" "fl_data e ! 8 = BACKUP_FILE_VERSION"
  shows "\<exists>key. read_key env fs key_path = Inr key \<and> take 9 (fl_data e) = BACKUP_FILE_MAGIC @ [BACKUP_FILE_VERSION] \<and>
    decrypt_v2_body A key env enc out (fl_data e) 9 fs = (fs', Inr ())"
proof -
  obtain key magic version where key: "read_key env fs key_path = Inr key"
    and magic: "read_exact_or_eof env enc (fl_data e) 0 8 [] = Inr magic" "magic = BACKUP_FILE_MAGIC"
    and version: "read_exact_or_eof env enc (fl_data e) 8 1 [] = Inr version" "length version = 1"
    and body: "(if hd version = BACKUP_FILE_VERSION_V1 then decrypt_v1_body A key env enc out (fl_data e) 9 fs
       else if hd version = BACKUP_FILE_VERSION then decrypt_v2_body A key env enc out (fl_data e) 9 fs
       else (fs, Inl (CorruptBackup (''unsupported backup file version '' @ show_nat (hd version))))) = (fs', Inr ())"
    using assms(1,2) by (auto simp: decrypt_to_def open_file_def split: sum.splits if_splits option.splits)
  have v: "version = take 1 (drop 8 (fl_data e))" by (rule read_exact_Inr [OF version(1)])
  then have l: "8 < length (fl_data e)" using version(2) by auto
  then have hd: "version = [BACKUP_FILE_VERSION]" using v assms(3) by (simp add: take_Suc hd_drop_conv_nth)
  have "take 9 (fl_data e) = take 8 (fl_data e) @ version" using v take_add [of 8 1 "fl_data e"] by simp
  moreover have "take 8 (fl_data e) = BACKUP_FILE_MAGIC" using read_exact_Inr [OF magic(1)] magic(2) by simp
  ultimately show ?thesis
    using key body hd by (auto simp: BACKUP_FILE_VERSION_def BACKUP_FILE_VERSION_V1_def)
qed

section \<open>Properties\<close>

text \<open>C14: A backup file that is encrypted and decrypted with the same key comes back byte for byte, and owner-only, whatever
  the sizes of the reads on either side.\<close>
theorem encrypted_backup_round_trip:
  assumes "can_encrypt A base env g plain out key_path fs"
    and "io_quiet env' key_path" "io_quiet env' out" "io_quiet env' dst"
  shows "\<exists>fs'. encrypt_file A (Inr base) env plain out key_path fs = (fs', Inr ()) \<and>
    (\<exists>fs''. decrypt_to A env' out key_path dst fs' = (fs'', Inr ()) \<and>
      file_at fs'' dst = Some \<lparr>fl_data = fl_data (the (file_at fs plain)), fl_mode = 384\<rparr>)"
proof -
  obtain k f where k: "file_at fs key_path = Some k" "length (fl_data k) = ENCRYPTION_KEY_LEN" and f: "file_at fs plain = Some f"
    and A: "gcm_laws A" "length base = NONCE_LEN" "\<not> file_exists fs out"
    using assms(1) by (auto simp: can_encrypt_def)
  obtain cs b where b: "container A (fl_data k) base cs = Some b" "concat cs = fl_data f" "chunks_ok cs" "length cs < 2 ^ 32"
    and enc: "encrypt_file A (Inr base) env plain out key_path fs = (put_file out b 384 fs, Inr ())"
    using encrypt_file_container [OF assms(1) f k(1)] by blast
  have "key_path \<noteq> out" using A(3) k(1) by (auto simp: file_exists_def)
  then have "decrypt_to A env' out key_path dst (put_file out b 384 fs) =
      (put_file dst (concat cs) 384 (put_file out b 384 fs), Inr ())"
    using k b by (intro decrypt_container [OF A(1,2) assms(2,3,4)]) (auto simp: chunks_ok_bounded)
  then show ?thesis using enc b(2) f by simp
qed

text \<open>C36: What decryption of a version 2 file accepts.  If it succeeds, the file is the header followed by frames that are
  authentic under the key, in order, fewer than \<open>2 ^ 32\<close> of them and none longer than a chunk of 64 KiB allows, and the output is
  their plaintext, owner-only.  Every such file is accepted when no file operation fails.  And if none of its chunks is empty, it is byte
  for byte what encryption writes for the decrypted bytes under the same key and base nonce, when the reads return those
  chunks; an authentic empty frame is accepted although encryption never writes one.\<close>
theorem accepted_container_authentic:
  assumes "gcm_laws A" "file_at fs enc = Some e" "\<forall>b\<in>set (fl_data e). b < 256" "fl_data e ! 8 = BACKUP_FILE_VERSION"
  shows "(\<forall>fs'. decrypt_to A env enc key_path out fs = (fs', Inr ()) \<longrightarrow>
      (\<exists>k base cs. file_at fs key_path = Some k \<and> length (fl_data k) = ENCRYPTION_KEY_LEN \<and>
         v2_container A (fl_data k) base cs (fl_data e) \<and> fs' = put_file out (concat cs) 384 fs)) \<and>
    (\<forall>k base cs. length (fl_data k) = ENCRYPTION_KEY_LEN \<and> v2_container A (fl_data k) base cs (fl_data e) \<longrightarrow>
      (file_at fs key_path = Some k \<and> io_quiet env key_path \<and> io_quiet env enc \<and> io_quiet env out \<longrightarrow>
         decrypt_to A env enc key_path out fs = (put_file out (concat cs) 384 fs, Inr ())) \<and>
      (\<forall>env' plain out' key' fs'. [] \<notin> set cs \<and> file_at fs' key' = Some k \<and> reads_chunks env' plain out' key' fs' cs \<longrightarrow>
         encrypt_file A (Inr base) env' plain out' key' fs' = (put_file out' (fl_data e) 384 fs', Inr ())))"
proof (intro conjI allI impI; (elim conjE)?)
  fix fs' assume "decrypt_to A env enc key_path out fs = (fs', Inr ())"
  then obtain key where key: "read_key env fs key_path = Inr key" "take 9 (fl_data e) = BACKUP_FILE_MAGIC @ [BACKUP_FILE_VERSION]"
    "decrypt_v2_body A key env enc out (fl_data e) 9 fs = (fs', Inr ())"
    using decrypt_to_v2 [OF _ assms(2,4)] by blast
  obtain k where k: "file_at fs key_path = Some k" "key = fl_data k" "length key = ENCRYPTION_KEY_LEN"
    using read_key_Inr [OF key(1)] by blast
  obtain base cs s where cs: "length base = NONCE_LEN" "frame_stream A key base 0 cs = Some s" "drop 9 (fl_data e) = base @ s"
    "chunks_bounded cs" "length cs < 2 ^ 32" "fs' = put_file out (concat cs) 384 fs"
    using decrypt_v2_Inr [OF assms(1) k(3) assms(3) key(3)] by blast
  have "v2_container A (fl_data k) base cs (fl_data e)"
    using cs k(2) split_at [OF key(2) cs(3)] by (simp add: v2_container_def container_def)
  then show "\<exists>k base cs. file_at fs key_path = Some k \<and> length (fl_data k) = ENCRYPTION_KEY_LEN \<and>
      v2_container A (fl_data k) base cs (fl_data e) \<and> fs' = put_file out (concat cs) 384 fs" using k cs(6) by blast
next
  fix k base cs
  assume "length (fl_data k) = ENCRYPTION_KEY_LEN" "v2_container A (fl_data k) base cs (fl_data e)" "file_at fs key_path = Some k"
    "io_quiet env key_path" "io_quiet env enc" "io_quiet env out"
  then show "decrypt_to A env enc key_path out fs = (put_file out (concat cs) 384 fs, Inr ())"
    using decrypt_container [OF assms(1) _ _ _ _ _ _ assms(2)] unfolding v2_container_def by blast
next
  fix k base cs env' plain out' key' fs'
  assume "length (fl_data k) = ENCRYPTION_KEY_LEN" "v2_container A (fl_data k) base cs (fl_data e)" "[] \<notin> set cs"
    "file_at fs' key' = Some k" "reads_chunks env' plain out' key' fs' cs"
  then show "encrypt_file A (Inr base) env' plain out' key' fs' = (put_file out' (fl_data e) 384 fs', Inr ())"
    using encrypt_chunks [OF assms(1)] by blast
qed

text \<open>C37: Exactly the cuts between frames go undetected.  Take the file that encryption writes for a file that is not empty,
  and any proper prefix of it.  If the prefix is the header with some of the frames, decryption succeeds with the bytes of
  these frames alone, down to the empty file for the bare header; such a prefix exists for every smaller number of frames.  Any other
  prefix is refused as corrupt; afterwards the output file does not exist, or, where the header itself is cut, no file was touched.\<close>
theorem truncated_container_accepted:
  assumes "can_encrypt A base env g plain out key_path fs" "file_at fs plain = Some f" "fl_data f \<noteq> []" "file_at fs key_path = Some k"
    and "io_quiet env' key_path" "io_quiet env' out" "io_quiet env' dst"
  shows "\<exists>cs b. cs \<noteq> [] \<and> concat cs = fl_data f \<and>
    encrypt_file A (Inr base) env plain out key_path fs = (put_file out b 384 fs, Inr ()) \<and>
    (\<forall>n<length cs. \<exists>b'. strict_prefix b' b \<and> container A (fl_data k) base (take n cs) = Some b' \<and>
      decrypt_to A env' out key_path dst (put_file out b' 384 fs) =
        (put_file dst (concat (take n cs)) 384 (put_file out b' 384 fs), Inr ())) \<and>
    (\<forall>b'. strict_prefix b' b \<and> (\<forall>n<length cs. container A (fl_data k) base (take n cs) \<noteq> Some b') \<longrightarrow>
      (\<exists>msg fs'. decrypt_to A env' out key_path dst (put_file out b' 384 fs) = (fs', Inl (CorruptBackup msg)) \<and>
        (file_at fs' dst = None \<or> fs' = put_file out b' 384 fs)))"
proof -
  have k: "length (fl_data k) = ENCRYPTION_KEY_LEN" and A: "gcm_laws A" "length base = NONCE_LEN" "\<not> file_exists fs out"
    using assms(1,4) by (auto simp: can_encrypt_def)
  obtain cs b where b: "container A (fl_data k) base cs = Some b" "concat cs = fl_data f" "chunks_ok cs" "length cs < 2 ^ 32"
    and enc: "encrypt_file A (Inr base) env plain out key_path fs = (put_file out b 384 fs, Inr ())"
    using encrypt_file_container [OF assms(1,2,4)] by blast
  have ne: "key_path \<noteq> out" using A(3) assms(4) by (auto simp: file_exists_def)
  have "\<exists>b'. strict_prefix b' b \<and> container A (fl_data k) base (take n cs) = Some b' \<and>
      decrypt_to A env' out key_path dst (put_file out b' 384 fs) =
      (put_file dst (concat (take n cs)) 384 (put_file out b' 384 fs), Inr ())" if n: "n < length cs" for n
  proof -
    obtain b' where b': "container A (fl_data k) base (take n cs) = Some b'" "strict_prefix b' b"
      using container_take [OF b(1) n] by blast
    have "chunks_bounded (take n cs)" using b(3) by (auto simp: chunks_ok_def chunks_bounded_def list_all_iff dest: in_set_takeD)
    then show ?thesis using b' k ne b(4) assms(4)
      by (intro exI [of _ b'] conjI decrypt_container [OF A(1,2) assms(5-7)]) auto
  qed
  moreover have "\<exists>msg fs'. decrypt_to A env' out key_path dst (put_file out b' 384 fs) = (fs', Inl (CorruptBackup msg)) \<and>
        (file_at fs' dst = None \<or> fs' = put_file out b' 384 fs)"
    if b': "strict_prefix b' b" "\<forall>n<length cs. container A (fl_data k) base (take n cs) \<noteq> Some b'" for b'
  proof -
    let ?fs = "put_file out b' 384 fs"
    have "container A (fl_data k) base (take m cs) \<noteq> Some b'" if "m \<le> length cs" for m
      using that b' b(1) by (cases "m = length cs") (auto simp: strict_prefix_def)
    moreover have "file_at ?fs key_path = Some k" "file_at ?fs out = Some \<lparr>fl_data = b', fl_mode = 384\<rparr>" "prefix b' b" "chunks_bounded cs"
      using ne assms(4) b'(1) b(3) by (simp_all add: strict_prefix_def chunks_ok_bounded)
    ultimately show ?thesis
      using decrypt_cut [OF A(1,2) assms(5-7) _ k _ b(1) _ _ b(4), of ?fs "\<lparr>fl_data = b', fl_mode = 384\<rparr>"] by auto
  qed
  ultimately show ?thesis using b(2) enc assms(3) by (intro exI [of _ cs] exI [of _ b]) auto
qed

section \<open>A sample\<close>

definition sample_gcm :: Aes256Gcm where
  "sample_gcm =
     \<lparr>aes_encrypt = \<lambda>key nonce p. Some (p @ nonce @ [0, 0, 0, 0]),
      aes_decrypt = \<lambda>key nonce c.
        if 16 \<le> length c \<and> drop (length c - 16) c = nonce @ [0, 0, 0, 0] then Some (take (length c - 16) c) else None\<rparr>"

definition quiet_io :: IoEnv where
  "quiet_io =
     \<lparr>io_read = \<lambda>p pos. Inr 65536, io_write = \<lambda>p n. None, io_open = \<lambda>p. None, io_create = \<lambda>p. None, io_sync = \<lambda>p. None,
      io_chmod = \<lambda>p. None, io_remove = \<lambda>p. None, io_umask_mode = 420, io_copied = \<lambda>p. 0\<rparr>"

definition sample_fs :: Fs where
  "sample_fs =
     \<lparr>fs_files = fmap_of_list [(''plain'', \<lparr>fl_data = [1, 2, 3], fl_mode = 384\<rparr>), (''key'', \<lparr>fl_data = replicate 32 7, fl_mode = 384\<rparr>)],
      fs_dirs = [''/'']\<rparr>"

lemma strip_tag:
  assumes "length tag = 16"
  shows "(if 16 \<le> length c \<and> drop (length c - 16) c = tag then Some (take (length c - 16) c) else None) = Some p \<longleftrightarrow> c = p @ tag"
proof
  assume "(if 16 \<le> length c \<and> drop (length c - 16) c = tag then Some (take (length c - 16) c) else None) = Some p"
  then show "c = p @ tag" by (auto split: if_splits)
next
  assume "c = p @ tag"
  then show "(if 16 \<le> length c \<and> drop (length c - 16) c = tag then Some (take (length c - 16) c) else None) = Some p"
    using assms by simp
qed

lemma sample_gcm_laws: "gcm_laws sample_gcm"
  unfolding gcm_laws_def sample_gcm_def by (auto simp: NONCE_LEN_def GCM_TAG_LEN_def strip_tag)

lemma quiet_io_quiet: "io_quiet quiet_io p"
  by (simp add: io_quiet_def reads_ok_def quiet_io_def)

lemma sample_files: "file_at sample_fs ''plain'' = Some \<lparr>fl_data = [1, 2, 3], fl_mode = 384\<rparr>"
  "file_at sample_fs ''key'' = Some \<lparr>fl_data = replicate 32 7, fl_mode = 384\<rparr>" "\<not> file_exists sample_fs ''out''"
  by (simp_all add: sample_fs_def file_at_def file_exists_def)

lemma sample_can_encrypt: "can_encrypt sample_gcm (replicate 12 9) quiet_io 65536 ''plain'' ''out'' ''key'' sample_fs"
  using sample_gcm_laws quiet_io_quiet sample_files
  by (simp add: can_encrypt_def quiet_io_def NONCE_LEN_def STREAM_CHUNK_BYTES_def ENCRYPTION_KEY_LEN_def)

theorem encrypted_backup_round_trip_witness:
  "\<exists>fs'. encrypt_file sample_gcm (Inr (replicate 12 9)) quiet_io ''plain'' ''out'' ''key'' sample_fs = (fs', Inr ()) \<and>
    (\<exists>fs''. decrypt_to sample_gcm quiet_io ''out'' ''key'' ''dst'' fs' = (fs'', Inr ()) \<and>
      file_at fs'' ''dst'' = Some \<lparr>fl_data = [1, 2, 3], fl_mode = 384\<rparr>)"
  using encrypted_backup_round_trip [OF sample_can_encrypt quiet_io_quiet quiet_io_quiet quiet_io_quiet] sample_files by simp

theorem accepted_container_authentic_witness:
  "\<exists>base cs. v2_container sample_gcm (replicate 32 7) base cs (BACKUP_FILE_MAGIC @ [2] @ replicate 12 9) \<and>
    decrypt_to sample_gcm quiet_io ''out'' ''key'' ''dst'' (put_file ''out'' (BACKUP_FILE_MAGIC @ [2] @ replicate 12 9) 384 sample_fs) =
      (put_file ''dst'' (concat cs) 384 (put_file ''out'' (BACKUP_FILE_MAGIC @ [2] @ replicate 12 9) 384 sample_fs), Inr ())"
proof -
  let ?b = "BACKUP_FILE_MAGIC @ [2] @ replicate 12 9" and ?fs = "put_file ''out'' (BACKUP_FILE_MAGIC @ [2] @ replicate 12 9) 384 sample_fs"
  have e: "file_at ?fs ''out'' = Some \<lparr>fl_data = ?b, fl_mode = 384\<rparr>" "\<forall>b\<in>set (fl_data \<lparr>fl_data = ?b, fl_mode = 384\<rparr>). b < 256"
    "fl_data \<lparr>fl_data = ?b, fl_mode = 384\<rparr> ! 8 = BACKUP_FILE_VERSION"
    by (simp_all add: BACKUP_FILE_MAGIC_def BACKUP_FILE_VERSION_def)
  have k: "file_at ?fs ''key'' = Some \<lparr>fl_data = replicate 32 7, fl_mode = 384\<rparr>" using sample_files by simp
  have v: "v2_container sample_gcm (replicate 32 7) (replicate 12 9) [] ?b"
    by (simp add: v2_container_def NONCE_LEN_def container_def BACKUP_FILE_VERSION_def)
  show ?thesis
    using accepted_container_authentic [OF sample_gcm_laws e, of quiet_io "''key''" "''dst''", THEN conjunct2, rule_format,
        of "\<lparr>fl_data = replicate 32 7, fl_mode = 384\<rparr>" "replicate 12 9" "[]", THEN conjunct1, rule_format] v k quiet_io_quiet
    by (intro exI [of _ "replicate 12 9"] exI [of _ "[]"]) (simp add: ENCRYPTION_KEY_LEN_def)
qed

theorem truncated_container_accepted_witness:
  "\<exists>cs b. cs \<noteq> [] \<and> concat cs = [1, 2, 3 :: u8] \<and>
    encrypt_file sample_gcm (Inr (replicate 12 9)) quiet_io ''plain'' ''out'' ''key'' sample_fs = (put_file ''out'' b 384 sample_fs, Inr ()) \<and>
    (\<exists>b'. strict_prefix b' b \<and> decrypt_to sample_gcm quiet_io ''out'' ''key'' ''dst'' (put_file ''out'' b' 384 sample_fs) =
        (put_file ''dst'' [] 384 (put_file ''out'' b' 384 sample_fs), Inr ()))"
proof -
  have "fl_data \<lparr>fl_data = [1, 2, 3], fl_mode = 384\<rparr> \<noteq> []" by simp
  from truncated_container_accepted [OF sample_can_encrypt sample_files(1) this sample_files(2) quiet_io_quiet quiet_io_quiet quiet_io_quiet, of "''dst''"]
  obtain cs b where b: "cs \<noteq> []" "concat cs = [1, 2, 3 :: u8]"
    "encrypt_file sample_gcm (Inr (replicate 12 9)) quiet_io ''plain'' ''out'' ''key'' sample_fs = (put_file ''out'' b 384 sample_fs, Inr ())"
    and cut: "\<forall>n<length cs. \<exists>b'. strict_prefix b' b \<and> container sample_gcm (replicate 32 7) (replicate 12 9) (take n cs) = Some b' \<and>
        decrypt_to sample_gcm quiet_io ''out'' ''key'' ''dst'' (put_file ''out'' b' 384 sample_fs) =
        (put_file ''dst'' (concat (take n cs)) 384 (put_file ''out'' b' 384 sample_fs), Inr ())"
    by (simp only: FileNode.simps) blast
  from cut [rule_format, of 0] b(1) have "\<exists>b'. strict_prefix b' b \<and>
      decrypt_to sample_gcm quiet_io ''out'' ''key'' ''dst'' (put_file ''out'' b' 384 sample_fs) =
        (put_file ''dst'' [] 384 (put_file ''out'' b' 384 sample_fs), Inr ())" by auto
  with b show ?thesis by blast
qed

end
