(* ===== verification/Backup.thy ===== *)
theory Backup
  imports Backup_Container
begin

text \<open>
  Online backup, verification and restore (\<open>backup.rs\<close>).  SQLite is a parameter: opening a file, its
  checks and counts, the online backup and the normalisation of the copy, each on the file
  system; SHA-256 is a parameter.  Every exit path runs the cleanup that the guards of the code run when they are
  dropped.
\<close>

section \<open>SQLite\<close>

datatype SqError = SqNotADatabase | SqCannotOpen | SqOther string

text \<open>A connection is an abstract value.  \<open>sq_open_rw\<close> is \<open>Connection::open\<close> with its busy timeout,
  \<open>sq_backup\<close> the online backup into a connection, \<open>sq_normalize\<close> the checkpoint and the change of journal mode.\<close>

record 'c SqliteApi =
  sq_open_ro :: "path \<Rightarrow> Fs \<Rightarrow> Fs \<times> (SqError + 'c)"
  sq_prepare_integrity :: "'c \<Rightarrow> SqError + unit"
  sq_integrity_rows :: "'c \<Rightarrow> SqError + string list"
  sq_foreign_key_rows :: "'c \<Rightarrow> SqError + nat"
  sq_journal_mode :: "'c \<Rightarrow> SqError + string"
  sq_schema_stamp :: "'c \<Rightarrow> SqError + string"
  sq_table_count :: "'c \<Rightarrow> string \<Rightarrow> SqError + int"
  sq_row_count :: "'c \<Rightarrow> string \<Rightarrow> SqError + int"
  sq_open_rw :: "path \<Rightarrow> Fs \<Rightarrow> Fs \<times> (SqError + unit)"
  sq_backup :: "'c \<Rightarrow> path \<Rightarrow> Fs \<Rightarrow> Fs \<times> (SqError + unit)"
  sq_normalize :: "path \<Rightarrow> Fs \<Rightarrow> Fs \<times> (SqError + unit)"

fun sq_message :: "SqError \<Rightarrow> string" where
  "sq_message SqNotADatabase = ''file is not a database''"
| "sq_message SqCannotOpen = ''unable to open database file''"
| "sq_message (SqOther e) = e"

definition raw_error :: "SqError + 'a \<Rightarrow> BackupError + 'a" where
  "raw_error r = (case r of Inl e \<Rightarrow> Inl (BeSqlite (sq_message e)) | Inr a \<Rightarrow> Inr a)"

fun map_sqlite_error :: "path \<Rightarrow> SqError \<Rightarrow> BackupError" where
  "map_sqlite_error p SqNotADatabase = NotADatabase p"
| "map_sqlite_error p SqCannotOpen = BeIo (''cannot open '' @ p)"
| "map_sqlite_error p e = BeSqlite (sq_message e)"

definition mapped_error :: "path \<Rightarrow> SqError + 'a \<Rightarrow> BackupError + 'a" where
  "mapped_error p r = (case r of Inl e \<Rightarrow> Inl (map_sqlite_error p e) | Inr a \<Rightarrow> Inr a)"

text \<open>A step on the file system that may fail, then the next.\<close>

type_synonym 'a step = "Fs \<Rightarrow> Fs \<times> (BackupError + 'a)"

definition and_then :: "'a step \<Rightarrow> ('a \<Rightarrow> 'b step) \<Rightarrow> 'b step" where
  "and_then m f fs = (case m fs of (fs', Inl e) \<Rightarrow> (fs', Inl e) | (fs', Inr a) \<Rightarrow> f a fs')"

definition lift_result :: "BackupError + 'a \<Rightarrow> 'a step" where
  "lift_result r fs = (fs, r)"

section \<open>Verification\<close>

record RowCounts =
  log_events :: i64
  log_resources :: i64
  fts_rows :: i64

record VerifyReport =
  vr_path :: path
  vr_integrity :: string
  vr_foreign_key_violations :: nat
  vr_journal_mode :: string
  vr_schema_version :: "string option"
  vr_is_otel_schema :: bool
  vr_row_counts :: RowCounts
  vr_sha256 :: string

record BackupReport =
  br_source :: path
  br_backup :: path
  br_encrypted :: bool
  br_sha256 :: string
  br_verify :: VerifyReport

record RestoreReport =
  rr_backup :: path
  rr_target :: path
  rr_verified_before :: VerifyReport
  rr_verified_after :: VerifyReport

definition open_readonly :: "'c SqliteApi \<Rightarrow> path \<Rightarrow> 'c step" where
  "open_readonly api p fs = (case sq_open_ro api p fs of (fs', r) \<Rightarrow> (fs', mapped_error p r))"

definition has_table :: "'c SqliteApi \<Rightarrow> 'c \<Rightarrow> string \<Rightarrow> BackupError + bool" where
  "has_table api conn name = try_bind (raw_error (sq_table_count api conn name)) (\<lambda>count. Inr (count > 0))"

definition row_counts :: "'c SqliteApi \<Rightarrow> 'c \<Rightarrow> BackupError + RowCounts option" where
  "row_counts api conn =
     try_bind (has_table api conn ''log_event'') (\<lambda>present.
       if \<not> present then Inr None
       else try_bind (raw_error (sq_row_count api conn ''log_event'')) (\<lambda>e.
            try_bind (raw_error (sq_row_count api conn ''log_resource'')) (\<lambda>r.
            try_bind (raw_error (sq_row_count api conn ''logs_fts'')) (\<lambda>f.
              Inr (Some \<lparr>log_events = e, log_resources = r, fts_rows = f\<rparr>)))))"

fun join_rows :: "string list \<Rightarrow> string" where
  "join_rows [] = []"
| "join_rows [r] = r"
| "join_rows (r # rs) = r @ ''; '' @ join_rows rs"

definition integrity_and_foreign_keys :: "'c SqliteApi \<Rightarrow> 'c \<Rightarrow> path \<Rightarrow> BackupError + string \<times> nat" where
  "integrity_and_foreign_keys api conn p =
     try_bind (mapped_error p (sq_prepare_integrity api conn)) (\<lambda>_.
     try_bind (raw_error (sq_integrity_rows api conn)) (\<lambda>rows.
     try_bind (raw_error (sq_foreign_key_rows api conn)) (\<lambda>violations.
       Inr (join_rows rows, violations))))"

text \<open>The loop of \<open>sha256_hex\<close>; the bytes given to the hasher are the accumulator.\<close>

function hash_reads :: "IoEnv \<Rightarrow> path \<Rightarrow> u8 list \<Rightarrow> nat \<Rightarrow> u8 list \<Rightarrow> BackupError + u8 list" where
  "hash_reads env p content pos hashed =
     (case read_at env p content pos (64 * 1024) of
        Inl e \<Rightarrow> Inl e
      | Inr [] \<Rightarrow> Inr hashed
      | Inr (b # bs) \<Rightarrow> hash_reads env p content (pos + length (b # bs)) (hashed @ b # bs))"
  by pat_completeness auto
termination
  by (relation "measure (\<lambda>(env, p, content, pos, hashed). length content - pos)") (auto dest!: read_at_Inr prefix_length_le)

declare hash_reads.simps [simp del]

definition sha256_hex :: "(u8 list \<Rightarrow> u8 list) \<Rightarrow> IoEnv \<Rightarrow> path \<Rightarrow> string step" where
  "sha256_hex sha env p fs =
     (fs, try_bind (open_file env fs p) (\<lambda>content.
          try_bind (hash_reads env p content 0 []) (\<lambda>bytes. Inr (hex_encode (sha bytes)))))"

definition default_row_counts :: RowCounts where
  "default_row_counts = \<lparr>log_events = 0, log_resources = 0, fts_rows = 0\<rparr>"

definition verify_database :: "'c SqliteApi \<Rightarrow> (u8 list \<Rightarrow> u8 list) \<Rightarrow> IoEnv \<Rightarrow> path \<Rightarrow> VerifyReport step" where
  "verify_database api sha env p =
     and_then (open_readonly api p) (\<lambda>conn.
     and_then (lift_result (integrity_and_foreign_keys api conn p)) (\<lambda>(integrity, violations).
     and_then (lift_result (raw_error (sq_journal_mode api conn))) (\<lambda>journal_mode.
     and_then (lift_result (row_counts api conn)) (\<lambda>counts.
     and_then (sha256_hex sha env p) (\<lambda>digest.
       lift_result (Inr
         \<lparr>vr_path = p, vr_integrity = integrity, vr_foreign_key_violations = violations, vr_journal_mode = journal_mode,
          vr_schema_version = (case sq_schema_stamp api conn of Inl e \<Rightarrow> None | Inr v \<Rightarrow> Some v),
          vr_is_otel_schema = (counts \<noteq> None),
          vr_row_counts = (case counts of None \<Rightarrow> default_row_counts | Some c \<Rightarrow> c),
          vr_sha256 = digest\<rparr>))))))"

section \<open>Backup\<close>

text \<open>The checks of an integrity result that end an operation.\<close>

definition sound_result :: "path \<Rightarrow> string \<Rightarrow> nat \<Rightarrow> BackupError + unit" where
  "sound_result p integrity violations =
     (if integrity \<noteq> ''ok'' then Inl (Integrity p integrity)
      else if violations > 0 then Inl (ForeignKeyViolations p violations)
      else Inr ())"

text \<open>Dropping an armed \<open>RemoveOnDrop\<close>.\<close>

definition remove_on_drop :: "IoEnv \<Rightarrow> path \<Rightarrow> Fs \<Rightarrow> Fs" where
  "remove_on_drop env p fs =
     fold (\<lambda>suffix fs. fst (remove_file env (p @ suffix) fs)) [''-wal'', ''-shm'', ''-journal''] (fst (remove_file env p fs))"

text \<open>A step under a guard: the guard is disarmed when the step succeeds.\<close>

definition guarded :: "(Fs \<Rightarrow> Fs) \<Rightarrow> 'a step \<Rightarrow> 'a step" where
  "guarded cleanup m fs = (case m fs of (fs', Inl e) \<Rightarrow> (cleanup fs', Inl e) | (fs', Inr a) \<Rightarrow> (fs', Inr a))"

text \<open>The part of \<open>backup_to\<close> in which a failure removes the destination.\<close>

definition backup_copy :: "'c SqliteApi \<Rightarrow> (u8 list \<Rightarrow> u8 list) \<Rightarrow> IoEnv \<Rightarrow> path \<Rightarrow> path \<Rightarrow> 'c \<Rightarrow> BackupReport step" where
  "backup_copy api sha env source dest source_conn =
     and_then (\<lambda>fs. map_prod (\<lambda>x. x) raw_error (sq_open_rw api dest fs)) (\<lambda>_.
     and_then (\<lambda>fs. map_prod (\<lambda>x. x) (mapped_error source) (sq_backup api source_conn dest fs)) (\<lambda>_.
     and_then (\<lambda>fs. map_prod (\<lambda>x. x) raw_error (sq_open_rw api dest fs)) (\<lambda>_.
     and_then (\<lambda>fs. map_prod (\<lambda>x. x) raw_error (sq_normalize api dest fs)) (\<lambda>_.
     and_then (restrict_file env dest) (\<lambda>_.
     and_then (verify_database api sha env dest) (\<lambda>v.
     and_then (lift_result (sound_result dest (vr_integrity v) (vr_foreign_key_violations v))) (\<lambda>_.
       lift_result (Inr \<lparr>br_source = source, br_backup = dest, br_encrypted = False, br_sha256 = vr_sha256 v, br_verify = v\<rparr>))))))))"

definition backup_to :: "'c SqliteApi \<Rightarrow> (u8 list \<Rightarrow> u8 list) \<Rightarrow> IoEnv \<Rightarrow> path \<Rightarrow> path \<Rightarrow> BackupReport step" where
  "backup_to api sha env source dest fs =
     (if file_exists fs dest then (fs, Inl (DestinationExists dest))
      else if \<not> file_exists fs source then (fs, Inl (BeIo (''backup source does not exist: '' @ source)))
      else and_then (open_readonly api source) (\<lambda>source_conn.
           and_then (lift_result (integrity_and_foreign_keys api source_conn source)) (\<lambda>(integrity, violations).
           and_then (lift_result (sound_result source integrity violations)) (\<lambda>_.
           guarded (remove_on_drop env dest) (backup_copy api sha env source dest source_conn)))) fs)"

section \<open>Restore\<close>

text \<open>Directories: what lies directly or indirectly below one, and \<open>create_dir_all\<close>.\<close>

definition dir_nonempty :: "Fs \<Rightarrow> path \<Rightarrow> bool" where
  "dir_nonempty fs dir =
     (\<exists>p \<in> fset (fmdom (fs_files fs)) \<union> set (fs_dirs fs). strict_prefix (path_join dir []) p)"

definition create_dir_all :: "IoEnv \<Rightarrow> path \<Rightarrow> unit step" where
  "create_dir_all env dir fs =
     (if dir \<in> set (fs_dirs fs) then (fs, Inr ())
      else if file_at fs dir \<noteq> None then (fs, Inl (BeIo ''file exists''))
      else case io_create env dir of
          Some e \<Rightarrow> (fs, Inl (BeIo e))
        | None \<Rightarrow> (fs\<lparr>fs_dirs := fs_dirs fs @ [take i dir. i \<leftarrow> [1..<length dir], dir ! i = CHR ''/'', take i dir \<notin> set (fs_dirs fs)] @ [dir]\<rparr>, Inr ()))"

text \<open>\<open>fs::copy\<close>: a failure to write leaves a partial file.\<close>

definition fs_copy :: "IoEnv \<Rightarrow> path \<Rightarrow> path \<Rightarrow> unit step" where
  "fs_copy env from to fs =
     (case file_at fs from of
        None \<Rightarrow> (fs, Inl (BeIo ''not found''))
      | Some f \<Rightarrow> (case io_open env from of
          Some e \<Rightarrow> (fs, Inl (BeIo e))
        | None \<Rightarrow> (case io_create env to of
            Some e \<Rightarrow> (fs, Inl (BeIo e))
          | None \<Rightarrow> (case io_write env to (length (fl_data f)) of
              Some e \<Rightarrow> (put_file to (take (io_copied env to) (fl_data f)) (fl_mode f) fs, Inl (BeIo e))
            | None \<Rightarrow> (put_file to (fl_data f) (fl_mode f) fs, Inr ())))))"

definition same_content :: "path \<Rightarrow> VerifyReport \<Rightarrow> VerifyReport \<Rightarrow> BackupError + unit" where
  "same_content target before after =
     (if vr_sha256 after \<noteq> vr_sha256 before then Inl (ContentMismatch target ''restored bytes do not match the verified backup'')
      else if vr_row_counts after \<noteq> vr_row_counts before then Inl (ContentMismatch target ''restored row counts do not match the verified backup'')
      else Inr ())"

text \<open>The part of \<open>restore_into\<close> after the plaintext is at hand.\<close>

definition restore_plain ::
  "'c SqliteApi \<Rightarrow> (u8 list \<Rightarrow> u8 list) \<Rightarrow> IoEnv \<Rightarrow> path \<Rightarrow> path \<Rightarrow> path \<Rightarrow> RestoreReport step" where
  "restore_plain api sha env backup_path plain target =
     and_then (verify_database api sha env plain) (\<lambda>before.
     and_then (lift_result (sound_result plain (vr_integrity before) (vr_foreign_key_violations before))) (\<lambda>_.
     guarded (remove_on_drop env target)
       (and_then (fs_copy env plain target) (\<lambda>_.
        and_then (restrict_file env target) (\<lambda>_.
        and_then (verify_database api sha env target) (\<lambda>after.
        and_then (lift_result (sound_result target (vr_integrity after) (vr_foreign_key_violations after))) (\<lambda>_.
        and_then (lift_result (same_content target before after)) (\<lambda>_.
          lift_result (Inr \<lparr>rr_backup = backup_path, rr_target = target, rr_verified_before = before, rr_verified_after = after\<rparr>)))))))))"

text \<open>Dropping the \<open>TempGuard\<close>, on every path.\<close>

definition with_temp :: "IoEnv \<Rightarrow> path \<Rightarrow> 'a step \<Rightarrow> 'a step" where
  "with_temp env temp m fs = (case m fs of (fs', r) \<Rightarrow> (fst (remove_file env temp fs'), r))"

definition restore_into ::
  "Aes256Gcm \<Rightarrow> 'c SqliteApi \<Rightarrow> (u8 list \<Rightarrow> u8 list) \<Rightarrow> IoEnv \<Rightarrow> path \<Rightarrow> path \<Rightarrow> path option \<Rightarrow> RestoreReport step" where
  "restore_into A api sha env backup_path dest_dir key_path fs =
     (let target = path_join dest_dir ''otel-logs.db'' in
      if file_exists fs target then (fs, Inl (DestinationExists target))
      else if file_exists fs dest_dir \<and> (dest_dir \<notin> set (fs_dirs fs) \<or> io_open env dest_dir \<noteq> None)
        then (fs, Inl (BeIo ''cannot read directory''))
      else if file_exists fs dest_dir \<and> dir_nonempty fs dest_dir then (fs, Inl (DestinationNotEmpty dest_dir))
      else and_then (create_dir_all env dest_dir) (\<lambda>_.
          case key_path of
            None \<Rightarrow> restore_plain api sha env backup_path backup_path target
          | Some kp \<Rightarrow>
              (let temp = path_join dest_dir ''otel-logs.db.decrypting'' in
               with_temp env temp
                 (and_then (decrypt_to A env backup_path kp temp) (\<lambda>_.
                    restore_plain api sha env backup_path temp target)))) fs)"


section \<open>Footprints\<close>

text \<open>\<open>within S m\<close>: the step \<open>m\<close> changes no file outside \<open>S\<close>.\<close>

definition within :: "path set \<Rightarrow> (Fs \<Rightarrow> Fs \<times> 'r) \<Rightarrow> bool" where
  "within S m \<longleftrightarrow> (\<forall>fs q. q \<notin> S \<longrightarrow> file_at (fst (m fs)) q = file_at fs q)"

definition ro_files :: "path \<Rightarrow> path set" where
  "ro_files p = {p @ ''-wal'', p @ ''-shm''}"

definition artifact_files :: "path \<Rightarrow> path set" where
  "artifact_files p = {p, p @ ''-wal'', p @ ''-shm'', p @ ''-journal''}"

text \<open>What SQLite promises: reading touches at most the shared-memory and log sidecars of the file, writing the
  file and its sidecars.\<close>

definition sqlite_local :: "'c SqliteApi \<Rightarrow> bool" where
  "sqlite_local api \<longleftrightarrow> (\<forall>p. within (ro_files p) (sq_open_ro api p) \<and> within (artifact_files p) (sq_open_rw api p) \<and>
     within (artifact_files p) (sq_normalize api p) \<and> (\<forall>c. within (artifact_files p) (sq_backup api c p)))"

named_theorems within_intros

lemma withinD: "within S m \<Longrightarrow> m fs = (fs', r) \<Longrightarrow> q \<notin> S \<Longrightarrow> file_at fs' q = file_at fs q"
  unfolding within_def by (metis fst_conv)

lemma within_mono: "within S m \<Longrightarrow> S \<subseteq> T \<Longrightarrow> within T m"
  by (auto simp: within_def)

lemma within_and_then [within_intros]: "within S m \<Longrightarrow> (\<And>a. within S (f a)) \<Longrightarrow> within S (and_then m f)"
  by (auto simp: within_def and_then_def split: prod.splits sum.splits) (metis fst_conv)+

lemma within_lift [within_intros]: "within S (lift_result r)"
  by (simp add: within_def lift_result_def)

lemma within_sha256_hex [within_intros]: "within S (sha256_hex sha env p)"
  by (simp add: within_def sha256_hex_def)

lemma within_map_prod: "within S m \<Longrightarrow> within S (\<lambda>fs. map_prod (\<lambda>x. x) g (m fs))"
  by (simp add: within_def)

lemma within_guarded: "within S m \<Longrightarrow> within S (\<lambda>fs. (c fs, ())) \<Longrightarrow> within S (guarded c m)"
  by (auto simp: within_def guarded_def split: prod.splits sum.splits) (metis fst_conv)+

lemma within_open_readonly: "sqlite_local api \<Longrightarrow> within (ro_files p) (open_readonly api p)"
  by (auto simp: within_def sqlite_local_def open_readonly_def split: prod.splits) (metis fst_conv)

lemma within_verify: "sqlite_local api \<Longrightarrow> within (ro_files p) (verify_database api sha env p)"
  unfolding verify_database_def by (intro within_intros within_open_readonly) (auto intro!: within_intros split: prod.splits)

lemma within_remove_file [within_intros]: "within {p} (remove_file env p)"
  by (auto simp: within_def remove_file_def split: option.splits)

lemma within_restrict_file: "within {p} (restrict_file env p)"
  by (auto simp: within_def restrict_file_def split: option.splits)

lemma within_fs_copy: "within {to} (fs_copy env from to)"
  by (auto simp: within_def fs_copy_def split: option.splits)

lemma remove_file_other: "q \<noteq> p \<Longrightarrow> file_at (fst (remove_file env p fs)) q = file_at fs q"
  using within_remove_file [of p env] by (simp add: within_def)

lemma within_remove_on_drop: "within (artifact_files p) (\<lambda>fs. (remove_on_drop env p fs, ()))"
  by (auto simp: within_def remove_on_drop_def artifact_files_def remove_file_other)

lemma remove_file_gone: "io_remove env p = None \<Longrightarrow> file_at (fst (remove_file env p fs)) p = None"
  by (auto simp: remove_file_def split: option.splits)

lemma remove_on_drop_gone: "io_remove env p = None \<Longrightarrow> file_at (remove_on_drop env p fs) p = None"
  by (simp add: remove_on_drop_def remove_file_other remove_file_gone)

lemma and_then_Inr: "and_then m f fs = (fs', Inr b) \<longleftrightarrow> (\<exists>fs1 a. m fs = (fs1, Inr a) \<and> f a fs1 = (fs', Inr b))"
  by (auto simp: and_then_def split: prod.splits sum.splits)

lemma and_then_Inl:
  "and_then m f fs = (fs', Inl e) \<longleftrightarrow> m fs = (fs', Inl e) \<or> (\<exists>fs1 a. m fs = (fs1, Inr a) \<and> f a fs1 = (fs', Inl e))"
  by (auto simp: and_then_def split: prod.splits sum.splits)

lemma lift_result_iff [simp]: "lift_result r fs = (fs', x) \<longleftrightarrow> fs' = fs \<and> x = r"
  by (auto simp: lift_result_def)

lemma guarded_Inr [simp]: "guarded c m fs = (fs', Inr a) \<longleftrightarrow> m fs = (fs', Inr a)"
  by (auto simp: guarded_def split: prod.splits sum.splits)

lemma guarded_Inl: "guarded c m fs = (fs', Inl e) \<longleftrightarrow> (\<exists>fs1. m fs = (fs1, Inl e) \<and> fs' = c fs1)"
  by (auto simp: guarded_def split: prod.splits sum.splits)

lemma own_file [simp]: "p \<notin> ro_files p" "p \<in> artifact_files p"
  by (auto simp: ro_files_def artifact_files_def)

lemma hash_reads_Inr: "hash_reads env p c pos h = Inr r \<Longrightarrow> r = h @ drop pos c"
proof (induction env p c pos h rule: hash_reads.induct)
  case (1 env p c pos h)
  obtain bs where bs: "read_at env p c pos (64 * 1024) = Inr bs"
    using 1(2) by (subst (asm) hash_reads.simps) (auto split: sum.splits)
  note rd = read_at_Inr [OF bs]
  show ?case
  proof (cases bs)
    case Nil
    then show ?thesis using 1(2) bs rd by (subst (asm) hash_reads.simps) auto
  next
    case (Cons b bs')
    then have "r = (h @ b # bs') @ drop (pos + length (b # bs')) c"
      using 1(2) bs by (intro 1(1) [OF bs Cons]) (subst (asm) hash_reads.simps, auto)
    moreover have "b # bs' @ drop (pos + length (b # bs')) c = drop pos c"
      using rd Cons by (metis prefix_def append_eq_conv_conj drop_drop add.commute append_Cons)
    ultimately show ?thesis by simp
  qed
qed

lemma sound_result_Inr [simp]: "sound_result p i v = Inr u \<longleftrightarrow> i = ''ok'' \<and> v = 0" "Inr u = sound_result p i v \<longleftrightarrow> i = ''ok'' \<and> v = 0"
  by (auto simp: sound_result_def)

text \<open>A verification that succeeds has hashed the bytes of the file, which it leaves alone.\<close>

lemma verify_database_Inr:
  assumes "sqlite_local api" "verify_database api sha env p fs = (fs', Inr v)"
  shows "\<exists>f. file_at fs p = Some f \<and> file_at fs' p = Some f \<and> vr_sha256 v = hex_encode (sha (fl_data f))"
proof -
  have same: "file_at fs' p = file_at fs p" using withinD [OF within_verify [OF assms(1)] assms(2)] by simp
  obtain fs1 digest where d: "sha256_hex sha env p fs1 = (fs', Inr digest)" "vr_sha256 v = digest"
    using assms(2) by (auto simp: verify_database_def and_then_Inr split: prod.splits)
  then obtain f bytes where "fs1 = fs'" "file_at fs1 p = Some f" "hash_reads env p (fl_data f) 0 [] = Inr bytes"
    "digest = hex_encode (sha bytes)"
    by (auto simp: sha256_hex_def open_file_def split: option.splits)
  then show ?thesis using same d(2) hash_reads_Inr by fastforce
qed


section \<open>Outcomes\<close>

lemma within_backup_copy:
  assumes "sqlite_local api"
  shows "within (artifact_files dest) (backup_copy api sha env source dest conn)"
proof -
  have "within (artifact_files dest) (verify_database api sha env dest)" "within (artifact_files dest) (restrict_file env dest)"
    by (rule within_mono [OF within_verify [OF assms]], auto simp: ro_files_def artifact_files_def)
      (rule within_mono [OF within_restrict_file], simp)
  then show ?thesis
    unfolding backup_copy_def using assms
    by (intro within_intros within_map_prod) (auto simp: sqlite_local_def)
qed

lemma restrict_file_Inr:
  "restrict_file env p fs = (fs', Inr u) \<Longrightarrow> \<exists>f. file_at fs p = Some f \<and> file_at fs' p = Some \<lparr>fl_data = fl_data f, fl_mode = 384\<rparr>"
  by (auto simp: restrict_file_def split: option.splits)

lemma backup_copy_Inr:
  assumes "sqlite_local api" "backup_copy api sha env source dest conn fs = (fs', Inr rep)"
  shows "\<exists>d. file_at fs' dest = Some \<lparr>fl_data = d, fl_mode = 384\<rparr> \<and> br_sha256 rep = hex_encode (sha d) \<and>
    vr_integrity (br_verify rep) = ''ok'' \<and> vr_foreign_key_violations (br_verify rep) = 0"
proof -
  obtain fs1 fs2 u v where r: "restrict_file env dest fs1 = (fs2, Inr u)" and v: "verify_database api sha env dest fs2 = (fs', Inr v)"
    and rep: "br_sha256 rep = vr_sha256 v" "br_verify rep = v" "vr_integrity v = ''ok''" "vr_foreign_key_violations v = 0"
    using assms(2) by (auto simp: backup_copy_def and_then_Inr)
  from restrict_file_Inr [OF r] verify_database_Inr [OF assms(1) v] rep show ?thesis by auto
qed

lemma backup_to_cases:
  assumes "backup_to api sha env source dest fs = (fs', r)"
  shows "fs' = fs \<and> isl r \<or>
    (\<not> file_exists fs dest \<and> (\<exists>fs1 s. open_readonly api source fs = (fs1, s) \<and>
       (fs' = fs1 \<and> isl r \<or> (\<exists>conn. guarded (remove_on_drop env dest) (backup_copy api sha env source dest conn) fs1 = (fs', r)))))"
proof (cases "file_exists fs dest \<or> \<not> file_exists fs source")
  case True
  then show ?thesis using assms by (auto simp: backup_to_def split: if_splits)
next
  case False
  obtain fs1 s where s: "open_readonly api source fs = (fs1, s)" by (rule prod.exhaust)
  have "and_then (open_readonly api source) (\<lambda>conn.
      and_then (lift_result (integrity_and_foreign_keys api conn source)) (\<lambda>(integrity, violations).
      and_then (lift_result (sound_result source integrity violations)) (\<lambda>_.
      guarded (remove_on_drop env dest) (backup_copy api sha env source dest conn)))) fs = (fs', r)"
    using assms False unfolding backup_to_def by simp
  then show ?thesis
    using False s by (auto simp: and_then_def lift_result_def split: prod.splits sum.splits)
qed

text \<open>C12: A backup either is complete or leaves no trace: when it fails, nothing is at the destination that was not there
  before; when it succeeds, a new owner-only file is there which passed the integrity and
  foreign-key checks and whose hash is the reported one.  Apart from the destination and the sidecars of the two
  databases no file changes.\<close>
theorem backup_all_or_nothing:
  assumes "sqlite_local api" "io_remove env dest = None" "dest \<notin> ro_files source"
    and "backup_to api sha env source dest fs = (fs', r)"
  shows "(\<forall>q. q \<notin> artifact_files dest \<union> ro_files source \<longrightarrow> file_at fs' q = file_at fs q) \<and>
    (case r of
       Inl e \<Rightarrow> file_at fs' dest = file_at fs dest
     | Inr rep \<Rightarrow> file_at fs dest = None \<and>
         (\<exists>d. file_at fs' dest = Some \<lparr>fl_data = d, fl_mode = 384\<rparr> \<and> br_sha256 rep = hex_encode (sha d) \<and>
            vr_integrity (br_verify rep) = ''ok'' \<and> vr_foreign_key_violations (br_verify rep) = 0))"
  using backup_to_cases [OF assms(4)]
proof
  assume "fs' = fs \<and> isl r"
  then show ?thesis by (auto simp: isl_def)
next
  assume "\<not> file_exists fs dest \<and> (\<exists>fs1 s. open_readonly api source fs = (fs1, s) \<and>
       (fs' = fs1 \<and> isl r \<or> (\<exists>conn. guarded (remove_on_drop env dest) (backup_copy api sha env source dest conn) fs1 = (fs', r))))"
  then obtain fs1 s where ex: "\<not> file_exists fs dest" and o1: "open_readonly api source fs = (fs1, s)"
    and rest: "fs' = fs1 \<and> isl r \<or> (\<exists>conn. guarded (remove_on_drop env dest) (backup_copy api sha env source dest conn) fs1 = (fs', r))"
    by blast
  have none: "file_at fs dest = None" using ex by (simp add: file_exists_def)
  have s1: "q \<notin> ro_files source \<Longrightarrow> file_at fs1 q = file_at fs q" for q
    by (rule withinD [OF within_open_readonly [OF assms(1)] o1])
  from rest show ?thesis
  proof
    assume "fs' = fs1 \<and> isl r"
    then show ?thesis using s1 assms(3) by (auto simp: isl_def)
  next
    assume "\<exists>conn. guarded (remove_on_drop env dest) (backup_copy api sha env source dest conn) fs1 = (fs', r)"
    then obtain conn where g: "guarded (remove_on_drop env dest) (backup_copy api sha env source dest conn) fs1 = (fs', r)" by blast
    have s2: "q \<notin> artifact_files dest \<Longrightarrow> file_at fs' q = file_at fs1 q" for q
      by (rule withinD [OF within_guarded [OF within_backup_copy [OF assms(1)] within_remove_on_drop] g])
    show ?thesis
    proof (cases r)
      case (Inl e)
      then have "file_at fs' dest = None" using g remove_on_drop_gone [OF assms(2)] by (auto simp: guarded_Inl)
      then show ?thesis using Inl none s1 s2 by auto
    next
      case (Inr rep)
      then show ?thesis using g none s1 s2 backup_copy_Inr [OF assms(1)] by auto
    qed
  qed
qed


section \<open>Restoring\<close>

lemma within_restore_plain:
  assumes "sqlite_local api"
  shows "within (ro_files plain \<union> artifact_files target) (restore_plain api sha env backup_path plain target)"
proof -
  let ?S = "ro_files plain \<union> artifact_files target"
  have *: "within ?S (verify_database api sha env plain)" "within ?S (verify_database api sha env target)" "within ?S (restrict_file env target)"
    "within ?S (fs_copy env plain target)" "within ?S (\<lambda>fs. (remove_on_drop env target fs, ()))"
    by (rule within_mono [OF within_verify [OF assms]] within_mono [OF within_restrict_file] within_mono [OF within_fs_copy]
        within_mono [OF within_remove_on_drop], auto simp: ro_files_def artifact_files_def)+
  show ?thesis
    unfolding restore_plain_def by (intro within_intros within_guarded *)
qed

lemma restore_plain_outcome:
  assumes "sqlite_local api" "io_remove env target = None" "target \<notin> ro_files plain" "plain \<noteq> target"
    and "file_at fs target = None" "restore_plain api sha env backup_path plain target fs = (fs', r)"
  shows "case r of
      Inl e \<Rightarrow> file_at fs' target = None
    | Inr rep \<Rightarrow> \<exists>f. file_at fs plain = Some f \<and> file_at fs' target = Some \<lparr>fl_data = fl_data f, fl_mode = 384\<rparr> \<and>
        vr_integrity (rr_verified_after rep) = ''ok'' \<and> vr_foreign_key_violations (rr_verified_after rep) = 0"
proof (cases r)
  case (Inl e)
  consider fs1 before where "verify_database api sha env plain fs = (fs', before)" |
    fs1 m where "fs' = remove_on_drop env target fs1"
    using assms(6) Inl unfolding restore_plain_def by (auto simp: and_then_Inl guarded_Inl)
  then have "file_at fs' target = None"
    by cases (use withinD [OF within_verify [OF assms(1)]] assms(3,5) remove_on_drop_gone [OF assms(2)] in auto)
  then show ?thesis using Inl by simp
next
  case (Inr rep)
  obtain fs1 fs2 fs3 before after u u' where v1: "verify_database api sha env plain fs = (fs1, Inr before)" and
    c: "fs_copy env plain target fs1 = (fs2, Inr u)" and ch: "restrict_file env target fs2 = (fs3, Inr u')" and
    v2: "verify_database api sha env target fs3 = (fs', Inr after)" and
    rep: "rr_verified_after rep = after" "vr_integrity after = ''ok''" "vr_foreign_key_violations after = 0"
    using assms(6) Inr unfolding restore_plain_def by (auto simp: and_then_Inr)
  obtain f where f: "file_at fs plain = Some f" "file_at fs1 plain = Some f" using verify_database_Inr [OF assms(1) v1] by blast
  have "file_at fs2 target = Some \<lparr>fl_data = fl_data f, fl_mode = fl_mode f\<rparr>"
    using c f(2) by (auto simp: fs_copy_def split: option.splits)
  then have "file_at fs3 target = Some \<lparr>fl_data = fl_data f, fl_mode = 384\<rparr>" using restrict_file_Inr [OF ch] by auto
  then show ?thesis using verify_database_Inr [OF assms(1) v2] f(1) rep Inr by auto
qed

lemma path_join_below: "\<not> prefix ''/'' x \<Longrightarrow> path_join dir x = path_join dir [] @ x"
  by (simp add: path_join_def)

lemma create_dir_all_files: "create_dir_all env dir fs = (fs', r) \<Longrightarrow> file_at fs' p = file_at fs p \<and> (isl r \<longrightarrow> fs' = fs)"
  by (auto simp: create_dir_all_def file_at_def split: if_splits option.splits)

lemma restrict_file_other: "q \<noteq> p \<Longrightarrow> file_at (fst (restrict_file env p fs)) q = file_at fs q"
  using within_restrict_file [of p env] by (simp add: within_def)

lemma finish_output_other: "q \<noteq> out \<Longrightarrow> file_at (fst (finish_output env out fs result)) q = file_at fs q"
  by (auto simp: finish_output_def seal_def restrict_file_other remove_file_other split: sum.split option.split)

lemma decrypt_v2_other: "q \<noteq> out \<Longrightarrow> file_at (fst (decrypt_v2_body A key env inp out content pos fs)) q = file_at fs q"
  by (auto simp: decrypt_v2_body_def finish_output_other split: sum.split option.split)

lemma decrypt_v1_other: "q \<noteq> out \<Longrightarrow> file_at (fst (decrypt_v1_body A key env inp out content pos fs)) q = file_at fs q"
  by (auto simp: decrypt_v1_body_def restrict_file_other remove_file_other Let_def split: sum.split option.split)

lemma decrypt_only_out: "within {out} (decrypt_to A env enc key_path out)"
  by (auto simp: within_def decrypt_to_def decrypt_v1_other decrypt_v2_other split: sum.split)

lemma restore_names:
  defines "target dir \<equiv> path_join dir ''otel-logs.db''" and "temp dir \<equiv> path_join dir ''otel-logs.db.decrypting''"
  shows "target dir \<noteq> temp dir" "target dir \<notin> ro_files (temp dir)" "temp dir \<notin> artifact_files (target dir)"
  unfolding target_def temp_def by (auto simp: path_join_below [of "''otel-logs.db''"] path_join_below [of "''otel-logs.db.decrypting''"] ro_files_def artifact_files_def)

lemma restore_encrypted_outcome:
  assumes "sqlite_local api" "io_remove env target = None" "io_remove env temp = None"
    and names: "target \<noteq> temp" "target \<notin> ro_files temp" "temp \<notin> artifact_files target"
    and "file_at fs target = None"
    and run: "with_temp env temp (and_then (decrypt_to A env backup_path kp temp) (\<lambda>_. restore_plain api sha env backup_path temp target)) fs = (fs', r)"
  shows "file_at fs' temp = None \<and> (case r of
      Inl e \<Rightarrow> file_at fs' target = None
    | Inr rep \<Rightarrow> \<exists>fs1 f. decrypt_to A env backup_path kp temp fs = (fs1, Inr ()) \<and> file_at fs1 temp = Some f \<and>
        file_at fs' target = Some \<lparr>fl_data = fl_data f, fl_mode = 384\<rparr> \<and>
        vr_integrity (rr_verified_after rep) = ''ok'' \<and> vr_foreign_key_violations (rr_verified_after rep) = 0)"
proof -
  obtain fs2 where m: "and_then (decrypt_to A env backup_path kp temp) (\<lambda>_. restore_plain api sha env backup_path temp target) fs = (fs2, r)"
    and fs': "fs' = fst (remove_file env temp fs2)"
    using run by (auto simp: with_temp_def split: prod.splits)
  have gone: "file_at fs' temp = None" "file_at fs' target = file_at fs2 target"
    unfolding fs' using remove_file_gone [OF assms(3)] remove_file_other [OF names(1)] by auto
  obtain fs1 d where d: "decrypt_to A env backup_path kp temp fs = (fs1, d)" by (rule prod.exhaust)
  have t1: "file_at fs1 target = None" using withinD [OF decrypt_only_out d] names(1) assms(7) by simp
  show ?thesis
  proof (cases d)
    case (Inl e)
    then show ?thesis using m d gone t1 by (auto simp: and_then_def)
  next
    case (Inr u)
    then have "restore_plain api sha env backup_path temp target fs1 = (fs2, r)" using m d by (simp add: and_then_def)
    from restore_plain_outcome [OF assms(1,2) names(2) names(1) [symmetric] t1 this] show ?thesis
      using gone d Inr by (auto split: sum.splits)
  qed
qed


lemma restore_into_cases:
  fixes dest_dir defines "target \<equiv> path_join dest_dir ''otel-logs.db''" and "temp \<equiv> path_join dest_dir ''otel-logs.db.decrypting''"
  assumes "restore_into A api sha env backup_path dest_dir key_path fs = (fs', r)"
  shows "fs' = fs \<and> isl r \<or>
    (file_at fs target = None \<and> (\<exists>fs1. (\<forall>p. file_at fs1 p = file_at fs p) \<and>
      (case key_path of
         None \<Rightarrow> restore_plain api sha env backup_path backup_path target fs1 = (fs', r)
       | Some kp \<Rightarrow> with_temp env temp (and_then (decrypt_to A env backup_path kp temp)
           (\<lambda>_. restore_plain api sha env backup_path temp target)) fs1 = (fs', r))))"
proof (cases "file_exists fs target \<or> file_exists fs dest_dir \<and> (dest_dir \<notin> set (fs_dirs fs) \<or> io_open env dest_dir \<noteq> None \<or> dir_nonempty fs dest_dir)")
  case True
  then show ?thesis using assms(3) unfolding restore_into_def target_def [symmetric] Let_def by (auto split: if_splits)
next
  case False
  obtain fs1 c where c: "create_dir_all env dest_dir fs = (fs1, c)" by (rule prod.exhaust)
  note files = create_dir_all_files [OF c]
  show ?thesis
  proof (cases c)
    case (Inl e)
    then show ?thesis using assms(3) False c files
      unfolding restore_into_def target_def [symmetric] Let_def by (auto simp: and_then_def split: if_splits)
  next
    case (Inr u)
    then show ?thesis using assms(3) False c files
      unfolding restore_into_def target_def [symmetric] temp_def [symmetric] Let_def
      by (auto simp: and_then_def file_exists_def split: if_splits option.splits)
  qed
qed

lemma restore_into_outcome:
  fixes dest_dir defines "target \<equiv> path_join dest_dir ''otel-logs.db''" and "temp \<equiv> path_join dest_dir ''otel-logs.db.decrypting''"
  assumes "sqlite_local api" "io_remove env target = None" "io_remove env temp = None" "target \<notin> ro_files backup_path" "backup_path \<noteq> target"
    and "restore_into A api sha env backup_path dest_dir key_path fs = (fs', r)"
  shows "(case r of
      Inl e \<Rightarrow> file_at fs' target = file_at fs target
    | Inr rep \<Rightarrow> \<exists>d. file_at fs target = None \<and> file_at fs' target = Some \<lparr>fl_data = d, fl_mode = 384\<rparr> \<and>
        vr_integrity (rr_verified_after rep) = ''ok'' \<and> vr_foreign_key_violations (rr_verified_after rep) = 0 \<and>
        (case key_path of
           None \<Rightarrow> \<exists>f. file_at fs backup_path = Some f \<and> d = fl_data f
         | Some kp \<Rightarrow> \<exists>fs1 fs2 f. (\<forall>p. file_at fs1 p = file_at fs p) \<and>
             decrypt_to A env backup_path kp temp fs1 = (fs2, Inr ()) \<and> file_at fs2 temp = Some f \<and> d = fl_data f)) \<and>
    (key_path \<noteq> None \<longrightarrow> fs' = fs \<or> file_at fs' temp = None)"
proof -
  note names = restore_names [of dest_dir, folded target_def temp_def]
  from restore_into_cases [OF assms(8), folded target_def temp_def] show ?thesis
  proof (elim disjE conjE exE)
    assume "fs' = fs" "isl r"
    then show ?thesis by (auto simp: isl_def)
  next
    fix fs1
    assume none: "file_at fs target = None" and same: "\<forall>p. file_at fs1 p = file_at fs p"
      and run: "case key_path of None \<Rightarrow> restore_plain api sha env backup_path backup_path target fs1 = (fs', r)
        | Some kp \<Rightarrow> with_temp env temp (and_then (decrypt_to A env backup_path kp temp)
           (\<lambda>_. restore_plain api sha env backup_path temp target)) fs1 = (fs', r)"
    have none1: "file_at fs1 target = None" using none same by simp
    show ?thesis
    proof (cases key_path)
      case None
      then have "restore_plain api sha env backup_path backup_path target fs1 = (fs', r)" using run by simp
      from restore_plain_outcome [OF assms(3,4,6,7) none1 this] show ?thesis
        using None none same by (auto split: sum.splits)
    next
      case (Some kp)
      then have "with_temp env temp (and_then (decrypt_to A env backup_path kp temp)
           (\<lambda>_. restore_plain api sha env backup_path temp target)) fs1 = (fs', r)" using run by simp
      from restore_encrypted_outcome [OF assms(3,4,5) names none1 this] show ?thesis
        using Some none same by (cases r) (simp_all, blast)
    qed
  qed
qed


section \<open>Properties of restore\<close>

text \<open>C13: A restore either puts the verified backup, byte for byte and owner-only, where no database was, or leaves the
  target as it was; the decrypted temporary file is gone either way.\<close>
theorem restore_all_or_nothing:
  assumes "sqlite_local api" "io_remove env (path_join dest_dir ''otel-logs.db'') = None"
    and "io_remove env (path_join dest_dir ''otel-logs.db.decrypting'') = None"
    and "path_join dest_dir ''otel-logs.db'' \<notin> ro_files backup_path" "backup_path \<noteq> path_join dest_dir ''otel-logs.db''"
    and "restore_into A api sha env backup_path dest_dir key_path fs = (fs', r)"
  shows "(case r of
      Inl e \<Rightarrow> file_at fs' (path_join dest_dir ''otel-logs.db'') = file_at fs (path_join dest_dir ''otel-logs.db'')
    | Inr rep \<Rightarrow> \<exists>d. file_at fs (path_join dest_dir ''otel-logs.db'') = None \<and>
        file_at fs' (path_join dest_dir ''otel-logs.db'') = Some \<lparr>fl_data = d, fl_mode = 384\<rparr> \<and>
        vr_integrity (rr_verified_after rep) = ''ok'' \<and> vr_foreign_key_violations (rr_verified_after rep) = 0 \<and>
        (case key_path of
           None \<Rightarrow> \<exists>f. file_at fs backup_path = Some f \<and> d = fl_data f
         | Some kp \<Rightarrow> \<exists>fs1 fs2 f. (\<forall>p. file_at fs1 p = file_at fs p) \<and>
             decrypt_to A env backup_path kp (path_join dest_dir ''otel-logs.db.decrypting'') fs1 = (fs2, Inr ()) \<and>
             file_at fs2 (path_join dest_dir ''otel-logs.db.decrypting'') = Some f \<and> d = fl_data f)) \<and>
    (key_path \<noteq> None \<longrightarrow> fs' = fs \<or> file_at fs' (path_join dest_dir ''otel-logs.db.decrypting'') = None)"
  by (rule restore_into_outcome [OF assms])

lemma encrypted_restore_exact:
  assumes "can_encrypt A base env g plain out kp fs" "encrypt_file A (Inr base) env plain out kp fs = (fs1, Inr ())"
    and "sqlite_local api" "io_quiet env' kp" "io_quiet env' out" "io_quiet env' (path_join dest_dir ''otel-logs.db.decrypting'')"
    and "io_remove env' (path_join dest_dir ''otel-logs.db'') = None"
    and "path_join dest_dir ''otel-logs.db'' \<notin> ro_files out" "out \<noteq> path_join dest_dir ''otel-logs.db''"
    and "restore_into A api sha env' out dest_dir (Some kp) fs1 = (fs', Inr rep)"
  shows "file_at fs' (path_join dest_dir ''otel-logs.db'') = Some \<lparr>fl_data = fl_data (the (file_at fs plain)), fl_mode = 384\<rparr> \<and>
    file_at fs' (path_join dest_dir ''otel-logs.db.decrypting'') = None"
proof -
  let ?temp = "path_join dest_dir ''otel-logs.db.decrypting''" and ?target = "path_join dest_dir ''otel-logs.db''"
  obtain k f where k: "file_at fs kp = Some k" "length (fl_data k) = ENCRYPTION_KEY_LEN" and f: "file_at fs plain = Some f"
    and A: "gcm_laws A" "length base = NONCE_LEN" "\<not> file_exists fs out"
    using assms(1) by (auto simp: can_encrypt_def)
  obtain cs b where b: "container A (fl_data k) base cs = Some b" "concat cs = fl_data f" "chunks_ok cs" "length cs < 2 ^ 32"
    and fs1: "fs1 = put_file out b 384 fs"
    using encrypt_file_container [OF assms(1) f k(1)] assms(2) by auto
  have ne: "kp \<noteq> out" using A(3) k(1) by (auto simp: file_exists_def)
  from restore_into_outcome [OF assms(3,7) io_quietD(7) [OF assms(6)] assms(8,9,10)] obtain d fs2 fs3 g where
    d: "file_at fs1 ?target = None" "file_at fs' ?target = Some \<lparr>fl_data = d, fl_mode = 384\<rparr>"
    and s: "\<forall>p. file_at fs2 p = file_at fs1 p" "decrypt_to A env' out kp ?temp fs2 = (fs3, Inr ())" "file_at fs3 ?temp = Some g" "d = fl_data g"
    and temp: "fs' = fs1 \<or> file_at fs' ?temp = None" by auto
  have "decrypt_to A env' out kp ?temp fs2 = (put_file ?temp (concat cs) 384 fs2, Inr ())"
    using k b ne s(1) fs1 by (intro decrypt_container [OF A(1,2) assms(4,5,6)]) (auto simp: chunks_ok_bounded)
  then have "d = fl_data f" using s(2-4) b(2) by auto
  then show ?thesis using d temp f by auto
qed

section \<open>A sample\<close>

text \<open>A database file that is its own connection.\<close>

definition sample_api :: "u8 list SqliteApi" where
  "sample_api =
     \<lparr>sq_open_ro = \<lambda>p fs. (fs, case file_at fs p of None \<Rightarrow> Inl SqCannotOpen | Some f \<Rightarrow> Inr (fl_data f)),
      sq_prepare_integrity = \<lambda>c. Inr (), sq_integrity_rows = \<lambda>c. Inr [''ok''], sq_foreign_key_rows = \<lambda>c. Inr 0,
      sq_journal_mode = \<lambda>c. Inr ''delete'', sq_schema_stamp = \<lambda>c. Inl (SqOther ''no such table''),
      sq_table_count = \<lambda>c t. Inr 0, sq_row_count = \<lambda>c t. Inr 0,
      sq_open_rw = \<lambda>p fs. (if file_at fs p = None then put_file p [] 420 fs else fs, Inr ()),
      sq_backup = \<lambda>c p fs. (put_file p c 420 fs, Inr ()), sq_normalize = \<lambda>p fs. (fs, Inr ())\<rparr>"

lemma sample_api_local: "sqlite_local sample_api"
  by (auto simp: sqlite_local_def sample_api_def within_def artifact_files_def)

lemma sample_api_simps:
  "sq_open_ro sample_api p fs = (fs, case file_at fs p of None \<Rightarrow> Inl SqCannotOpen | Some f \<Rightarrow> Inr (fl_data f))"
  "sq_prepare_integrity sample_api c = Inr ()" "sq_integrity_rows sample_api c = Inr [''ok'']" "sq_foreign_key_rows sample_api c = Inr 0"
  "sq_open_rw sample_api p fs = (if file_at fs p = None then put_file p [] 420 fs else fs, Inr ())"
  "sq_backup sample_api c p fs = (put_file p c 420 fs, Inr ())" "sq_normalize sample_api p fs = (fs, Inr ())"
  by (simp_all add: sample_api_def)

lemmas sample_step_simps = and_then_def lift_result_def guarded_def open_readonly_def integrity_and_foreign_keys_def mapped_error_def raw_error_def sound_result_def

lemma sample_hash: "length d \<le> 65536 \<Longrightarrow> hash_reads quiet_io p d 0 [] = Inr d"
proof -
  assume "length d \<le> 65536"
  then have "read_at quiet_io p d 0 (64 * 1024) = Inr d" "read_at quiet_io p d (length d) (64 * 1024) = Inr []"
    by (simp_all add: read_at_def quiet_io_def)
  then show ?thesis
    using hash_reads.simps [of quiet_io p d 0 "[]"] hash_reads.simps [of quiet_io p d "length d" d] by (cases d) auto
qed

definition sample_report :: "path \<Rightarrow> u8 list \<Rightarrow> VerifyReport" where
  "sample_report p d =
     \<lparr>vr_path = p, vr_integrity = ''ok'', vr_foreign_key_violations = 0, vr_journal_mode = ''delete'', vr_schema_version = None,
      vr_is_otel_schema = False, vr_row_counts = default_row_counts, vr_sha256 = hex_encode d\<rparr>"

lemma sample_verify:
  "file_at fs p = Some f \<Longrightarrow> length (fl_data f) \<le> 65536 \<Longrightarrow>
   verify_database sample_api (\<lambda>d. d) quiet_io p fs = (fs, Inr (sample_report p (fl_data f)))"
  by (simp add: verify_database_def and_then_def open_readonly_def sample_api_def mapped_error_def integrity_and_foreign_keys_def raw_error_def
      lift_result_def row_counts_def has_table_def sha256_hex_def open_file_def quiet_io_def io_result_def sample_report_def)
    (simp add: sample_hash flip: quiet_io_def)

lemma sample_restrict: "file_at fs p = Some f \<Longrightarrow> restrict_file quiet_io p fs = (put_file p (fl_data f) 384 fs, Inr ())"
  by (simp add: restrict_file_def quiet_io_def)

lemma sample_backup:
  "\<exists>fs' rep. backup_to sample_api (\<lambda>d. d) quiet_io ''plain'' ''copy'' sample_fs = (fs', Inr rep)"
proof -
  have "file_exists sample_fs ''plain''" "\<not> file_exists sample_fs ''copy''" "file_at sample_fs ''copy'' = None"
    using sample_files by (simp_all add: file_exists_def) (simp_all add: sample_fs_def file_at_def)
  then show ?thesis
    by (simp add: backup_to_def backup_copy_def sample_step_simps sample_api_simps sample_files sample_restrict sample_verify
        sample_report_def)
qed

theorem backup_all_or_nothing_witness:
  "\<exists>fs' rep. backup_to sample_api (\<lambda>d. d) quiet_io ''plain'' ''copy'' sample_fs = (fs', Inr rep) \<and>
    (\<exists>d. file_at fs' ''copy'' = Some \<lparr>fl_data = d, fl_mode = 384\<rparr> \<and> br_sha256 rep = hex_encode d)"
proof -
  obtain fs' rep where r: "backup_to sample_api (\<lambda>d. d) quiet_io ''plain'' ''copy'' sample_fs = (fs', Inr rep)"
    using sample_backup by blast
  have "io_remove quiet_io ''copy'' = None" "''copy'' \<notin> ro_files ''plain''" by (simp_all add: quiet_io_def ro_files_def)
  from backup_all_or_nothing [OF sample_api_local this r] r show ?thesis by auto
qed

lemma sample_restore_plain:
  assumes "file_at fs plain = Some f" "length (fl_data f) \<le> 65536" "plain \<noteq> target"
  shows "\<exists>rep. restore_plain sample_api (\<lambda>d. d) quiet_io backup_path plain target fs = (put_file target (fl_data f) 384 fs, Inr rep)"
proof -
  have "fs_copy quiet_io plain target fs = (put_file target (fl_data f) (fl_mode f) fs, Inr ())"
    using assms(1) by (simp add: fs_copy_def quiet_io_def)
  then show ?thesis
    using assms by (simp add: restore_plain_def sample_step_simps sample_restrict sample_verify sample_report_def same_content_def)
qed

theorem restore_all_or_nothing_witness:
  "\<exists>fs' rep. restore_into sample_gcm sample_api (\<lambda>d. d) quiet_io ''plain'' ''/new'' None sample_fs = (fs', Inr rep) \<and>
    file_at fs' ''/new/otel-logs.db'' = Some \<lparr>fl_data = [1, 2, 3], fl_mode = 384\<rparr>"
proof -
  have j: "path_join ''/new'' ''otel-logs.db'' = ''/new/otel-logs.db''" by (simp add: path_join_def)
  have none: "\<not> file_exists sample_fs ''/new/otel-logs.db''" "\<not> file_exists sample_fs ''/new''" "file_at sample_fs ''/new'' = None"
    "''/new'' \<notin> set (fs_dirs sample_fs)"
    by (simp_all add: file_exists_def sample_fs_def file_at_def)
  obtain fs1 where c: "create_dir_all quiet_io ''/new'' sample_fs = (fs1, Inr ())"
    using none by (simp add: create_dir_all_def quiet_io_def)
  have p: "file_at fs1 ''plain'' = Some \<lparr>fl_data = [1, 2, 3], fl_mode = 384\<rparr>"
    using create_dir_all_files [OF c] sample_files(1) by simp
  obtain rep where "restore_plain sample_api (\<lambda>d. d) quiet_io ''plain'' ''plain'' ''/new/otel-logs.db'' fs1 =
      (put_file ''/new/otel-logs.db'' [1, 2, 3] 384 fs1, Inr rep)"
    using sample_restore_plain [OF p, of "''/new/otel-logs.db''" "''plain''"] by auto
  then have r: "restore_into sample_gcm sample_api (\<lambda>d. d) quiet_io ''plain'' ''/new'' None sample_fs =
      (put_file ''/new/otel-logs.db'' [1, 2, 3] 384 fs1, Inr rep)"
    using c none by (simp add: restore_into_def Let_def j and_then_def)
  have q: "io_remove quiet_io p = None" for p by (simp add: quiet_io_def)
  have n: "path_join ''/new'' ''otel-logs.db'' \<notin> ro_files ''plain''" "''plain'' \<noteq> path_join ''/new'' ''otel-logs.db''"
    by (simp_all add: j ro_files_def)
  from restore_all_or_nothing [OF sample_api_local q q n r] r show ?thesis unfolding j by simp
qed

end
