(* ===== verification/Backup_Retention.thy ===== *)
theory Backup_Retention
  imports Backup_Container "HOL-Library.Sorting_Algorithms" "HOL-Library.Option_ord"
begin

text \<open>
  Retention of backups (\<open>prune_old_backups\<close> in \<open>backup.rs\<close>).  A directory listing is the list of
  its entries as \<open>read_dir\<close> gives them, each of which may be an error.  The sort is the library's
  stable sort by a comparator.
\<close>

record DirEntry =
  de_name :: string
  de_modified :: "nat option"

fun ok_entries :: "(string + 'a) list \<Rightarrow> 'a list" where
  "ok_entries [] = []"
| "ok_entries (Inl e # xs) = ok_entries xs"
| "ok_entries (Inr x # xs) = x # ok_entries xs"

text \<open>The artifacts among the entries, with their paths and modification times; a time that
  cannot be read is older than every time.\<close>

definition backup_entries :: "path \<Rightarrow> (string + DirEntry) list \<Rightarrow> (path \<times> nat option) list" where
  "backup_entries dir entries =
     map (\<lambda>e. (path_join dir (de_name e), de_modified e))
       (filter (\<lambda>e. is_backup_artifact (from_utf8_lossy (map of_char (de_name e)))) (ok_entries entries))"

definition newest_first :: "(path \<times> nat option) comparator" where
  "newest_first = key (\<lambda>(p, t). (t, p)) (prod_lex (reversed default) (reversed default))"

fun remove_each :: "IoEnv \<Rightarrow> path list \<Rightarrow> usize \<Rightarrow> Fs \<Rightarrow> Fs \<times> (BackupError + usize)" where
  "remove_each env [] removed fs = (fs, Inr removed)"
| "remove_each env (p # ps) removed fs =
     (case remove_file env p fs of
        (fs', Inl e) \<Rightarrow> (fs', Inl e)
      | (fs', Inr _) \<Rightarrow> remove_each env ps (removed + 1) fs')"

definition prune_old_backups ::
  "IoEnv \<Rightarrow> string + (string + DirEntry) list \<Rightarrow> path \<Rightarrow> usize \<Rightarrow> Fs \<Rightarrow> Fs \<times> (BackupError + usize)" where
  "prune_old_backups env listing dir keep fs =
     (if keep = 0 then (fs, Inr 0)
      else (case listing of
          Inl e \<Rightarrow> (fs, Inl (BeIo e))
        | Inr entries \<Rightarrow> remove_each env (map fst (drop keep (Sorting_Algorithms.sort newest_first (backup_entries dir entries)))) 0 fs))"

lemma newest_first_le:
  "compare newest_first a b \<noteq> Greater \<longleftrightarrow> snd b < snd a \<or> snd b = snd a \<and> fst b \<le> fst a"
  by (cases a; cases b) (auto simp: newest_first_def compare_prod_lex_apply split: comp.splits)

lemma remove_each_Inr:
  "remove_each env ps k fs = (fs', Inr n) \<Longrightarrow>
   n = k + length ps \<and> (\<forall>p. file_at fs' p = (if p \<in> set ps then None else file_at fs p))"
proof (induction ps arbitrary: k fs)
  case (Cons p ps)
  then obtain fs1 where "remove_file env p fs = (fs1, Inr ())" "remove_each env ps (k + 1) fs1 = (fs', Inr n)"
    by (auto split: prod.splits sum.splits)
  then show ?case using Cons.IH [of "k + 1" fs1] by (auto simp: remove_file_def split: if_splits option.splits)
qed simp

text \<open>C38: Pruning keeps the newest \<open>keep\<close> completed backups, by modification time and then by name, removes exactly the others, and
  touches no file that is not one of the listed artifacts.\<close>
theorem prune_keeps_newest:
  assumes "prune_old_backups env (Inr entries) dir keep fs = (fs', Inr n)" "0 < keep"
  shows "\<exists>kept removed. mset (kept @ removed) = mset (backup_entries dir entries) \<and>
    length kept = min keep (length (backup_entries dir entries)) \<and> n = length removed \<and>
    (\<forall>k\<in>set kept. \<forall>r\<in>set removed. snd r < snd k \<or> snd r = snd k \<and> fst r \<le> fst k) \<and>
    (\<forall>p. file_at fs' p = (if p \<in> fst ` set removed then None else file_at fs p))"
proof -
  define bs where "bs = Sorting_Algorithms.sort newest_first (backup_entries dir entries)"
  have m: "mset bs = mset (backup_entries dir entries)" "Sorting_Algorithms.sorted newest_first bs" unfolding bs_def by simp_all
  have "Sorting_Algorithms.sorted newest_first (take keep bs @ drop keep bs)" using m(2) by simp
  then have ord: "\<forall>k\<in>set (take keep bs). \<forall>r\<in>set (drop keep bs). snd r < snd k \<or> snd r = snd k \<and> fst r \<le> fst k"
    unfolding Sorting_Algorithms.sorted_append_iff newest_first_le by blast
  have "remove_each env (map fst (drop keep bs)) 0 fs = (fs', Inr n)"
    using assms by (simp add: prune_old_backups_def bs_def)
  from remove_each_Inr [OF this] ord m(1) show ?thesis
    by (intro exI [of _ "take keep bs"] exI [of _ "drop keep bs"]) (auto simp: min.commute dest: mset_eq_length)
qed

text \<open>A pruning that removes one of two backups.\<close>

definition old_backup :: string where
  "old_backup = ''otel-logs.db.19700101T000000Z.bak''"

definition new_backup :: string where
  "new_backup = ''otel-logs.db.19700102T000000Z.bak''"

definition two_backups :: Fs where
  "two_backups =
     \<lparr>fs_files = fmap_of_list [(old_backup, \<lparr>fl_data = [1], fl_mode = 384\<rparr>), (new_backup, \<lparr>fl_data = [2], fl_mode = 384\<rparr>)],
      fs_dirs = [''/'']\<rparr>"

definition two_entries :: "(string + DirEntry) list" where
  "two_entries =
     [Inr \<lparr>de_name = old_backup, de_modified = Some 5\<rparr>, Inl ''gone'', Inr \<lparr>de_name = new_backup, de_modified = Some 6\<rparr>,
      Inr \<lparr>de_name = ''otel-logs.db'', de_modified = Some 1\<rparr>]"


lemma two_backup_entries: "backup_entries [] two_entries = [(old_backup, Some 5), (new_backup, Some 6)]"
  by code_simp

lemma two_backups_order: "compare newest_first (old_backup, Some 5) (new_backup, Some 6) = Greater"
  using newest_first_le [of "(old_backup, Some 5)" "(new_backup, Some 6)"] by auto

theorem prune_keeps_newest_witness:
  "\<exists>kept removed. mset (kept @ removed) = mset [(old_backup, Some 5), (new_backup, Some (6::nat))] \<and>
    length kept = 1 \<and> 1 = length removed \<and>
    (\<forall>k\<in>set kept. \<forall>r\<in>set removed. snd r < snd k \<or> snd r = snd k \<and> fst r \<le> fst k) \<and>
    (\<forall>p. file_at (drop_file old_backup two_backups) p = (if p \<in> fst ` set removed then None else file_at two_backups p))"
proof -
  have "file_at two_backups old_backup = Some \<lparr>fl_data = [1], fl_mode = 384\<rparr>" by (simp add: two_backups_def file_at_def)
  then have "prune_old_backups quiet_io (Inr two_entries) [] 1 two_backups = (drop_file old_backup two_backups, Inr 1)"
    by (simp add: prune_old_backups_def two_backup_entries two_backups_order remove_file_def quiet_io_def)
  from prune_keeps_newest [OF this] show ?thesis unfolding two_backup_entries by simp
qed

end
