(* ===== verification/Backup_Cli.thy ===== *)
theory Backup_Cli
  imports Backup Backup_Retention
begin

text \<open>
  The subcommands \<open>backup\<close>, \<open>restore\<close> and \<open>verify\<close> (\<open>backup_cli.rs\<close>): their argument parsers and what
  they run.  Error messages are constructors; what is printed on success is the value returned.
\<close>

section \<open>Arguments\<close>

definition DEFAULT_DB_PATH :: path where
  "DEFAULT_DB_PATH = ''otel-logs.db''"

definition DEFAULT_BACKUP_DIR :: path where
  "DEFAULT_BACKUP_DIR = ''backups''"

definition DEFAULT_KEEP :: usize where
  "DEFAULT_KEEP = 30"

record BackupArgs =
  ba_db :: path
  ba_out_dir :: path
  ba_keep :: usize
  ba_key_file :: "path option"
  ba_json :: bool

record RestoreArgs =
  ra_backup :: path
  ra_dir :: path
  ra_key_file :: "path option"
  ra_json :: bool

record VerifyArgs =
  va_db :: path
  va_json :: bool

datatype CliError =
    FlagRepeated string
  | ValueMissing string
  | ValueLooksLikeFlag string string
  | KeepNotANumber string
  | UnknownFlag string
  | FlagRequired string

definition set_once :: "'a option \<Rightarrow> 'a \<Rightarrow> string \<Rightarrow> CliError + 'a option" where
  "set_once slot v flag = (if slot \<noteq> None then Inl (FlagRepeated flag) else Inr (Some v))"

text \<open>The value of a flag is the next argument.\<close>

definition flag_value :: "string \<Rightarrow> string list \<Rightarrow> CliError + string" where
  "flag_value flag rest =
     (case rest of
        [] \<Rightarrow> Inl (ValueMissing flag)
      | v # _ \<Rightarrow> if prefix ''--'' v then Inl (ValueLooksLikeFlag flag v) else Inr v)"

record FlagSlots =
  fl_db :: "path option"
  fl_out :: "path option"
  fl_keep :: "usize option"
  fl_key :: "path option"
  fl_json :: bool
  fl_backup :: "path option"
  fl_dir :: "path option"

definition no_flags :: FlagSlots where
  "no_flags = \<lparr>fl_db = None, fl_out = None, fl_keep = None, fl_key = None, fl_json = False, fl_backup = None, fl_dir = None\<rparr>"

fun parse_backup_loop :: "FlagSlots \<Rightarrow> string list \<Rightarrow> CliError + FlagSlots" where
  "parse_backup_loop s [] = Inr s"
| "parse_backup_loop s (flag # rest) =
     (if flag = ''--json'' then
        (if fl_json s then Inl (FlagRepeated ''--json'') else parse_backup_loop (s\<lparr>fl_json := True\<rparr>) rest)
      else if flag = ''--db'' then
        try_bind (flag_value flag rest) (\<lambda>v. try_bind (set_once (fl_db s) v ''--db'') (\<lambda>slot.
          parse_backup_loop (s\<lparr>fl_db := slot\<rparr>) (tl rest)))
      else if flag = ''--out'' then
        try_bind (flag_value flag rest) (\<lambda>v. try_bind (set_once (fl_out s) v ''--out'') (\<lambda>slot.
          parse_backup_loop (s\<lparr>fl_out := slot\<rparr>) (tl rest)))
      else if flag = ''--key-file'' then
        try_bind (flag_value flag rest) (\<lambda>v. try_bind (set_once (fl_key s) v ''--key-file'') (\<lambda>slot.
          parse_backup_loop (s\<lparr>fl_key := slot\<rparr>) (tl rest)))
      else if flag = ''--keep'' then
        try_bind (flag_value flag rest) (\<lambda>v.
          case parse_u64 v of
            None \<Rightarrow> Inl (KeepNotANumber v)
          | Some n \<Rightarrow> try_bind (set_once (fl_keep s) n ''--keep'') (\<lambda>slot. parse_backup_loop (s\<lparr>fl_keep := slot\<rparr>) (tl rest)))
      else Inl (UnknownFlag flag))"

definition or_default :: "'a option \<Rightarrow> 'a \<Rightarrow> 'a" where
  "or_default o1 d = (case o1 of None \<Rightarrow> d | Some v \<Rightarrow> v)"

definition parse_backup_args :: "string list \<Rightarrow> CliError + BackupArgs" where
  "parse_backup_args args =
     try_bind (parse_backup_loop no_flags args) (\<lambda>s.
       Inr \<lparr>ba_db = or_default (fl_db s) DEFAULT_DB_PATH, ba_out_dir = or_default (fl_out s) DEFAULT_BACKUP_DIR,
            ba_keep = or_default (fl_keep s) DEFAULT_KEEP, ba_key_file = fl_key s, ba_json = fl_json s\<rparr>)"

fun parse_restore_loop :: "FlagSlots \<Rightarrow> string list \<Rightarrow> CliError + FlagSlots" where
  "parse_restore_loop s [] = Inr s"
| "parse_restore_loop s (flag # rest) =
     (if flag = ''--json'' then
        (if fl_json s then Inl (FlagRepeated ''--json'') else parse_restore_loop (s\<lparr>fl_json := True\<rparr>) rest)
      else if flag = ''--backup'' then
        try_bind (flag_value flag rest) (\<lambda>v. try_bind (set_once (fl_backup s) v ''--backup'') (\<lambda>slot.
          parse_restore_loop (s\<lparr>fl_backup := slot\<rparr>) (tl rest)))
      else if flag = ''--dir'' then
        try_bind (flag_value flag rest) (\<lambda>v. try_bind (set_once (fl_dir s) v ''--dir'') (\<lambda>slot.
          parse_restore_loop (s\<lparr>fl_dir := slot\<rparr>) (tl rest)))
      else if flag = ''--key-file'' then
        try_bind (flag_value flag rest) (\<lambda>v. try_bind (set_once (fl_key s) v ''--key-file'') (\<lambda>slot.
          parse_restore_loop (s\<lparr>fl_key := slot\<rparr>) (tl rest)))
      else Inl (UnknownFlag flag))"

definition parse_restore_args :: "string list \<Rightarrow> CliError + RestoreArgs" where
  "parse_restore_args args =
     try_bind (parse_restore_loop no_flags args) (\<lambda>s.
       case fl_backup s of
         None \<Rightarrow> Inl (FlagRequired ''--backup'')
       | Some b \<Rightarrow> (case fl_dir s of
           None \<Rightarrow> Inl (FlagRequired ''--dir'')
         | Some d \<Rightarrow> Inr \<lparr>ra_backup = b, ra_dir = d, ra_key_file = fl_key s, ra_json = fl_json s\<rparr>))"

fun parse_verify_loop :: "FlagSlots \<Rightarrow> string list \<Rightarrow> CliError + FlagSlots" where
  "parse_verify_loop s [] = Inr s"
| "parse_verify_loop s (flag # rest) =
     (if flag = ''--json'' then
        (if fl_json s then Inl (FlagRepeated ''--json'') else parse_verify_loop (s\<lparr>fl_json := True\<rparr>) rest)
      else if flag = ''--db'' then
        try_bind (flag_value flag rest) (\<lambda>v. try_bind (set_once (fl_db s) v ''--db'') (\<lambda>slot.
          parse_verify_loop (s\<lparr>fl_db := slot\<rparr>) (tl rest)))
      else Inl (UnknownFlag flag))"

definition parse_verify_args :: "string list \<Rightarrow> CliError + VerifyArgs" where
  "parse_verify_args args =
     try_bind (parse_verify_loop no_flags args) (\<lambda>s.
       Inr \<lparr>va_db = or_default (fl_db s) DEFAULT_DB_PATH, va_json = fl_json s\<rparr>)"

section \<open>Commands\<close>

datatype RunError =
    CannotCreate path BackupError
  | ClockBeforeEpoch
  | NoFreeName
  | BackupFailed BackupError
  | PlaintextNotRemoved path BackupError
  | BackupMissing path
  | NeedsKey path
  | IntegrityFailed string
  | ForeignKeysFailed nat

text \<open>The clock, the random nonce and the directory listing as the operating system gives them.\<close>

record CliEnv =
  ce_now :: "u64 option"
  ce_nonce :: "string + u8 list"
  ce_listing :: "Fs \<Rightarrow> path \<Rightarrow> string + (string + DirEntry) list"

definition now_epoch_secs :: "CliEnv \<Rightarrow> RunError + u64" where
  "now_epoch_secs ce = (case ce_now ce of None \<Rightarrow> Inl ClockBeforeEpoch | Some n \<Rightarrow> Inr n)"

text \<open>The encryption of the snapshot when a key file is given.\<close>

definition encrypt_snapshot ::
  "Aes256Gcm \<Rightarrow> (u8 list \<Rightarrow> u8 list) \<Rightarrow> IoEnv \<Rightarrow> CliEnv \<Rightarrow> BackupArgs \<Rightarrow> u64 \<Rightarrow> path \<Rightarrow> BackupReport \<Rightarrow> Fs \<Rightarrow> Fs \<times> (RunError + BackupReport)" where
  "encrypt_snapshot A sha env ce args epoch plain report fs =
     (case ba_key_file args of
        None \<Rightarrow> (fs, Inr report)
      | Some key_file \<Rightarrow> (case unique_backup_path (file_exists fs) (ba_out_dir args) epoch True of
          None \<Rightarrow> (fs, Inl NoFreeName)
        | Some encrypted \<Rightarrow> (case encrypt_file A (ce_nonce ce) env plain encrypted key_file fs of
            (fs1, Inl e) \<Rightarrow> (fs1, Inl (BackupFailed e))
          | (fs1, Inr _) \<Rightarrow> (case remove_file env plain fs1 of
              (fs2, Inl e) \<Rightarrow> (fs2, Inl (PlaintextNotRemoved plain e))
            | (fs2, Inr _) \<Rightarrow> (case sha256_hex sha env encrypted fs2 of
                (fs3, Inl e) \<Rightarrow> (fs3, Inl (BackupFailed e))
              | (fs3, Inr digest) \<Rightarrow>
                  (fs3, Inr (report\<lparr>br_backup := encrypted, br_encrypted := True, br_sha256 := digest,
                     br_verify := (br_verify report)\<lparr>vr_path := encrypted, vr_sha256 := digest\<rparr>\<rparr>)))))))"

definition run_backup ::
  "Aes256Gcm \<Rightarrow> 'c SqliteApi \<Rightarrow> (u8 list \<Rightarrow> u8 list) \<Rightarrow> IoEnv \<Rightarrow> CliEnv \<Rightarrow> BackupArgs \<Rightarrow> Fs \<Rightarrow> Fs \<times> (RunError + BackupReport \<times> usize)" where
  "run_backup A api sha env ce args fs =
     (case create_dir_all env (ba_out_dir args) fs of
        (fs1, Inl e) \<Rightarrow> (fs1, Inl (CannotCreate (ba_out_dir args) e))
      | (fs1, Inr _) \<Rightarrow> (case now_epoch_secs ce of
          Inl e \<Rightarrow> (fs1, Inl e)
        | Inr epoch \<Rightarrow> (case unique_backup_path (file_exists fs1) (ba_out_dir args) epoch False of
            None \<Rightarrow> (fs1, Inl NoFreeName)
          | Some plain \<Rightarrow> (case backup_to api sha env (ba_db args) plain fs1 of
              (fs2, Inl e) \<Rightarrow> (fs2, Inl (BackupFailed e))
            | (fs2, Inr report) \<Rightarrow> (case encrypt_snapshot A sha env ce args epoch plain report fs2 of
                (fs3, Inl e) \<Rightarrow> (fs3, Inl e)
              | (fs3, Inr report') \<Rightarrow> (case prune_old_backups env (ce_listing ce fs3 (ba_out_dir args)) (ba_out_dir args) (ba_keep args) fs3 of
                  (fs4, Inl e) \<Rightarrow> (fs4, Inl (BackupFailed e))
                | (fs4, Inr pruned) \<Rightarrow> (fs4, Inr (report', pruned))))))))"

definition run_restore ::
  "Aes256Gcm \<Rightarrow> 'c SqliteApi \<Rightarrow> (u8 list \<Rightarrow> u8 list) \<Rightarrow> IoEnv \<Rightarrow> RestoreArgs \<Rightarrow> Fs \<Rightarrow> Fs \<times> (RunError + RestoreReport)" where
  "run_restore A api sha env args fs =
     (if \<not> file_exists fs (ra_backup args) then (fs, Inl (BackupMissing (ra_backup args)))
      else (case looks_encrypted env fs (ra_backup args) of
          Inl e \<Rightarrow> (fs, Inl (BackupFailed e))
        | Inr encrypted \<Rightarrow>
            if encrypted \<and> ra_key_file args = None then (fs, Inl (NeedsKey (ra_backup args)))
            else (case restore_into A api sha env (ra_backup args) (ra_dir args) (ra_key_file args) fs of
                (fs', Inl e) \<Rightarrow> (fs', Inl (BackupFailed e))
              | (fs', Inr report) \<Rightarrow> (fs', Inr report))))"

definition run_verify ::
  "'c SqliteApi \<Rightarrow> (u8 list \<Rightarrow> u8 list) \<Rightarrow> IoEnv \<Rightarrow> VerifyArgs \<Rightarrow> Fs \<Rightarrow> Fs \<times> (RunError + VerifyReport)" where
  "run_verify api sha env args fs =
     (case verify_database api sha env (va_db args) fs of
        (fs', Inl e) \<Rightarrow> (fs', Inl (BackupFailed e))
      | (fs', Inr report) \<Rightarrow>
          (fs', if vr_integrity report \<noteq> ''ok'' then Inl (IntegrityFailed (vr_integrity report))
                else if vr_foreign_key_violations report > 0 then Inl (ForeignKeysFailed (vr_foreign_key_violations report))
                else Inr report))"

section \<open>Parsing what was printed\<close>

definition render_backup_args :: "BackupArgs \<Rightarrow> string list" where
  "render_backup_args a =
     [''--db'', ba_db a, ''--out'', ba_out_dir a, ''--keep'', show_nat (ba_keep a)] @
     (case ba_key_file a of None \<Rightarrow> [] | Some k \<Rightarrow> [''--key-file'', k]) @ (if ba_json a then [''--json''] else [])"

definition plain_words :: "BackupArgs \<Rightarrow> bool" where
  "plain_words a \<longleftrightarrow> \<not> prefix ''--'' (ba_db a) \<and> \<not> prefix ''--'' (ba_out_dir a) \<and>
     (\<forall>k. ba_key_file a = Some k \<longrightarrow> \<not> prefix ''--'' k) \<and> ba_keep a \<le> USIZE_MAX"

lemma show_nat_no_flag: "\<not> prefix ''--'' (show_nat n)"
proof
  assume "prefix ''--'' (show_nat n)"
  then have "CHR ''-'' \<in> set (show_nat n)" by (auto simp: prefix_def)
  then show False using show_nat_digits [of n] by (auto simp: list_all_iff is_ascii_digit_def less_eq_char_def)
qed

lemma backup_args_round_trip:
  assumes "plain_words a"
  shows "parse_backup_args (render_backup_args a) = Inr a"
  using assms show_nat_no_flag [of "ba_keep a"] parse_show_nat [of "ba_keep a"]
  by (cases "ba_key_file a"; cases "ba_json a"; cases a)
    (simp_all add: parse_backup_args_def render_backup_args_def plain_words_def no_flags_def flag_value_def set_once_def or_default_def)

section \<open>The plaintext snapshot\<close>

lemma encrypt_snapshot_Inr:
  assumes "encrypt_snapshot A sha env ce args epoch plain report fs = (fs', Inr report')" "ba_key_file args = Some kf"
  shows "file_at fs' plain = None \<and> br_encrypted report'"
  using assms by (auto simp: encrypt_snapshot_def remove_file_def sha256_hex_def split: option.splits prod.splits sum.splits if_splits)

lemma prune_keeps_absent:
  assumes "prune_old_backups env listing dir keep fs = (fs', Inr n)" "file_at fs p = None"
  shows "file_at fs' p = None"
  using assms remove_each_Inr by (auto simp: prune_old_backups_def split: if_splits sum.splits)

lemma encrypted_run_removes_plaintext:
  assumes "run_backup A api sha env ce args fs = (fs', Inr (report, pruned))" "ba_key_file args = Some key_file"
  shows "br_encrypted report \<and> (\<exists>epoch fs1 plain. ce_now ce = Some epoch \<and>
    unique_backup_path (file_exists fs1) (ba_out_dir args) epoch False = Some plain \<and> file_at fs' plain = None)"
proof -
  obtain epoch fs1 fs2 fs3 plain report0 where e: "ce_now ce = Some epoch"
    and u: "unique_backup_path (file_exists fs1) (ba_out_dir args) epoch False = Some plain"
    and s: "encrypt_snapshot A sha env ce args epoch plain report0 fs2 = (fs3, Inr report)"
    and p: "prune_old_backups env (ce_listing ce fs3 (ba_out_dir args)) (ba_out_dir args) (ba_keep args) fs3 = (fs', Inr pruned)"
    using assms(1) by (auto simp: run_backup_def now_epoch_secs_def split: prod.splits sum.splits option.splits)
  from encrypt_snapshot_Inr [OF s assms(2)] prune_keeps_absent [OF p] e u show ?thesis by blast
qed

text \<open>C40: A key file that cannot be used leaves the plaintext behind: the snapshot is taken before the key is read, so
  the command fails with the error of the key and the unencrypted database stays in the backup
  directory.\<close>
theorem bad_key_leaves_plaintext:
  assumes "sqlite_local api"
    and "create_dir_all env (ba_out_dir args) fs = (fs1, Inr ())" "ce_now ce = Some epoch"
    and "unique_backup_path (file_exists fs1) (ba_out_dir args) epoch False = Some plain"
    and "backup_to api sha env (ba_db args) plain fs1 = (fs2, Inr report)"
    and "unique_backup_path (file_exists fs2) (ba_out_dir args) epoch True = Some encrypted"
    and "ba_key_file args = Some key_file" "read_key env fs2 key_file = Inl e"
  shows "run_backup A api sha env ce args fs = (fs2, Inl (BackupFailed e)) \<and>
    (\<exists>d. file_at fs2 plain = Some \<lparr>fl_data = d, fl_mode = 384\<rparr> \<and> br_sha256 report = hex_encode (sha d))"
proof -
  have "encrypt_snapshot A sha env ce args epoch plain report fs2 = (fs2, Inl (BackupFailed e))"
    using assms(6-8) by (simp add: encrypt_snapshot_def encrypt_file_def)
  then have "run_backup A api sha env ce args fs = (fs2, Inl (BackupFailed e))"
    using assms(2-5) by (simp add: run_backup_def now_epoch_secs_def)
  moreover obtain fs1' s conn where "backup_copy api sha env (ba_db args) plain conn fs1' = (fs2, Inr report)"
    using backup_to_cases [OF assms(5)] by auto
  then have "\<exists>d. file_at fs2 plain = Some \<lparr>fl_data = d, fl_mode = 384\<rparr> \<and> br_sha256 report = hex_encode (sha d)"
    using backup_copy_Inr [OF assms(1)] by blast
  ultimately show ?thesis by blast
qed


section \<open>A sample\<close>

definition sample_cli_env :: CliEnv where
  "sample_cli_env = \<lparr>ce_now = Some 0, ce_nonce = Inr (replicate 12 9), ce_listing = \<lambda>fs dir. Inr []\<rparr>"

definition sample_args :: "path \<Rightarrow> BackupArgs" where
  "sample_args kf = \<lparr>ba_db = ''plain'', ba_out_dir = ''/b'', ba_keep = 1, ba_key_file = Some kf, ba_json = False\<rparr>"

definition out_fs :: Fs where
  "out_fs = fst (create_dir_all quiet_io ''/b'' sample_fs)"

definition out_path :: "bool \<Rightarrow> path" where
  "out_path encrypted = path_join ''/b'' (backup_filename 0 encrypted)"

lemma out_path_shape: "\<exists>s. out_path encrypted = CHR ''/'' # CHR ''b'' # CHR ''/'' # CHR ''o'' # s"
  by (simp add: out_path_def path_join_def backup_filename_def OTEL_DB_PREFIX_def)

lemma out_path_distinct: "out_path False \<noteq> out_path True"
  by (simp add: out_path_def path_join_inject backup_filename_def OTEL_DB_PREFIX_def backup_extension_def)

lemma out_fs_facts:
  "create_dir_all quiet_io ''/b'' sample_fs = (out_fs, Inr ())" "file_at out_fs p = file_at sample_fs p" "\<not> file_exists out_fs (out_path b)"
proof -
  have new: "''/b'' \<notin> set (fs_dirs sample_fs)" "file_at sample_fs ''/b'' = None" by (simp_all add: sample_fs_def file_at_def)
  then show c: "create_dir_all quiet_io ''/b'' sample_fs = (out_fs, Inr ())"
    by (simp add: out_fs_def create_dir_all_def quiet_io_def)
  show same: "file_at out_fs p = file_at sample_fs p" for p using create_dir_all_files [OF c] by simp
  have "fs_dirs out_fs = [''/'', ''/b'']"
    using new by (simp add: out_fs_def create_dir_all_def quiet_io_def) (simp add: sample_fs_def)
  then show "\<not> file_exists out_fs (out_path b)"
    using out_path_shape [of b] by (auto simp: file_exists_def same) (auto simp: sample_fs_def file_at_def split: if_splits)
qed

lemma unique_when_free: "\<not> ex (path_join dir (backup_filename t enc)) \<Longrightarrow> unique_backup_path ex dir t enc = Some (path_join dir (backup_filename t enc))"
  by (simp add: unique_backup_path_def Let_def)

lemma sample_backup_to:
  assumes "file_at fs src = Some f" "length (fl_data f) \<le> 65536" "\<not> file_exists fs dest"
  shows "\<exists>rep. backup_to sample_api (\<lambda>d. d) quiet_io src dest fs = (put_file dest (fl_data f) 384 fs, Inr rep)"
proof -
  have "file_at fs dest = None" "file_exists fs src" using assms by (auto simp: file_exists_def)
  then show ?thesis
    using assms by (simp add: backup_to_def backup_copy_def sample_step_simps sample_api_simps sample_restrict sample_verify sample_report_def)
qed

lemma hash_reads_total: "reads_ok env p \<Longrightarrow> \<exists>r. hash_reads env p c pos h = Inr r"
proof (induction env p c pos h rule: hash_reads.induct)
  case (1 env p c pos h)
  obtain bs where "read_at env p c pos (64 * 1024) = Inr bs" using read_at_total [OF 1(2)] by blast
  then show ?case using 1 by (subst hash_reads.simps) (cases bs; auto)
qed

lemma sample_run_snapshot:
  "\<exists>rep. backup_to sample_api (\<lambda>d. d) quiet_io ''plain'' (out_path False) out_fs = (put_file (out_path False) [1, 2, 3] 384 out_fs, Inr rep)"
  using sample_backup_to [of out_fs "''plain''" "\<lparr>fl_data = [1, 2, 3], fl_mode = 384\<rparr>" "out_path False"] sample_files(1) out_fs_facts by simp

lemma sample_free:
  "unique_backup_path (file_exists out_fs) ''/b'' 0 False = Some (out_path False)"
  "unique_backup_path (file_exists (put_file (out_path False) [1, 2, 3] 384 out_fs)) ''/b'' 0 True = Some (out_path True)"
  using out_fs_facts(3) out_path_distinct unfolding out_path_def
  by (auto intro!: unique_when_free simp: file_exists_def)

theorem bad_key_leaves_plaintext_witness:
  "\<exists>fs2. run_backup sample_gcm sample_api (\<lambda>d. d) quiet_io sample_cli_env (sample_args ''nokey'') sample_fs = (fs2, Inl (BackupFailed (BeIo ''not found''))) \<and>
    (\<exists>d. file_at fs2 (out_path False) = Some \<lparr>fl_data = d, fl_mode = 384\<rparr>)"
proof -
  let ?args = "sample_args ''nokey''" and ?fs2 = "put_file (out_path False) [1, 2, 3] 384 out_fs"
  obtain rep where b: "backup_to sample_api (\<lambda>d. d) quiet_io (ba_db ?args) (out_path False) out_fs = (?fs2, Inr rep)"
    using sample_run_snapshot by (auto simp: sample_args_def)
  have k: "read_key quiet_io ?fs2 ''nokey'' = Inl (BeIo ''not found'')"
  proof -
    have "out_path False \<noteq> ''nokey''" "file_at sample_fs ''nokey'' = None"
      using out_path_shape [of False] by (auto simp: sample_fs_def file_at_def)
    then show ?thesis by (simp add: read_key_def open_file_def out_fs_facts(2))
  qed
  have a: "create_dir_all quiet_io (ba_out_dir ?args) sample_fs = (out_fs, Inr ())" "ce_now sample_cli_env = Some 0"
    "unique_backup_path (file_exists out_fs) (ba_out_dir ?args) 0 False = Some (out_path False)"
    "unique_backup_path (file_exists ?fs2) (ba_out_dir ?args) 0 True = Some (out_path True)" "ba_key_file ?args = Some ''nokey''"
    using out_fs_facts(1) sample_free by (simp_all add: sample_args_def sample_cli_env_def)
  from bad_key_leaves_plaintext [OF sample_api_local a(1-3) b a(4,5) k, of sample_gcm] show ?thesis by blast
qed

lemma sample_out_can_encrypt:
  "can_encrypt sample_gcm (replicate 12 9) quiet_io 65536 (out_path False) (out_path True) ''key'' (put_file (out_path False) [1, 2, 3] 384 out_fs)"
  using sample_gcm_laws quiet_io_quiet sample_files out_fs_facts out_path_distinct out_path_shape [of False]
  by (auto simp: can_encrypt_def quiet_io_def NONCE_LEN_def STREAM_CHUNK_BYTES_def ENCRYPTION_KEY_LEN_def file_exists_def)

end
