(* ===== verification/Spec2Isabelle.thy ===== *)
theory Spec2Isabelle
  imports Pipeline App_Config Backup_Cli
begin

text \<open>
  Verification of otel-sqlite, a service that receives OpenTelemetry logs over gRPC and keeps
  them in one SQLite database.

  \<^bold>\<open>The program.\<close>  A request passes authentication, is validated against limits and mapped to
  chunks of records, one per resource, and each chunk is admitted to a bounded ingest queue under
  a commit ticket.  The batcher thread collects the records per origin and hands write batches to the
  command queue; the single writer thread persists each batch in a transaction and settles the
  tickets in the ledger, for which the export handler waits when the durability mode asks for
  it.  A scheduler sends maintenance commands to the same command queue, and a watchdog samples the
  pipeline and halts the service.  Configuration, start-up, shutdown, backup and restore surround this.

  \<^bold>\<open>Common ground.\<close>
  \<^item> \<open>Otel_Prelude\<close>, \<open>Rust_Text\<close>, \<open>Rust_Bytes\<close>, \<open>Socket_Addr\<close>: machine integers, clocks, and the parts of
    Rust's standard library that the sources use (trimming, UTF-8 decoding, number and
    address parsing).
  \<^item> \<open>Core_Model\<close> (\<open>otel-sqlite-core/src/model/\<close>) and \<open>Storage_Commands\<close> (\<open>storage/command.rs\<close>,
    \<open>durability.rs\<close>, \<open>health.rs\<close>): log records, attributes and their canonical JSON, and the messages.
  \<^item> \<open>Sqlite_Iface\<close> (\<open>otel-sqlite-storage/src/error.rs\<close>): the error type, and the database as a
    parameter with its laws.

  \<^bold>\<open>Ingress.\<close>
  \<^item> \<open>Bearer_Auth\<close> (\<open>otel-sqlite-ingress/src/auth.rs\<close>): exactly the listed tokens are accepted, and
    failing reloads end in refusal.
  \<^item> \<open>Otlp_Mapping\<close> (\<open>mapping/common.rs\<close>, \<open>mapping/logs.rs\<close>): the walk with an explicit stack equals the
    recursive check, a validated request maps without error, and no record is lost.
  \<^item> \<open>Ingress_Queue\<close> (\<open>lib.rs\<close>, \<open>enqueue.rs\<close>): a request is admitted as a whole or refused.
  \<^item> \<open>Log_Export\<close> (\<open>logs.rs\<close>, \<open>mapping/budget.rs\<close>): the answer accounts for every record, and in both
    durability modes an answer that invites a retry is given only where a retry does not duplicate
    what was stored.

  \<^bold>\<open>Storage.\<close>
  \<^item> \<open>Commit_Ledger\<close> (\<open>otel-sqlite-core/src/storage/commit.rs\<close>): the ledger refines an abstract
    specification of tickets, waits report the truth, and the watermark is safe under interleaving
    although its publication may be stale.
  \<^item> \<open>Insert_Batcher\<close> (\<open>storage/batcher.rs\<close>, \<open>batch.rs\<close>, \<open>time.rs\<close>), \<open>Origin_Buffers\<close>
    (\<open>otel-sqlite-storage/src/origin_buffers.rs\<close>) and \<open>Batcher_Thread\<close> (\<open>batcher.rs\<close>): records and
    tickets are conserved, a ticket is completed by its last record, a flush is a barrier.
  \<^item> \<open>Log_Insert\<close> (\<open>command/\<close>), \<open>Writer\<close> and \<open>Writer_Proofs\<close> (\<open>writer.rs\<close>, \<open>fault.rs\<close>): a batch is
    persisted as a whole or salvaged record by record, the verdicts in the ledger are what the
    database holds, every exit answers those who wait.
  \<^item> \<open>Pipeline\<close> and this theory: the batcher's stream meets what the writer relies on, hence an
    acknowledged chunk is durable.
  \<^item> \<open>Maintenance_Ops\<close> (\<open>maintenance.rs\<close>), \<open>Migrations\<close> (\<open>migration.rs\<close>, \<open>sqlite.rs\<close>), \<open>Storage_Stats\<close>
    (\<open>stats.rs\<close>), \<open>Storage_Lifecycle\<close> (\<open>lib.rs\<close>, \<open>config.rs\<close>, \<open>permissions.rs\<close>): pruning and quota,
    migrations that run each script together with its stamp and can be resumed, their prediction,
    counters, who holds the channels after opening, and joining.

  \<^bold>\<open>Runtime and application.\<close>
  \<^item> \<open>Scheduler\<close> and \<open>Watchdog\<close> (\<open>otel-sqlite-runtime/src/\<close>): maintenance does not bunch, the
    watchdog halts once, the pressure threshold lies within the queue.
  \<^item> \<open>Config_Durations\<close> and \<open>App_Config\<close> (\<open>otel-sqlite/src/config.rs\<close>, \<open>config/\<close>): duration texts are
    read exactly, an accepted configuration exposes no clear-text listener unless it says so.
  \<^item> \<open>Backup_Names\<close>, \<open>Backup_Container\<close>, \<open>Backup_Retention\<close>, \<open>Backup\<close>
    (\<open>otel-sqlite-storage/src/backup.rs\<close>) and \<open>Backup_Cli\<close> (\<open>otel-sqlite/src/backup_cli.rs\<close>):
    backup and restore happen completely or not at all, encrypted backups round-trip and are
    authentic, of the cuts through a container exactly those between frames go unnoticed, retention
    keeps the newest, the date computation agrees with the calendar.

  \<^bold>\<open>Parameters and their laws.\<close>  SQLite, SHA-256, AES-256-GCM, the JSON renderer, the bounded
  channel, the async runtime, TOML parsing and the failures of file calls are not part of the
  repository.  Each is an argument of the definitions; what a property needs of it is a named predicate
  in its hypotheses (for the database \<open>sqlite_laws\<close> and \<open>db_laws\<close>), and its witness gives a concrete instance.

  \<^bold>\<open>Bounds and termination.\<close>  Counters of type \<open>u64\<close> are natural numbers with saturation or
  wrap-around at \<open>U64_MAX\<close> written out; properties that need a counter not to wrap say so.  Duration
  texts are exact below \<open>2 ^ 49\<close> milliseconds and the pressure threshold is sound for queues below
  \<open>2 ^ 24\<close> slots, the ranges in which the rounding of the floating-point code is harmless.  A thread
  loop runs over the finite list of what it receives, of any length, so no fuel is needed.  A loop
  that may not return is a \<open>partial_function\<close> into \<open>option\<close>, and \<open>None\<close> also stands for a panic where a theory says so.

  \<^bold>\<open>Not modelled.\<close>  The gRPC server, its signal handling and its health task (\<open>grpc.rs\<close>,
  \<open>shutdown.rs\<close>, ingress \<open>health.rs\<close>) only connect third-party runtimes.  The process entry point, the
  health probe, certificate generation and the preflight report (\<open>main.rs\<close>, \<open>healthcheck.rs\<close>,
  \<open>gencerts.rs\<close>, \<open>check_cli.rs\<close>) are terminal and network input and output.  The configuration dump,
  metrics, log lines, thread spawning in the runtime crate, the Windows variants, the build script and the
  test support are left out as well.
\<close>

section \<open>End to end\<close>

text \<open>
  C1: An acknowledged chunk is durable.  Let the batcher thread run on any input whose
  non-empty chunks carry distinct tickets, and let the writer execute any prefix of the
  batches it sent, among other non-pruning commands, against any database that meets the
  transaction laws.  If the ledger then reads \<open>Completed\<close> for the ticket of a non-empty
  chunk that was open before, every record of that chunk has been committed under that
  ticket, each exactly once, and nothing else was.
\<close>

theorem acknowledged_chunk_is_durable:
  assumes "max_batch_records c \<noteq> 0" "bs_dropped_records stats \<le> U64_MAX" "tickets_ok arrivals"
    and "run_batcher c fault sm em arrivals \<lparr>q_sent = [], q_accepts = n\<rparr> l stats = Some bt"
    and "db_laws sq visible inside" "command_loop sq cd None fault' i evs wr = Some (r, wr')"
    and "prefix (insert_batches evs) (command_batches (q_sent (bt_commands bt)))"
    and "ledger_inv (wr_ledger wr)" "list_all (\<lambda>ev. \<not> deletes_rows (ce_command ev)) evs"
    and "total_records (insert_batches evs) \<le> U64_MAX"
    and "a \<in> set arrivals" "ar_message a = Some (Logs chunk)" "chunk_records chunk \<noteq> []"
    and "state (wr_ledger wr) (chunk_commit_seq chunk) = Unsettled default_progress"
    and "state (wr_ledger wr') (chunk_commit_seq chunk) = Completed"
  shows "\<exists>oks. visible (wr_world wr') = visible (wr_world wr) @ stream_rows cd (insert_batches evs) oks \<and>
           mset (committed_records (insert_batches evs) oks (chunk_commit_seq chunk)) = mset (chunk_records chunk)"
proof -
  let ?bs = "insert_batches evs" and ?t = "chunk_commit_seq chunk"
  obtain k es acc rej cmds where run: "batcher_run c fault arrivals \<lparr>q_sent = [], q_accepts = n\<rparr> stats k es acc rej cmds bt"
    using run_batcher_run[OF assms(1,2), of fault sm em arrivals "\<lparr>q_sent = [], q_accepts = n\<rparr>" l] assms(4) by auto
  note ev = run[unfolded batcher_run_def]
  have ok: "tickets_ok (take k arrivals)" by (rule tickets_ok_take[OF assms(3)])
  have obs: "run_obs es (new_origin_buffers c) = Some (acc @ rej, bt_logs bt)" "events_of (take k arrivals) es"
    using ev by blast+
  have pre: "prefix ?bs (map batch_of acc)" using assms(7) ev by simp
  have bs: "?bs = map batch_of (take (length ?bs) (acc @ rej))"
    using prefix_map_take[OF pre] prefix_length_le[OF pre] by simp
  note sw = submissions_fit_writer(1)[OF assms(1) ok obs(2,1)]
  have wf: "stream_wf ?bs" using pre sw stream_wf_prefix by (auto simp: prefix_def)
  obtain oks where oks: "run_effect visible cd ?bs wr oks wr'"
    using command_loop_effect[OF assms(5,6,8) wf assms(9)] by blast
  have tk: "?t \<in> set (arrival_tickets a)" using assms(12,13) by (simp add: arrival_tickets_def)
  hence "?t \<noteq> 0" using assms(3,11) by (auto simp: list_all_iff)
  hence "state (wr_ledger wr') ?t = verdict default_progress (total_kept ?bs oks ?t) (total_dropped ?bs oks ?t)
           (\<exists>b \<in> set (take (length oks) ?bs). ?t \<in> batch_completes b)"
    using oks assms(10,14) unfolding run_effect_def by (simp add: default_progress_def)
  then obtain b where b: "total_dropped ?bs oks ?t = 0" "b \<in> set (take (length oks) ?bs)" "?t \<in> batch_completes b"
    using assms(15) by (auto simp: verdict_def Let_def default_progress_def split: if_splits)
  have "oks_for ?bs oks" using oks by (simp add: run_effect_def)
  note rec = executed_records[OF assms(1) ok obs(2,1) bs this b]
  have "mset (committed_records ?bs oks ?t) = mset (chunk_records chunk)"
    using rec(1) arrivals_of_ticket[OF conjunct1[OF ok] ticket_in_take[OF _ assms(11) tk rec(2)] assms(12,13)] assms(3) by simp
  thus ?thesis using oks unfolding run_effect_def by blast
qed

definition small_batch :: LogWriteBatch where
  "small_batch =
     \<lparr>lwb_origin = origin_a, lwb_records = from_vec [sample_log 5], lwb_commit_seqs = [3],
      lwb_segments = [\<lparr>seg_commit_seq = 3, seg_records = 1, seg_complete = True\<rparr>]\<rparr>"

lemma small_batcher_run:
  "\<exists>bt. run_batcher sample_config None 0 9 [sample_arrival 3 [sample_log 5]] \<lparr>q_sent = [], q_accepts = None\<rparr>
      (new_ledger 0) (new_batcher_stats 0) = Some bt \<and> q_sent (bt_commands bt) = [InsertLogs small_batch]"
  by (simp add: run_batcher_def finish_batcher_def sample_arrival_def Let_def handle_def on_chunk_def chunk_is_empty_def
      new_origin_buffers_def obs_push_def new_origin_buffer_def new_batcher_def obs_deadline_def
      push_buffer_def push_def push_loop.simps fill_def saturating_deadline_exact ob_is_empty_def ib_is_empty_def
      flush_buffers_def flush_all_def flush_with_def flush_def consume.simps wb_len_def from_vec_def
      retain_active_def submit_log_batch_def submit_def send_def bs_mark_progress_def batch_of_def new_submission_def
      small_batch_def)

lemma small_persist:
  "\<exists>w' s'. persist_with_policy sample_sqlite now (insert_logs sample_sqlite sample_sha sample_render small_batch)
       (insert_logs_tolerant sample_sqlite sample_sha sample_render small_batch) w s = (Inr None, w', s', [])"
proof -
  have "batch_rows small_batch = [(sample_log 5, 3)]"
    by (simp add: batch_rows_def batch_tickets_def small_batch_def from_vec_def into_records_def wb_len_def)
  thus ?thesis unfolding persist_with_policy_def
    by (subst persist_loop.simps) (cases w, simp add: run_transaction_def sample_run)
qed

lemma small_writer_run:
  "\<exists>wr'. command_loop sample_sqlite sample_codec None None 0 [sample_event (InsertLogs small_batch)] sample_writer =
      Some (Inr (), wr') \<and> state (wr_ledger wr') 3 = Completed"
proof -
  let ?wr = "on_stats (begin_command 0) (on_stats (\<lambda>s. s\<lparr>ws_queue_depth := 1\<rparr>) sample_writer)"
  let ?s = "(wr_stats ?wr)\<lparr>ws_batches_received := wrapping_add (ws_batches_received (wr_stats ?wr)) 1\<rparr>"
  obtain w' s' where "persist_with_policy sample_sqlite 9 (insert_logs sample_sqlite sample_sha sample_render small_batch)
       (insert_logs_tolerant sample_sqlite sample_sha sample_render small_batch) (wr_world ?wr) ?s = (Inr None, w', s', [])"
    using small_persist by blast
  hence "execute_insert sample_sqlite sample_codec 9 small_batch ?wr =
      (Inr (), ?wr\<lparr>wr_world := w', wr_stats := s', wr_ledger := settle_log_batch 9 small_batch None (wr_ledger ?wr)\<rparr>)"
    unfolding execute_insert_def Let_def sample_codec_def codec.select_convs
    by (simp only:) (simp add: small_batch_def wb_is_empty_def from_vec_def)
  moreover have "state (settle_log_batch 9 small_batch None (wr_ledger sample_writer)) 3 = Completed"
    by (simp add: settle_log_batch_def small_batch_def sample_writer_def new_ledger_def issue_def note_committed_def
        note_committed_inner_def is_settled_def progress_of_def default_progress_def Commit_Ledger.complete_def settle_def
        settle_locked_def Let_def wrapping_add_def absorb.simps state_def state_inner_def saturating_add_def)
  ultimately show ?thesis by (auto simp: sample_event_def Let_def quota_step_def)
qed

theorem acknowledged_chunk_is_durable_witness:
  "\<exists>bt wr' oks. run_batcher sample_config None 0 9 [sample_arrival 3 [sample_log 5]] \<lparr>q_sent = [], q_accepts = None\<rparr>
      (new_ledger 0) (new_batcher_stats 0) = Some bt \<and>
    command_loop sample_sqlite sample_codec None None 0 [sample_event (InsertLogs small_batch)] sample_writer = Some (Inr (), wr') \<and>
    fst (wr_world wr') = stream_rows sample_codec [small_batch] oks \<and>
    mset (committed_records [small_batch] oks 3) = {#sample_log 5#}"
proof -
  let ?as = "[sample_arrival 3 [sample_log 5]]" and ?evs = "[sample_event (InsertLogs small_batch)]"
  obtain bt where bt: "run_batcher sample_config None 0 9 ?as \<lparr>q_sent = [], q_accepts = None\<rparr> (new_ledger 0)
      (new_batcher_stats 0) = Some bt" "q_sent (bt_commands bt) = [InsertLogs small_batch]" using small_batcher_run by blast
  obtain wr' where wr: "command_loop sample_sqlite sample_codec None None 0 ?evs sample_writer = Some (Inr (), wr')"
    "state (wr_ledger wr') 3 = Completed" using small_writer_run by blast
  have a: "bs_dropped_records (new_batcher_stats 0) \<le> U64_MAX"
    by (simp add: new_batcher_stats_def default_batcher_stats_def bs_mark_progress_def)
  have b: "tickets_ok ?as" by (simp add: arrival_tickets_def sample_arrival_def)
  have c: "insert_batches ?evs = [small_batch]" "list_all (\<lambda>ev. \<not> deletes_rows (ce_command ev)) ?evs"
    by (simp_all add: sample_event_def)
  have d: "prefix (insert_batches ?evs) (command_batches (q_sent (bt_commands bt)))" using bt(2) c(1) by simp
  have e: "total_records (insert_batches ?evs) \<le> U64_MAX"
    using c(1) by (simp add: total_records_def small_batch_def from_vec_def wb_len_def)
  have f: "sample_arrival 3 [sample_log 5] \<in> set ?as" "state (wr_ledger sample_writer) 3 = Unsettled default_progress"
    by (simp_all add: sample_writer_def new_ledger_def issue_def is_settled_def progress_of_def default_progress_def
        state_def state_inner_def)
  from acknowledged_chunk_is_durable[OF _ a b bt(1) sample_db_laws wr(1) d sample_writer_ready(1) c(2) e f(1)]
  show ?thesis using bt(1) wr f(2) unfolding c(1) by (auto simp: sample_arrival_def sample_writer_def)
qed

end
